(* ===== verification/Prelude.thy ===== *)
theory Prelude
  imports Complex_Main "HOL-Library.Word" "HOL-Library.Log_Nat"
begin

text \<open>
  Shared by every component: the names of the machine types, the wrap-around of signed 64-bit
  arithmetic, and generic facts on lists and words.
\<close>

section \<open>Machine integers\<close>

text \<open>
  Unsigned 64-bit counters are words. Signed 64-bit values (ticks, nanoseconds) are integers
  whose arithmetic is reduced with \<open>wrap64\<close> to the two's complement range, which is what the
  supported targets compute. In C++ a signed overflow is undefined behaviour; the bounds
  theorems show where it cannot happen.
\<close>

type_synonym u64 = "64 word"

definition in_i64 :: "int \<Rightarrow> bool" where
  "in_i64 x \<longleftrightarrow> - (2 ^ 63) \<le> x \<and> x < 2 ^ 63"

definition wrap64 :: "int \<Rightarrow> int" where
  "wrap64 x = (x + 2 ^ 63) mod 2 ^ 64 - 2 ^ 63"

lemma wrap64_id [simp]: "in_i64 x \<Longrightarrow> wrap64 x = x"
  by (simp add: wrap64_def in_i64_def)

lemma in_i64_wrap64 [simp]: "in_i64 (wrap64 x)"
  using pos_mod_bound[of "2 ^ 64" "x + 2 ^ 63"] pos_mod_sign[of "2 ^ 64" "x + 2 ^ 63"]
  by (simp add: wrap64_def in_i64_def)

lemma unat_u64_of_nat: "n < 2 ^ 64 \<Longrightarrow> unat (of_nat n :: u64) = n"
  by (simp add: unat_of_nat)

lemma unat_inc: "unat w + 1 < 2 ^ 64 \<Longrightarrow> unat (w + 1 :: u64) = unat w + 1"
  using unat_u64_of_nat[of "unat w + 1"] by (simp add: add.commute)

lemma sint_u64:
  fixes w :: u64 assumes "unat w < 2 ^ 63" shows "sint w = int (unat w)"
proof -
  have "int (unat w) < int (2 ^ 63)" using assms by (simp only: of_nat_less_iff)
  then have "uint w < 2 ^ 63" by simp
  then have "signed_take_bit 63 (uint w) = uint w" by (intro signed_take_bit_int_eq_self) (use unsigned_greater_eq[of w, where ?'a = int] in linarith)+
  then show ?thesis by (simp add: sint_uint)
qed

lemma sint_u64_of_nat: "n < 2 ^ 63 \<Longrightarrow> sint (of_nat n :: u64) = int n"
  by (simp add: sint_u64 unat_u64_of_nat)

lemma u64_of_nat_inj: "m < 2 ^ 64 \<Longrightarrow> n < 2 ^ 64 \<Longrightarrow> (of_nat m :: u64) = of_nat n \<longleftrightarrow> m = n"
  by (metis unat_u64_of_nat)

section \<open>Zero counts\<close>

text \<open>\<^verbatim>\<open>__builtin_ctzll\<close> and \<^verbatim>\<open>__builtin_clzll\<close>; for 0, where the builtins are undefined, 64.\<close>

definition ctzll :: "u64 \<Rightarrow> nat" where
  "ctzll w = length (takeWhile Not (map (bit w) [0..<64]))"

definition clzll :: "u64 \<Rightarrow> nat" where
  "clzll w = length (takeWhile Not (map (bit w) (rev [0..<64])))"

lemma bit_u64_bound: "bit (w :: u64) i \<Longrightarrow> i < 64"
  using bit_imp_le_length by fastforce

lemma u64_nonzero_bit: "w \<noteq> (0 :: u64) \<longleftrightarrow> (\<exists>i. bit w i)"
  by (auto simp: bit_eq_iff[of w 0] dest: bit_u64_bound)

lemma takeWhile_first:
  assumes "j < length xs" "xs ! j"
  shows "length (takeWhile Not xs) \<le> j" "xs ! length (takeWhile Not xs)"
    "i < length (takeWhile Not xs) \<Longrightarrow> \<not> xs ! i"
proof -
  show nth: "\<not> xs ! i" if "i < length (takeWhile Not xs)" for i
    using that nth_mem[OF that] by (metis set_takeWhileD takeWhile_nth)
  then show le: "length (takeWhile Not xs) \<le> j" using assms(2) by (meson not_le_imp_less)
  show "xs ! length (takeWhile Not xs)" using le assms(1) nth_length_takeWhile[of Not xs] by simp
qed

lemma ctzll_props:
  assumes "w \<noteq> 0" shows "bit w (ctzll w)" "ctzll w < 64" "bit w i \<Longrightarrow> ctzll w \<le> i"
proof -
  let ?xs = "map (bit w) [0..<64]"
  obtain j where j: "bit w j" "j < 64" using assms u64_nonzero_bit bit_u64_bound by blast
  then have x: "j < length ?xs" "?xs ! j" by auto
  note t = takeWhile_first[OF x]
  show b: "ctzll w < 64" using t(1) j(2) by (simp add: ctzll_def)
  then show "bit w (ctzll w)" using t(2) by (simp add: ctzll_def)
  show "bit w i \<Longrightarrow> ctzll w \<le> i"
    using takeWhile_first(1)[of i ?xs] bit_u64_bound[of w i] by (simp add: ctzll_def)
qed

lemma clzll_props:
  assumes "w \<noteq> 0" shows "bit w (63 - clzll w)" "clzll w < 64" "bit w i \<Longrightarrow> i \<le> 63 - clzll w"
proof -
  let ?xs = "map (bit w) (rev [0..<64])"
  have nth: "?xs ! i \<longleftrightarrow> bit w (63 - i)" if "i < 64" for i using that by (simp add: rev_nth)
  have pos: "clzll w \<le> 63 - j" if "bit w j" for j
    using takeWhile_first(1)[of "63 - j" ?xs] nth[of "63 - j"] bit_u64_bound[OF that] that
    by (simp add: clzll_def)
  obtain j where j: "bit w j" "j < 64" using assms u64_nonzero_bit bit_u64_bound by blast
  show b: "clzll w < 64" using pos[OF j(1)] by simp
  have "?xs ! length (takeWhile Not ?xs)"
    using takeWhile_first(2)[of "63 - j" ?xs] nth[of "63 - j"] j by simp
  then show "bit w (63 - clzll w)" using nth[OF b] by (simp add: clzll_def)
  show "bit w i \<Longrightarrow> i \<le> 63 - clzll w" using pos[of i] bit_u64_bound[of w i] by simp
qed

lemma u64_bit_nat: "bit (w :: u64) i \<longleftrightarrow> bit (unat w) i"
  by (simp add: bit_unsigned_iff)

text \<open>The position of the leading bit is the binary logarithm.\<close>

lemma clzll_log:
  assumes "w \<noteq> 0" shows "2 ^ (63 - clzll w) \<le> unat w" "unat w < 2 ^ (64 - clzll w)"
proof -
  note c = clzll_props[OF assms]
  define k where "k = 63 - clzll w"
  have "odd (unat w div 2 ^ k)" using c(1) by (simp add: u64_bit_nat k_def bit_iff_odd)
  then have "unat w div 2 ^ k \<noteq> 0" by (metis even_zero)
  then show "2 ^ (63 - clzll w) \<le> unat w" by (simp add: div_eq_0_iff k_def)
  have "unat w div 2 ^ Suc k = 0"
  proof (rule ccontr)
    assume "unat w div 2 ^ Suc k \<noteq> 0"
    then obtain i where "bit (unat w div 2 ^ Suc k) i" using bit_eq_iff[of "unat w div 2 ^ Suc k" 0] by auto
    then have "bit w (i + Suc k)" by (simp add: u64_bit_nat bit_iff_odd div_mult2_eq[symmetric] power_add ac_simps)
    then show False using c(3)[of "i + Suc k"] by (simp add: k_def)
  qed
  then show "unat w < 2 ^ (64 - clzll w)" using c(2) by (simp add: div_eq_0_iff k_def Suc_diff_le[symmetric])
qed

section \<open>Collections of the development\<close>

named_theorems frame_simps \<open>invariants that do not depend on the field that is updated\<close>

end
