(* ===== verification/Rounding.thy ===== *)
theory Rounding
  imports Prelude
begin

text \<open>
  The rounding of the 64-bit binary floating point format (IEEE 754 binary64, the C++ type
  \<^verbatim>\<open>double\<close> on every target the repository builds for), in the default mode: to nearest,
  ties to even. It is a function on the rationals, without overflow; the theory
  \<open>Float64\<close> adds the infinities, NaN and the sign of zero. The laws that the arithmetic
  proofs need (monotone, idempotent, odd) are the locale \<open>monotone_rounding\<close>; the concrete
  function is its interpretation, and the bounds on its error are lemmas beside it.
\<close>

section \<open>The interface: a monotone rounding\<close>

locale monotone_rounding =
  fixes r :: "rat \<Rightarrow> rat"
  assumes mono: "x \<le> y \<Longrightarrow> r x \<le> r y"
    and idem: "r (r x) = r x"
    and odd: "r (- x) = - r x"
begin

lemma zero: "r 0 = 0"
  using odd[of 0] by simp

lemma nonneg: "0 \<le> x \<Longrightarrow> 0 \<le> r x"
  using mono[of 0 x] by (simp add: zero)

lemma nonpos: "x \<le> 0 \<Longrightarrow> r x \<le> 0"
  using mono[of x 0] by (simp add: zero)

lemma lower: "r a = a \<Longrightarrow> a \<le> x \<Longrightarrow> a \<le> r x"
  using mono[of a x] by simp

lemma upper: "r b = b \<Longrightarrow> x \<le> b \<Longrightarrow> r x \<le> b"
  using mono[of x b] by simp

lemma abs_eq: "r \<bar>x\<bar> = \<bar>r x\<bar>"
  using nonneg[of x] nonneg[of "- x"] by (auto simp: odd abs_if)

lemma abs_upper: "r b = b \<Longrightarrow> \<bar>x\<bar> \<le> b \<Longrightarrow> \<bar>r x\<bar> \<le> b"
  using upper[of b "\<bar>x\<bar>"] by (simp add: abs_eq)

end

section \<open>The rounding of binary64\<close>

abbreviation p2 :: "int \<Rightarrow> rat" where
  "p2 e \<equiv> 2 powi e"

text \<open>The exponent of the leading binary digit of a positive rational.\<close>

definition ilog2 :: "rat \<Rightarrow> int" where
  "ilog2 q = (case quotient_of q of (n, d) \<Rightarrow>
     (let k = bitlen n - bitlen d in if p2 k \<le> q then k else k - 1))"

text \<open>Round to the nearest integer, ties to even.\<close>

definition rne :: "rat \<Rightarrow> int" where
  "rne q = (let f = \<lfloor>q\<rfloor>; r = q - of_int f in
     if r < 1/2 then f else if 1/2 < r then f + 1 else if even f then f else f + 1)"

text \<open>
  The exponent of the last of the 53 digits kept of \<open>q\<close>. Below the smallest normal number
  it is the fixed exponent of the subnormal numbers, -1074.
\<close>

definition ulp_exp :: "rat \<Rightarrow> int" where
  "ulp_exp q = max (- 1074) (ilog2 q - 52)"

definition rnd :: "rat \<Rightarrow> rat" where
  "rnd q = (if q = 0 then 0 else of_int (rne (q / p2 (ulp_exp \<bar>q\<bar>))) * p2 (ulp_exp \<bar>q\<bar>))"

lemma p2_pos [simp]: "0 < p2 e" by simp

lemma p2_add: "p2 (a + b) = p2 a * p2 b" by (simp add: power_int_add)

lemma p2_diff: "p2 (a - b) = p2 a / p2 b" by (simp add: power_int_diff)

lemma p2_mono: "a \<le> b \<Longrightarrow> p2 a \<le> p2 b" by (simp add: power_int_increasing)

lemma p2_less_iff: "p2 a < p2 b \<longleftrightarrow> a < b"
  by (meson linorder_not_less one_less_numeral_iff p2_mono power_int_strict_increasing semiring_norm(76))

lemma p2_nat: "0 \<le> e \<Longrightarrow> p2 e = of_int (2 ^ nat e)" by (simp add: power_int_def)

lemma bitlen_p2:
  assumes "0 < n" shows "p2 (bitlen n - 1) \<le> of_int n" "of_int n < p2 (bitlen n)"
proof -
  have "0 < bitlen n" using assms bitlen_eq_zero_iff[of n] bitlen_nonneg[of n] by linarith
  then show "p2 (bitlen n - 1) \<le> of_int n" "of_int n < p2 (bitlen n)"
    using bitlen_bounds[OF assms] by (auto simp: p2_nat simp del: of_int_power)
qed

lemma ilog2_bounds:
  assumes "0 < q" shows "p2 (ilog2 q) \<le> q" "q < p2 (ilog2 q + 1)"
proof -
  obtain n d where nd: "quotient_of q = (n, d)" by fastforce
  have d: "0 < d" using nd quotient_of_denom_pos by blast
  have q: "q = of_int n / of_int d" using nd quotient_of_div by blast
  have n: "0 < n" using assms d by (simp add: q zero_less_divide_iff)
  note bn = bitlen_p2[OF n] and bd = bitlen_p2[OF d]
  let ?k = "bitlen n - bitlen d"
  have "p2 (bitlen n - 1) / p2 (bitlen d) \<le> of_int n / of_int d"
    using bn(1) bd(2) d n by (intro frac_le) auto
  then have lo: "p2 (?k - 1) \<le> q"
    by (simp add: q p2_diff [symmetric] algebra_simps)
  have "of_int n / of_int d < p2 (bitlen n) / p2 (bitlen d - 1)"
    using bn(2) bd(1) d n by (intro frac_less) auto
  then have hi: "q < p2 (?k + 1)"
    by (simp add: q p2_diff [symmetric] algebra_simps)
  show "p2 (ilog2 q) \<le> q" "q < p2 (ilog2 q + 1)"
    using lo hi by (auto simp: ilog2_def nd Let_def)
qed

lemma ilog2_unique:
  assumes "p2 k \<le> q" "q < p2 (k + 1)" shows "ilog2 q = k"
proof -
  have "0 < q" using assms(1) p2_pos[of k] by linarith
  note b = ilog2_bounds[OF this]
  have "p2 (ilog2 q) < p2 (k + 1)" "p2 k < p2 (ilog2 q + 1)" using b assms by linarith+
  then show ?thesis by (simp add: p2_less_iff)
qed

lemma ilog2_mono: "0 < x \<Longrightarrow> x \<le> y \<Longrightarrow> ilog2 x \<le> ilog2 y"
  using ilog2_bounds[of x] ilog2_bounds[of y] p2_less_iff[of "ilog2 x" "ilog2 y + 1"] by linarith

subsection \<open>Round to nearest integer, ties to even\<close>

lemma rne_cases: "rne q = \<lfloor>q\<rfloor> \<or> rne q = \<lfloor>q\<rfloor> + 1" by (simp add: rne_def Let_def)

lemma rne_error: "\<bar>of_int (rne q) - q\<bar> \<le> 1/2"
proof -
  have "of_int \<lfloor>q\<rfloor> \<le> q" "q < of_int \<lfloor>q\<rfloor> + 1" by linarith+
  then show ?thesis by (auto simp: rne_def Let_def abs_le_iff)
qed

lemma rne_of_int [simp]: "rne (of_int k) = k" by (simp add: rne_def Let_def)

lemma rne_mono: assumes "x \<le> y" shows "rne x \<le> rne y"
proof (cases "\<lfloor>x\<rfloor> = \<lfloor>y\<rfloor>")
  case True then show ?thesis using assms by (auto simp: rne_def Let_def)
next
  case False
  then have "\<lfloor>x\<rfloor> < \<lfloor>y\<rfloor>" using assms floor_mono[OF assms] by linarith
  then show ?thesis using rne_cases[of x] rne_cases[of y] by linarith
qed

lemma rne_minus: "rne (- q) = - rne q"
proof (cases "q = of_int \<lfloor>q\<rfloor>")
  case True then show ?thesis by (metis of_int_minus rne_of_int)
next
  case False
  then have f: "\<lfloor>- q\<rfloor> = - \<lfloor>q\<rfloor> - 1" by linarith
  show ?thesis unfolding rne_def f Let_def by (auto simp: field_simps)
qed


subsection \<open>Rounding to 53 significant bits\<close>

lemma rnd_0 [simp]: "rnd 0 = 0" by (simp add: rnd_def)

lemma rnd_minus: "rnd (- q) = - rnd q" by (simp add: rnd_def rne_minus)

lemma ulp_exp_bounds:
  assumes "0 < q"
  shows "- 1074 \<le> ulp_exp q" "q < p2 (ulp_exp q + 53)"
    "- 1074 < ulp_exp q \<Longrightarrow> p2 (ulp_exp q + 52) \<le> q"
proof -
  show "- 1074 \<le> ulp_exp q" by (simp add: ulp_exp_def)
  have "p2 (ilog2 q + 1) \<le> p2 (ulp_exp q + 53)" by (rule p2_mono) (simp add: ulp_exp_def)
  then show "q < p2 (ulp_exp q + 53)" using ilog2_bounds(2)[OF assms] by linarith
  show "- 1074 < ulp_exp q \<Longrightarrow> p2 (ulp_exp q + 52) \<le> q"
    using ilog2_bounds(1)[OF assms] by (auto simp: ulp_exp_def max_def split: if_splits)
qed

lemma rnd_eq:
  assumes "0 < q"
  shows "rnd q = of_int (rne (q / p2 (ulp_exp q))) * p2 (ulp_exp q)"
  using assms by (simp add: rnd_def)

lemma rnd_nonneg: "0 \<le> q \<Longrightarrow> 0 \<le> rnd q"
proof -
  assume "0 \<le> q"
  moreover have "0 \<le> rne (q / p2 (ulp_exp q))"
    using rne_mono[of "of_int 0" "q / p2 (ulp_exp q)"] calculation by (simp only: rne_of_int) simp
  ultimately show ?thesis by (auto simp: rnd_def)
qed

text \<open>Integral multiples of a power of two with at most 53 significant bits are not changed.\<close>

lemma rnd_exact:
  assumes "\<bar>k\<bar> \<le> 2 ^ 53" "- 1074 \<le> e"
  shows "rnd (of_int k * p2 e) = of_int k * p2 e"
proof -
  have pos: "rnd (of_int k * p2 e) = of_int k * p2 e" if k: "0 < k" "k \<le> 2 ^ 53" for k :: int
  proof (cases "k = 2 ^ 53")
    case True
    let ?q = "of_int k * p2 e"
    have "?q = p2 (e + 53)" using True by (simp add: p2_add)
    then have "ilog2 ?q = e + 53" by (auto intro: ilog2_unique simp: p2_add)
    then have "ulp_exp ?q = e + 1" using assms(2) by (simp add: ulp_exp_def)
    moreover have "?q / p2 (e + 1) = of_int (2 ^ 52)" using True by (simp add: p2_add)
    moreover have "0 < ?q" using k by simp
    ultimately show ?thesis
      using rnd_eq[of ?q] True by (simp only: rne_of_int) (simp add: p2_add)
  next
    case False
    let ?q = "of_int k * p2 e"
    have q: "0 < ?q" using k by simp
    have "of_int k < (of_int (2 ^ 53) :: rat)" using False k by (simp only: of_int_less_iff)
    then have "?q < p2 (e + 53)" by (simp add: p2_add)
    then have "ilog2 ?q < e + 53"
      using ilog2_bounds(1)[OF q] p2_less_iff by (metis order_le_less_trans)
    then have u: "ulp_exp ?q \<le> e" using assms(2) by (simp add: ulp_exp_def)
    have "?q / p2 (ulp_exp ?q) = of_int k * p2 (e - ulp_exp ?q)" by (simp add: p2_diff)
    also have "\<dots> = of_int (k * 2 ^ nat (e - ulp_exp ?q))" using u by (simp add: p2_nat)
    finally have "rne (?q / p2 (ulp_exp ?q)) = k * 2 ^ nat (e - ulp_exp ?q)" by (simp only: rne_of_int)
    then have "rnd ?q = of_int (k * 2 ^ nat (e - ulp_exp ?q)) * p2 (ulp_exp ?q)"
      using rnd_eq[OF q] by simp
    also have "\<dots> = of_int k * (p2 (e - ulp_exp ?q) * p2 (ulp_exp ?q))" using u by (simp add: p2_nat)
    also have "\<dots> = ?q" by (simp add: p2_diff)
    finally show ?thesis .
  qed
  consider "k = 0" | "0 < k" | "k < 0" by linarith
  then show ?thesis
  proof cases
    case 3
    then have "rnd (of_int (- k) * p2 e) = of_int (- k) * p2 e" using assms(1) by (intro pos) auto
    then show ?thesis by (simp add: rnd_minus)
  qed (use assms(1) pos in auto)
qed

text \<open>Conversely every rounded value has that shape.\<close>

lemma rne_mant_bound:
  assumes "0 < q" shows "0 \<le> rne (q / p2 (ulp_exp q))" "rne (q / p2 (ulp_exp q)) \<le> 2 ^ 53"
proof -
  have "q / p2 (ulp_exp q) \<le> of_int (2 ^ 53)"
    using ulp_exp_bounds(2)[OF assms] by (simp add: p2_add field_simps)
  from rne_mono[OF this] show "rne (q / p2 (ulp_exp q)) \<le> 2 ^ 53" by (simp only: rne_of_int)
  have "of_int 0 \<le> q / p2 (ulp_exp q)" using assms by simp
  from rne_mono[OF this] show "0 \<le> rne (q / p2 (ulp_exp q))" by (simp only: rne_of_int)
qed

lemma rnd_idem_pos: assumes "0 < q" shows "rnd (rnd q) = rnd q"
  unfolding rnd_eq[OF assms] using rne_mant_bound[OF assms] ulp_exp_bounds[OF assms]
  by (intro rnd_exact) auto

lemma rnd_idem [simp]: "rnd (rnd q) = rnd q"
proof -
  consider "q = 0" | "0 < q" | "0 < - q" by linarith
  then show ?thesis by cases (use rnd_idem_pos[of "- q"] in \<open>auto simp: rnd_idem_pos rnd_minus\<close>)
qed

lemma rnd_mono_pos:
  assumes "0 < x" "x \<le> y" shows "rnd x \<le> rnd y"
proof (cases "ulp_exp x = ulp_exp y")
  case True
  have "x / p2 (ulp_exp x) \<le> y / p2 (ulp_exp x)" using assms by (simp add: divide_right_mono)
  from rne_mono[OF this] show ?thesis using assms True by (simp add: rnd_eq)
next
  case False
  have "ulp_exp x \<le> ulp_exp y" using ilog2_mono[OF assms] by (auto simp: ulp_exp_def)
  with False have lt: "ulp_exp x < ulp_exp y" by simp
  then have y: "p2 (ulp_exp y + 52) \<le> y" using assms ulp_exp_bounds[of x] ulp_exp_bounds[of y] by auto
  have "rnd x \<le> of_int (2 ^ 53) * p2 (ulp_exp x)"
    unfolding rnd_eq[OF assms(1)] by (intro mult_right_mono) (use rne_mant_bound[OF assms(1)] in \<open>simp_all only: of_int_le_iff, simp\<close>)
  also have "\<dots> = p2 (ulp_exp x + 53)" by (simp add: p2_add)
  also have "\<dots> \<le> p2 (ulp_exp y + 52)" using lt by (intro p2_mono) simp
  also have "\<dots> = of_int (2 ^ 52) * p2 (ulp_exp y)" by (simp add: p2_add)
  also have "\<dots> \<le> rnd y"
  proof -
    have "of_int (2 ^ 52) \<le> y / p2 (ulp_exp y)" using y by (simp add: p2_add field_simps)
    from rne_mono[OF this] have "2 ^ 52 \<le> rne (y / p2 (ulp_exp y))" by (simp only: rne_of_int)
    then have "(of_int (2 ^ 52) :: rat) \<le> of_int (rne (y / p2 (ulp_exp y)))" by (simp only: of_int_le_iff)
    then show ?thesis using assms by (subst rnd_eq) (auto intro!: mult_right_mono)
  qed
  finally show ?thesis .
qed

lemma rnd_mono: assumes "x \<le> y" shows "rnd x \<le> rnd y"
proof -
  consider "0 < x" | "y < 0" | "x \<le> 0" "0 \<le> y" by linarith
  then show ?thesis
  proof cases
    case 2
    then show ?thesis using rnd_mono_pos[of "- y" "- x"] assms by (simp add: rnd_minus)
  next
    case 3
    then show ?thesis using rnd_nonneg[of "- x"] rnd_nonneg[of y] by (simp add: rnd_minus)
  qed (use assms rnd_mono_pos in auto)
qed

interpretation fl: monotone_rounding rnd
  by unfold_locales (auto simp: rnd_minus rnd_mono)

lemma rnd_of_int: "\<bar>k\<bar> \<le> 2 ^ 53 \<Longrightarrow> rnd (of_int k) = of_int k"
  using rnd_exact[of k 0] by simp

subsection \<open>Rounding errors\<close>

lemma rnd_error_abs:
  assumes "0 < q" shows "\<bar>rnd q - q\<bar> \<le> p2 (ulp_exp q) / 2"
proof -
  let ?u = "p2 (ulp_exp q)"
  have "rnd q - q = (of_int (rne (q / ?u)) - q / ?u) * ?u" using assms by (simp add: rnd_eq field_simps)
  then have "\<bar>rnd q - q\<bar> = \<bar>of_int (rne (q / ?u)) - q / ?u\<bar> * ?u" by (simp add: abs_mult)
  also have "\<dots> \<le> 1/2 * ?u" by (intro mult_right_mono rne_error) simp
  finally show ?thesis by simp
qed

lemma rnd_error_rel:
  assumes "p2 (- 1022) \<le> \<bar>q\<bar>" shows "\<bar>rnd q - q\<bar> \<le> \<bar>q\<bar> / 2 ^ 53"
proof -
  have pos: "\<bar>rnd q - q\<bar> \<le> q / 2 ^ 53" if q: "p2 (- 1022) \<le> q" for q
  proof -
    have q0: "0 < q" using q p2_pos[of "- 1022"] by linarith
    have "ilog2 q \<ge> - 1022" using q ilog2_bounds(2)[OF q0] p2_less_iff[of "- 1022" "ilog2 q + 1"] by linarith
    then have "p2 (ulp_exp q) = p2 (ilog2 q) / p2 52" by (simp only: ulp_exp_def p2_diff [symmetric])
    then have "p2 (ulp_exp q) \<le> q / 2 ^ 52" using ilog2_bounds(1)[OF q0] by (simp add: field_simps)
    then show ?thesis using rnd_error_abs[OF q0] by simp
  qed
  show ?thesis
  proof (cases "0 \<le> q")
    case False
    then have "\<bar>rnd (- q) - (- q)\<bar> \<le> - q / 2 ^ 53" using assms by (intro pos) simp
    then show ?thesis using False by (simp add: rnd_minus abs_minus_commute)
  qed (use assms pos in auto)
qed


lemma rnd_multiple: "\<exists>k. rnd q = of_int k * p2 (- 1074)"
proof -
  have pos: "\<exists>k. rnd q = of_int k * p2 (- 1074)" if q: "0 < q" for q
  proof
    let ?e = "ulp_exp q"
    have "0 \<le> ?e + 1074" using ulp_exp_bounds(1)[OF q] by simp
    then have "p2 ?e = of_int (2 ^ nat (?e + 1074)) * p2 (- 1074)"
      using p2_add[of "?e + 1074" "- 1074"] p2_nat[of "?e + 1074"] by simp
    then show "rnd q = of_int (rne (q / p2 ?e) * 2 ^ nat (?e + 1074)) * p2 (- 1074)"
      using q by (simp add: rnd_eq)
  qed
  consider "q = 0" | "0 < q" | "0 < - q" by linarith
  then show ?thesis
  proof cases
    case 1 then show ?thesis by (intro exI[of _ 0]) simp
  next
    case 3
    from pos[OF this] obtain k where "rnd (- q) = of_int k * p2 (- 1074)" by blast
    then show ?thesis by (intro exI[of _ "- k"]) (simp add: rnd_minus)
  qed (use pos in blast)
qed

text \<open>A sum of two values of the format has a small relative error, underflow included.\<close>

lemma rnd_sum_error:
  assumes "rnd a = a" "rnd b = b"
  shows "\<bar>rnd (a + b) - (a + b)\<bar> \<le> \<bar>a + b\<bar> / 2 ^ 53"
proof (cases "p2 (- 1022) \<le> \<bar>a + b\<bar>")
  case False
  obtain j k where "a = of_int j * p2 (- 1074)" "b = of_int k * p2 (- 1074)"
    using rnd_multiple[of a] rnd_multiple[of b] assms by auto
  then have s: "a + b = of_int (j + k) * p2 (- 1074)" by (simp add: algebra_simps)
  have "\<bar>of_int (j + k) :: rat\<bar> * p2 (- 1074) < p2 (- 1074) * p2 52"
    using False by (simp add: s abs_mult p2_add [symmetric] del: of_int_add)
  then have "\<bar>of_int (j + k) :: rat\<bar> < of_int (2 ^ 52)" by simp
  then have "\<bar>j + k\<bar> < 2 ^ 52" by (simp only: of_int_abs [symmetric] of_int_less_iff)
  then have "rnd (a + b) = a + b" unfolding s by (intro rnd_exact) auto
  then show ?thesis by simp
qed (rule rnd_error_rel)

end
