(* ===== verification/Float64.thy ===== *)
theory Float64
  imports Rounding
begin

text \<open>
  The C++ type \<^verbatim>\<open>double\<close>: finite values with a sign (so that there are two zeros), the two
  infinities and NaN, with the operations of IEEE 754 in the default rounding mode. Addition,
  multiplication and division compute the exact result and round it (\<open>fp_round\<close>), overflow
  gives an infinity, and every comparison with NaN is false. The type class instances let the
  model write \<open>a + b\<close>, \<open>a < b\<close> and \<open>\<bar>a\<bar>\<close> as the source does; the source's
  \<^verbatim>\<open>==\<close> is \<open>feq\<close> (HOL's equality tells the two zeros apart and identifies NaN with
  itself). A literal such as \<^verbatim>\<open>1e-12\<close> is \<open>dbl (1 / 10 ^ 12)\<close>, the double nearest to it.
\<close>

section \<open>The values and the operations\<close>

datatype fp = FNaN | FInf bool | FFin bool rat

definition dbl_limit :: rat where
  "dbl_limit = 2 ^ 1024"

lemma dbl_limit_code [code]: "dbl_limit = 179769313486231590772930519078902473361797697894230657273430081157732675805500963132708477322407536021120113879871393357658789768814416622492847430639474124377767893424865485276302219601246094119453082952085005768838150682342462881473913110540827237163350510684586298239947245938479716304835356329624224137216"
  by (simp add: dbl_limit_def)

lemma dbl_limit_pos [simp]: "0 < dbl_limit"
  by (simp add: dbl_limit_def)

fun fp_valid :: "fp \<Rightarrow> bool" where
  "fp_valid FNaN = True"
| "fp_valid (FInf s) = True"
| "fp_valid (FFin s m) = (0 \<le> m \<and> m < dbl_limit \<and> rnd m = m)"

definition fp_round :: "bool \<Rightarrow> rat \<Rightarrow> fp" where
  "fp_round s m = (let r = rnd m in if r < dbl_limit then FFin s r else FInf s)"

fun fp_val :: "fp \<Rightarrow> rat" where
  "fp_val (FFin s m) = (if s then - m else m)"
| "fp_val _ = 0"

fun fp_neg :: "fp \<Rightarrow> fp" where
  "fp_neg FNaN = FNaN"
| "fp_neg (FInf s) = FInf (\<not> s)"
| "fp_neg (FFin s m) = FFin (\<not> s) m"

fun fp_abs :: "fp \<Rightarrow> fp" where
  "fp_abs FNaN = FNaN"
| "fp_abs (FInf s) = FInf False"
| "fp_abs (FFin s m) = FFin False m"

fun fp_add :: "fp \<Rightarrow> fp \<Rightarrow> fp" where
  "fp_add FNaN y = FNaN"
| "fp_add x FNaN = FNaN"
| "fp_add (FInf s) (FInf t) = (if s = t then FInf s else FNaN)"
| "fp_add (FInf s) (FFin t n) = FInf s"
| "fp_add (FFin s m) (FInf t) = FInf t"
| "fp_add (FFin s m) (FFin t n) =
     (let r = fp_val (FFin s m) + fp_val (FFin t n) in
      if r = 0 then FFin (s \<and> t) 0 else fp_round (r < 0) \<bar>r\<bar>)"

fun fp_mul :: "fp \<Rightarrow> fp \<Rightarrow> fp" where
  "fp_mul FNaN y = FNaN"
| "fp_mul x FNaN = FNaN"
| "fp_mul (FInf s) (FInf t) = FInf (s \<noteq> t)"
| "fp_mul (FInf s) (FFin t n) = (if n = 0 then FNaN else FInf (s \<noteq> t))"
| "fp_mul (FFin s m) (FInf t) = (if m = 0 then FNaN else FInf (s \<noteq> t))"
| "fp_mul (FFin s m) (FFin t n) = fp_round (s \<noteq> t) (m * n)"

fun fp_div :: "fp \<Rightarrow> fp \<Rightarrow> fp" where
  "fp_div FNaN y = FNaN"
| "fp_div x FNaN = FNaN"
| "fp_div (FInf s) (FInf t) = FNaN"
| "fp_div (FInf s) (FFin t n) = FInf (s \<noteq> t)"
| "fp_div (FFin s m) (FInf t) = FFin (s \<noteq> t) 0"
| "fp_div (FFin s m) (FFin t n) =
     (if n = 0 then (if m = 0 then FNaN else FInf (s \<noteq> t)) else fp_round (s \<noteq> t) (m / n))"

fun fp_less :: "fp \<Rightarrow> fp \<Rightarrow> bool" where
  "fp_less FNaN y = False"
| "fp_less x FNaN = False"
| "fp_less (FInf s) (FInf t) = (s \<and> \<not> t)"
| "fp_less (FInf s) (FFin t n) = s"
| "fp_less (FFin s m) (FInf t) = (\<not> t)"
| "fp_less (FFin s m) (FFin t n) = (fp_val (FFin s m) < fp_val (FFin t n))"

fun fp_eq :: "fp \<Rightarrow> fp \<Rightarrow> bool" where
  "fp_eq (FInf s) (FInf t) = (s = t)"
| "fp_eq (FFin s m) (FFin t n) = (fp_val (FFin s m) = fp_val (FFin t n))"
| "fp_eq x y = False"

definition fp_less_eq :: "fp \<Rightarrow> fp \<Rightarrow> bool" where
  "fp_less_eq x y = (fp_less x y \<or> fp_eq x y)"

lemma fp_round_valid [simp]: "0 \<le> m \<Longrightarrow> fp_valid (fp_round s m)"
  by (simp add: fp_round_def Let_def rnd_nonneg)

lemma fp_ops_valid:
  "fp_valid x \<Longrightarrow> fp_valid (fp_neg x)"
  "fp_valid x \<Longrightarrow> fp_valid (fp_abs x)"
  "fp_valid x \<Longrightarrow> fp_valid y \<Longrightarrow> fp_valid (fp_add x y)"
  "fp_valid x \<Longrightarrow> fp_valid y \<Longrightarrow> fp_valid (fp_mul x y)"
  "fp_valid x \<Longrightarrow> fp_valid y \<Longrightarrow> fp_valid (fp_div x y)"
  by (cases x; cases y; auto simp: Let_def)+

typedef double = "{x. fp_valid x}" morphisms rep_double Abs_double
  by (rule exI[of _ FNaN]) simp

setup_lifting type_definition_double

lift_definition dval :: "double \<Rightarrow> rat" is fp_val .

lift_definition is_nan :: "double \<Rightarrow> bool" is "\<lambda>x. x = FNaN" .

lift_definition is_fin :: "double \<Rightarrow> bool" is "\<lambda>x. case x of FFin s m \<Rightarrow> True | _ \<Rightarrow> False" .

lift_definition dbl :: "rat \<Rightarrow> double" is "\<lambda>q. fp_round (q < 0) \<bar>q\<bar>" by simp

lift_definition feq :: "double \<Rightarrow> double \<Rightarrow> bool" is fp_eq .

lift_definition d_nan :: double is FNaN by simp

lift_definition d_inf :: "bool \<Rightarrow> double" is FInf by simp

instantiation double :: "{zero, one, plus, minus, uminus, times, inverse, abs, ord, equal}"
begin

lift_definition zero_double :: double is "FFin False 0" by simp

definition one_double :: double where "one_double = dbl 1"

lift_definition plus_double :: "double \<Rightarrow> double \<Rightarrow> double" is fp_add by (rule fp_ops_valid)

lift_definition uminus_double :: "double \<Rightarrow> double" is fp_neg by (rule fp_ops_valid)

definition minus_double :: "double \<Rightarrow> double \<Rightarrow> double" where "minus_double x y = x + (- y)"

lift_definition times_double :: "double \<Rightarrow> double \<Rightarrow> double" is fp_mul by (rule fp_ops_valid)

lift_definition divide_double :: "double \<Rightarrow> double \<Rightarrow> double" is fp_div by (rule fp_ops_valid)

definition inverse_double :: "double \<Rightarrow> double" where "inverse_double x = 1 div x"

lift_definition abs_double :: "double \<Rightarrow> double" is fp_abs by (rule fp_ops_valid)

lift_definition less_double :: "double \<Rightarrow> double \<Rightarrow> bool" is fp_less .

lift_definition less_eq_double :: "double \<Rightarrow> double \<Rightarrow> bool" is fp_less_eq .

definition equal_double :: "double \<Rightarrow> double \<Rightarrow> bool" where
  "equal_double x y = (rep_double x = rep_double y)"

instance by standard (simp add: equal_double_def rep_double_inject)

end

section \<open>The operations on finite values\<close>

lemmas rnd_abs = fl.abs_eq

lemma rnd_dval [simp]: "rnd (dval x) = dval x"
  by transfer (auto elim!: fp_valid.elims simp: rnd_minus)

lemma dval_limit [simp]: "\<bar>dval x\<bar> < dbl_limit"
  by transfer (auto elim!: fp_valid.elims)

lemma is_fin_not_nan [simp]: "is_fin x \<Longrightarrow> \<not> is_nan x"
  by transfer auto

lemma is_fin_dbl: "is_fin (dbl q) \<longleftrightarrow> \<bar>rnd q\<bar> < dbl_limit"
  by transfer (simp add: fp_round_def Let_def rnd_abs)

lemma dval_dbl: "\<bar>rnd q\<bar> < dbl_limit \<Longrightarrow> dval (dbl q) = rnd q"
  by transfer (auto simp: fp_round_def Let_def rnd_abs abs_if rnd_minus split: if_splits
     dest: rnd_nonneg)

lemma is_fin_0 [simp]: "is_fin 0" and dval_0 [simp]: "dval 0 = 0"
  by (transfer, simp)+

lemma dbl_0 [simp]: "dbl 0 = 0"
  by transfer (simp add: fp_round_def)

lemma fp_add_fin:
  assumes "fp_valid (FFin s m)" "fp_valid (FFin t n)"
  defines "r \<equiv> fp_val (FFin s m) + fp_val (FFin t n)"
  shows "(case fp_add (FFin s m) (FFin t n) of FFin s m \<Rightarrow> True | _ \<Rightarrow> False) \<longleftrightarrow> \<bar>rnd r\<bar> < dbl_limit"
    and "\<bar>rnd r\<bar> < dbl_limit \<Longrightarrow> fp_val (fp_add (FFin s m) (FFin t n)) = rnd r"
proof -
  have e: "fp_add (FFin s m) (FFin t n) = (if r = 0 then FFin (s \<and> t) 0 else fp_round (r < 0) \<bar>r\<bar>)"
    by (simp add: r_def Let_def)
  show "(case fp_add (FFin s m) (FFin t n) of FFin s m \<Rightarrow> True | _ \<Rightarrow> False) \<longleftrightarrow> \<bar>rnd r\<bar> < dbl_limit"
    unfolding e by (auto simp: fp_round_def Let_def rnd_abs)
  show "\<bar>rnd r\<bar> < dbl_limit \<Longrightarrow> fp_val (fp_add (FFin s m) (FFin t n)) = rnd r"
    unfolding e using rnd_nonneg[of r] rnd_nonneg[of "- r"]
    by (auto simp: fp_round_def Let_def rnd_abs rnd_minus abs_if split: if_splits)
qed

lemma is_fin_add_iff:
    "is_fin x \<Longrightarrow> is_fin y \<Longrightarrow> is_fin (x + y) \<longleftrightarrow> \<bar>rnd (dval x + dval y)\<bar> < dbl_limit"
  and dval_add:
    "is_fin x \<Longrightarrow> is_fin y \<Longrightarrow> is_fin (x + y) \<Longrightarrow> dval (x + y) = rnd (dval x + dval y)"
proof -
  show *: "is_fin x \<Longrightarrow> is_fin y \<Longrightarrow> is_fin (x + y) \<longleftrightarrow> \<bar>rnd (dval x + dval y)\<bar> < dbl_limit"
    by transfer (case_tac x; case_tac y; simp add: fp_add_fin(1) del: fp_add.simps fp_val.simps)
  show "is_fin x \<Longrightarrow> is_fin y \<Longrightarrow> is_fin (x + y) \<Longrightarrow> dval (x + y) = rnd (dval x + dval y)"
    unfolding * by transfer (case_tac x; case_tac y; simp add: fp_add_fin(2) del: fp_add.simps fp_val.simps)
qed

lemma is_fin_uminus [simp]: "is_fin (- x) = is_fin x" for x :: double
  by transfer (simp split: fp.splits)

lemma dval_uminus [simp]: "dval (- x) = - dval x"
  by transfer (auto elim!: fp_valid.elims)

lemma is_fin_abs [simp]: "is_fin \<bar>x\<bar> = is_fin x" for x :: double
  by transfer (simp split: fp.splits)

lemma dval_abs [simp]: "dval \<bar>x\<bar> = \<bar>dval x\<bar>"
  by transfer (auto elim!: fp_valid.elims)

lemma is_fin_diff_iff:
    "is_fin x \<Longrightarrow> is_fin y \<Longrightarrow> is_fin (x - y) \<longleftrightarrow> \<bar>rnd (dval x - dval y)\<bar> < dbl_limit"
  and dval_diff:
    "is_fin x \<Longrightarrow> is_fin y \<Longrightarrow> is_fin (x - y) \<Longrightarrow> dval (x - y) = rnd (dval x - dval y)"
  using is_fin_add_iff[of x "- y"] dval_add[of x "- y"] by (simp_all add: minus_double_def)

lemma is_fin_mult_iff:
    "is_fin x \<Longrightarrow> is_fin y \<Longrightarrow> is_fin (x * y) \<longleftrightarrow> \<bar>rnd (dval x * dval y)\<bar> < dbl_limit"
  and dval_mult:
    "is_fin x \<Longrightarrow> is_fin y \<Longrightarrow> is_fin (x * y) \<Longrightarrow> dval (x * y) = rnd (dval x * dval y)"
proof -
  have a: "\<bar>rnd (m * n)\<bar> = rnd (m * n)" if "0 \<le> m" "0 \<le> n" for m n using that by (simp add: rnd_nonneg)
  show *: "is_fin x \<Longrightarrow> is_fin y \<Longrightarrow> is_fin (x * y) \<longleftrightarrow> \<bar>rnd (dval x * dval y)\<bar> < dbl_limit"
    by transfer (auto split: fp.splits if_splits simp: fp_round_def Let_def rnd_minus a)
  show "is_fin x \<Longrightarrow> is_fin y \<Longrightarrow> is_fin (x * y) \<Longrightarrow> dval (x * y) = rnd (dval x * dval y)"
    unfolding * by transfer (auto split: fp.splits if_splits simp: fp_round_def Let_def rnd_minus a)
qed

lemma is_fin_divide_iff:
    "is_fin x \<Longrightarrow> is_fin y \<Longrightarrow> dval y \<noteq> 0 \<Longrightarrow> is_fin (x / y) \<longleftrightarrow> \<bar>rnd (dval x / dval y)\<bar> < dbl_limit"
  and dval_divide:
    "is_fin x \<Longrightarrow> is_fin y \<Longrightarrow> dval y \<noteq> 0 \<Longrightarrow> is_fin (x / y) \<Longrightarrow> dval (x / y) = rnd (dval x / dval y)"
proof -
  have a: "\<bar>rnd (m / n)\<bar> = rnd (m / n)" if "0 \<le> m" "0 \<le> n" for m n using that by (simp add: rnd_nonneg)
  show *: "is_fin x \<Longrightarrow> is_fin y \<Longrightarrow> dval y \<noteq> 0 \<Longrightarrow> is_fin (x / y) \<longleftrightarrow> \<bar>rnd (dval x / dval y)\<bar> < dbl_limit"
    by transfer (auto split: fp.splits if_splits simp: fp_round_def Let_def rnd_minus a)
  show "is_fin x \<Longrightarrow> is_fin y \<Longrightarrow> dval y \<noteq> 0 \<Longrightarrow> is_fin (x / y) \<Longrightarrow> dval (x / y) = rnd (dval x / dval y)"
    unfolding * by transfer (auto split: fp.splits if_splits simp: fp_round_def Let_def rnd_minus a)
qed

section \<open>Comparisons\<close>

lemma less_fin: "is_fin x \<Longrightarrow> is_fin y \<Longrightarrow> x < y \<longleftrightarrow> dval x < dval y"
  by transfer (auto split: fp.splits)

lemma less_eq_fin: "is_fin x \<Longrightarrow> is_fin y \<Longrightarrow> x \<le> y \<longleftrightarrow> dval x \<le> dval y"
  by transfer (auto split: fp.splits simp: fp_less_eq_def)

lemma feq_fin: "is_fin x \<Longrightarrow> is_fin y \<Longrightarrow> feq x y \<longleftrightarrow> dval x = dval y"
  by transfer (auto split: fp.splits)

lemma d_less_nan: "x < y \<Longrightarrow> \<not> is_nan x \<and> \<not> is_nan y" for x y :: double
  by transfer (auto elim!: fp_less.elims)

lemma d_le_nan: "x \<le> y \<Longrightarrow> \<not> is_nan x \<and> \<not> is_nan y" for x y :: double
  by transfer (auto simp: fp_less_eq_def elim!: fp_less.elims fp_eq.elims)

lemma d_less_trans: "x < y \<Longrightarrow> y < z \<Longrightarrow> x < z" for x y z :: double
  by transfer (case_tac x; case_tac y; case_tac z; auto split: if_splits)

lemma d_le_trans: "x \<le> y \<Longrightarrow> y \<le> z \<Longrightarrow> x \<le> z" for x y z :: double
  by transfer (case_tac x; case_tac y; case_tac z; auto simp: fp_less_eq_def split: if_splits)

lemma d_less_le_trans: "x < y \<Longrightarrow> y \<le> z \<Longrightarrow> x < z" for x y z :: double
  by transfer (case_tac x; case_tac y; case_tac z; auto simp: fp_less_eq_def split: if_splits)

lemma d_le_less_trans: "x \<le> y \<Longrightarrow> y < z \<Longrightarrow> x < z" for x y z :: double
  by transfer (case_tac x; case_tac y; case_tac z; auto simp: fp_less_eq_def split: if_splits)

lemma d_less_imp_le: "x < y \<Longrightarrow> x \<le> y" for x y :: double
  by transfer (simp add: fp_less_eq_def)

lemma d_not_less: "\<not> is_nan x \<Longrightarrow> \<not> is_nan y \<Longrightarrow> \<not> x < y \<longleftrightarrow> y \<le> x" for x y :: double
  by transfer (case_tac x; case_tac y; auto simp: fp_less_eq_def split: if_splits)

lemma d_le_refl: "x \<le> x \<longleftrightarrow> \<not> is_nan x" for x :: double
  by transfer (case_tac x; auto simp: fp_less_eq_def)

lemma d_less_irrefl [simp]: "\<not> x < x" for x :: double
  by transfer (case_tac x; auto)

lemma d_le_iff: "x \<le> y \<longleftrightarrow> x < y \<or> feq x y" for x y :: double
  by transfer (simp add: fp_less_eq_def)

lemma is_fin_between: "is_fin a \<Longrightarrow> is_fin b \<Longrightarrow> a \<le> x \<Longrightarrow> x \<le> b \<Longrightarrow> is_fin x" for x :: double
  by transfer (case_tac x; auto simp: fp_less_eq_def split: fp.splits)

section \<open>Values of the format\<close>

definition rep :: "rat \<Rightarrow> bool" where
  "rep q \<longleftrightarrow> rnd q = q \<and> \<bar>q\<bar> < dbl_limit"

named_theorems dbl_eval \<open>evaluation of operations on literals of the format\<close>

lemma rep_dval [simp]: "rep (dval x)"
  by (simp add: rep_def)

lemma is_fin_rep [simp]: "rep q \<Longrightarrow> is_fin (dbl q)"
  by (simp add: rep_def is_fin_dbl)

lemma dval_rep [simp]: "rep q \<Longrightarrow> dval (dbl q) = q"
  by (simp add: rep_def dval_dbl)

lemma rep_dbl_eq: "rep q \<Longrightarrow> rep_double (dbl q) = FFin (q < 0) \<bar>q\<bar>"
  by (simp add: dbl.rep_eq fp_round_def rep_def rnd_abs)

lemma dbl_dval: "is_fin x \<Longrightarrow> dval x \<noteq> 0 \<Longrightarrow> dbl (dval x) = x"
  by transfer (auto split: fp.splits simp: fp_round_def Let_def)

lemma rep_minus [simp]: "rep (- q) = rep q"
  by (simp add: rep_def rnd_minus)

lemma rep_abs [simp]: "rep \<bar>q\<bar> = rep q"
  by (simp add: abs_if)

lemma two53_limit: "(2 :: rat) ^ 53 < dbl_limit"
  by (simp add: dbl_limit_def)

lemma rep_of_int: assumes "\<bar>k\<bar> \<le> 2 ^ 53" shows "rep (of_int k)"
proof -
  have "\<bar>of_int k :: rat\<bar> \<le> of_int (2 ^ 53)"
    using assms by (simp only: of_int_abs [symmetric] of_int_le_iff)
  then show ?thesis using two53_limit rnd_of_int[OF assms] by (simp add: rep_def)
qed

lemma rep_0 [simp, dbl_eval]: "rep 0" and rep_1 [simp, dbl_eval]: "rep 1"
  using rep_of_int[of 0] rep_of_int[of 1] by simp_all

lemma rep_numeral [simp, dbl_eval]: "(numeral n :: int) \<le> 2 ^ 53 \<Longrightarrow> rep (numeral n)"
  using rep_of_int[of "numeral n"] by simp

lemma dbl_add [dbl_eval]: assumes "rep a" "rep b" shows "dbl a + dbl b = dbl (a + b)"
proof (rule rep_double_inject[THEN iffD1])
  have "fp_val (FFin (q < 0) \<bar>q\<bar>) = q" for q by simp
  then show "rep_double (dbl a + dbl b) = rep_double (dbl (a + b))"
    unfolding plus_double.rep_eq assms[THEN rep_dbl_eq]
    by (auto simp: dbl.rep_eq Let_def fp_round_def simp del: fp_val.simps)
qed

lemma dbl_uminus [dbl_eval]: assumes "rep a" "a \<noteq> 0" shows "- dbl a = dbl (- a)"
  using assms by (intro rep_double_inject[THEN iffD1]) (auto simp: uminus_double.rep_eq rep_dbl_eq)

lemma dbl_abs [dbl_eval]: assumes "rep a" shows "\<bar>dbl a\<bar> = dbl \<bar>a\<bar>"
  using assms by (intro rep_double_inject[THEN iffD1]) (auto simp: abs_double.rep_eq rep_dbl_eq)

lemma dbl_diff [dbl_eval]: assumes "rep a" "rep b" shows "dbl a - dbl b = dbl (a - b)"
proof (rule rep_double_inject[THEN iffD1])
  show "rep_double (dbl a - dbl b) = rep_double (dbl (a - b))"
    unfolding minus_double_def plus_double.rep_eq uminus_double.rep_eq assms[THEN rep_dbl_eq]
    by (auto simp: dbl.rep_eq Let_def fp_round_def abs_if)
qed

lemma dbl_mult [dbl_eval]:
  assumes "rep a" "rep b" "a * b \<noteq> 0 \<or> 0 \<le> a \<and> 0 \<le> b"
  shows "dbl a * dbl b = dbl (a * b)"
proof (rule rep_double_inject[THEN iffD1])
  have "((a < 0) \<noteq> (b < 0)) = (a * b < 0)" using assms(3) by (auto simp: mult_less_0_iff)
  then show "rep_double (dbl a * dbl b) = rep_double (dbl (a * b))"
    unfolding times_double.rep_eq assms(1,2)[THEN rep_dbl_eq] by (simp add: dbl.rep_eq abs_mult)
qed

lemma dbl_divide [dbl_eval]:
  assumes "rep a" "rep b" "b \<noteq> 0" "a \<noteq> 0 \<or> 0 < b"
  shows "dbl a / dbl b = dbl (a / b)"
proof (rule rep_double_inject[THEN iffD1])
  have "((a < 0) \<noteq> (b < 0)) = (a / b < 0)" using assms(3,4) by (auto simp: divide_less_0_iff)
  then show "rep_double (dbl a / dbl b) = rep_double (dbl (a / b))"
    unfolding divide_double.rep_eq assms(1,2)[THEN rep_dbl_eq] using assms(3) by (simp add: dbl.rep_eq)
qed

lemma dbl_less [dbl_eval]: "rep a \<Longrightarrow> rep b \<Longrightarrow> dbl a < dbl b \<longleftrightarrow> a < b"
  by (simp add: less_fin)

lemma dbl_less_eq [dbl_eval]: "rep a \<Longrightarrow> rep b \<Longrightarrow> dbl a \<le> dbl b \<longleftrightarrow> a \<le> b"
  by (simp add: less_eq_fin)

lemma dbl_feq [dbl_eval]: "rep a \<Longrightarrow> rep b \<Longrightarrow> feq (dbl a) (dbl b) \<longleftrightarrow> a = b"
  by (simp add: feq_fin)

lemma zero_dbl [simp]: "dbl 0 = 0" and one_dbl [simp]: "dbl 1 = 1"
  by (rule rep_double_inject[THEN iffD1], simp add: rep_dbl_eq zero_double.rep_eq) (simp add: one_double_def)

lemma dbl_sign [dbl_eval]:
  assumes "rep a"
  shows "0 < dbl a \<longleftrightarrow> 0 < a" "0 \<le> dbl a \<longleftrightarrow> 0 \<le> a" "dbl a < 0 \<longleftrightarrow> a < 0" "dbl a \<le> 0 \<longleftrightarrow> a \<le> 0"
  using dbl_less[of 0 a] dbl_less[of a 0] dbl_less_eq[of 0 a] dbl_less_eq[of a 0] assms by simp_all

section \<open>Results within a representable bound\<close>

lemma rnd_bound: assumes "rep c" "\<bar>q\<bar> \<le> c" shows "\<bar>rnd q\<bar> \<le> c" "\<bar>rnd q\<bar> < dbl_limit"
proof -
  show "\<bar>rnd q\<bar> \<le> c" using assms by (intro fl.abs_upper) (simp_all add: rep_def)
  moreover have "\<bar>c\<bar> < dbl_limit" using assms(1) by (simp add: rep_def)
  ultimately show "\<bar>rnd q\<bar> < dbl_limit" by linarith
qed

lemma add_bound:
  assumes "is_fin x" "is_fin y" "rep c" "\<bar>dval x + dval y\<bar> \<le> c"
  shows "is_fin (x + y)" "dval (x + y) = rnd (dval x + dval y)" "\<bar>dval (x + y)\<bar> \<le> c"
  using assms rnd_bound[OF assms(3,4)] by (simp_all add: is_fin_add_iff dval_add)

lemma diff_bound:
  assumes "is_fin x" "is_fin y" "rep c" "\<bar>dval x - dval y\<bar> \<le> c"
  shows "is_fin (x - y)" "dval (x - y) = rnd (dval x - dval y)" "\<bar>dval (x - y)\<bar> \<le> c"
  using assms rnd_bound[OF assms(3,4)] by (simp_all add: is_fin_diff_iff dval_diff)

lemma mult_bound:
  assumes "is_fin x" "is_fin y" "rep c" "\<bar>dval x * dval y\<bar> \<le> c"
  shows "is_fin (x * y)" "dval (x * y) = rnd (dval x * dval y)" "\<bar>dval (x * y)\<bar> \<le> c"
  using assms rnd_bound[OF assms(3,4)] by (simp_all add: is_fin_mult_iff dval_mult)

lemma divide_bound:
  assumes "is_fin x" "is_fin y" "dval y \<noteq> 0" "rep c" "\<bar>dval x / dval y\<bar> \<le> c"
  shows "is_fin (x / y)" "dval (x / y) = rnd (dval x / dval y)" "\<bar>dval (x / y)\<bar> \<le> c"
  using assms rnd_bound[OF assms(4,5)] by (simp_all add: is_fin_divide_iff dval_divide)

lemma dval_1 [simp]: "dval 1 = 1" and is_fin_1 [simp]: "is_fin 1"
  using dval_rep[OF rep_1] is_fin_rep[OF rep_1] by simp_all

lemma mult_sign:
  assumes "is_fin x"
  shows "is_fin (x * 1)" "dval (x * 1) = dval x" "is_fin (x * - 1)" "dval (x * - 1) = - dval x"
  using mult_bound[OF assms, of 1 "\<bar>dval x\<bar>"] mult_bound[OF assms, of "- 1" "\<bar>dval x\<bar>"]
  by (simp_all add: rnd_minus)

text \<open>A sum whose second operand shrinks towards 0 stays between the first operand and the full sum.\<close>

lemma add_between:
  assumes "is_fin p" "is_fin e" "is_fin q" "is_fin (p + q)" "0 \<le> dval e \<and> dval e \<le> dval q \<or> dval q \<le> dval e \<and> dval e \<le> 0"
  shows "is_fin (p + e)" "min (dval p) (dval (p + q)) \<le> dval (p + e)" "dval (p + e) \<le> max (dval p) (dval (p + q))"
proof -
  let ?l = "min (dval p) (dval (p + q))" and ?u = "max (dval p) (dval (p + q))"
  have q: "dval (p + q) = rnd (dval p + dval q)" using assms(1,3,4) by (rule dval_add)
  have r: "dval p = rnd (dval p)" by simp
  have b: "?l \<le> rnd (dval p + dval e)" "rnd (dval p + dval e) \<le> ?u"
    using assms(5) fl.mono[of "dval p" "dval p + dval e"] fl.mono[of "dval p + dval e" "dval p"]
      fl.mono[of "dval p + dval e" "dval p + dval q"] fl.mono[of "dval p + dval q" "dval p + dval e"]
    unfolding q by (auto simp: min_le_iff_disj le_max_iff_disj)
  have "\<bar>?l\<bar> < dbl_limit" "\<bar>?u\<bar> < dbl_limit" by (simp_all add: min_def max_def)
  then have "\<bar>rnd (dval p + dval e)\<bar> < dbl_limit" using b by linarith
  then show f: "is_fin (p + e)" using assms(1,2) by (simp add: is_fin_add_iff)
  show "?l \<le> dval (p + e)" "dval (p + e) \<le> ?u" using b dval_add[OF assms(1,2) f] by simp_all
qed

lemma mult_mono_d:
  assumes "is_fin a" "is_fin b" "is_fin c" "is_fin d" "is_fin (c * d)"
    "0 \<le> dval a" "dval a \<le> dval c" "0 \<le> dval b" "dval b \<le> dval d"
  shows "is_fin (a * b)" "0 \<le> dval (a * b)" "dval (a * b) \<le> dval (c * d)"
proof -
  have m: "0 \<le> dval a * dval b" "dval a * dval b \<le> dval c * dval d" using assms(6-9) by (auto intro: mult_mono)
  have cd: "dval (c * d) = rnd (dval c * dval d)" using assms(3-5) by (rule dval_mult)
  have r: "0 \<le> rnd (dval a * dval b)" "rnd (dval a * dval b) \<le> dval (c * d)"
    using m fl.mono[OF m(2)] by (simp_all add: rnd_nonneg cd)
  moreover have "\<bar>dval (c * d)\<bar> < dbl_limit" by simp
  ultimately have "\<bar>rnd (dval a * dval b)\<bar> < dbl_limit" by linarith
  then show f: "is_fin (a * b)" using assms(1,2) by (simp add: is_fin_mult_iff)
  show "0 \<le> dval (a * b)" "dval (a * b) \<le> dval (c * d)" using r dval_mult[OF assms(1,2) f] by simp_all
qed

lemma fp_fin_not_nan:
  "fp_add (FFin s m) (FFin t n) \<noteq> FNaN" "fp_mul (FFin s m) (FFin t n) \<noteq> FNaN"
  "n \<noteq> 0 \<Longrightarrow> fp_div (FFin s m) (FFin t n) \<noteq> FNaN"
  by (simp_all add: fp_round_def Let_def)

lemma fin_not_nan:
  fixes x y :: double
  assumes "is_fin x" "is_fin y"
  shows "\<not> is_nan (x + y)" "\<not> is_nan (x - y)" "\<not> is_nan (x * y)" "dval y \<noteq> 0 \<Longrightarrow> \<not> is_nan (x / y)"
proof -
  have add: "is_fin u \<Longrightarrow> is_fin v \<Longrightarrow> \<not> is_nan (u + v)" for u v :: double
    by transfer (case_tac u; case_tac v; simp add: fp_fin_not_nan(1) del: fp_add.simps fp_val.simps)
  show "\<not> is_nan (x + y)" "\<not> is_nan (x - y)" using assms add[of x y] add[of x "- y"] by (simp_all add: minus_double_def)
  show "\<not> is_nan (x * y)" using assms
    by transfer (case_tac x; case_tac y; simp add: fp_fin_not_nan(2) del: fp_mul.simps fp_val.simps)
  show "dval y \<noteq> 0 \<Longrightarrow> \<not> is_nan (x / y)" using assms
    by transfer (case_tac x; case_tac y; simp add: fp_fin_not_nan(3) del: fp_div.simps split: if_splits)
qed

lemma mult_overflow:
  fixes x y c :: double
  assumes "is_fin x" "is_fin y" "is_fin c" "0 \<le> dval x * dval y" "\<not> is_fin (x * y)"
  shows "c < x * y"
proof -
  have z: "rnd 0 < dbl_limit" using fl.zero by simp
  show ?thesis using assms
    by transfer (case_tac x; case_tac y; case_tac c;
      use z in \<open>auto simp: fp_round_def Let_def mult_le_0_iff split: if_splits\<close>)
qed

lemma d_less_asym: "x < y \<Longrightarrow> \<not> y < x" and d_less_not_feq: "x < y \<Longrightarrow> \<not> feq x y" "x < y \<Longrightarrow> \<not> feq y x" for x y :: double
  by (transfer, case_tac x; case_tac y; auto)+

end
