(* ===== verification/Core_Types.thy ===== *)
theory Core_Types
  imports Float64
begin

text \<open>
  The vocabulary types of \<^verbatim>\<open>include/trading/core\<close>: prices in ticks, quantities, sides, error
  codes and the result type. The two conversions between a price in ticks and a price as a
  \<^verbatim>\<open>double\<close> are modelled with their rounding, and shown to be inverse to each other for every
  tick count up to \<open>2 ^ 50\<close> (\<open>price_roundtrip\<close>).
\<close>

section \<open>Prices\<close>

text \<open>
  \<^verbatim>\<open>std::llround\<close>: to the nearest integer, ties away from zero. For NaN, an infinity or a
  value outside the range of the result, the C standard leaves the result unspecified: the
  model takes it from the parameter \<open>oor\<close>.
\<close>

definition round_away :: "rat \<Rightarrow> int" where
  "round_away q = (if 0 \<le> q then \<lfloor>q + 1/2\<rfloor> else - \<lfloor>1/2 - q\<rfloor>)"

definition llround :: "(double \<Rightarrow> int) \<Rightarrow> double \<Rightarrow> int" where
  "llround oor x =
     (if is_fin x \<and> in_i64 (round_away (dval x)) then round_away (dval x) else wrap64 (oor x))"

datatype Price = Price (ticks: int)

definition fromTicks :: "int \<Rightarrow> Price" where
  "fromTicks t = Price t"

definition fromDouble :: "(double \<Rightarrow> int) \<Rightarrow> double \<Rightarrow> double \<Rightarrow> Price" where
  "fromDouble oor px tickSize = Price (llround oor (px / tickSize))"

definition toDouble :: "Price \<Rightarrow> double \<Rightarrow> double" where
  "toDouble p tickSize = dbl (of_int (ticks p)) * tickSize"

text \<open>The six comparison operators of the class compare the tick counts.\<close>

instantiation Price :: linorder
begin

definition less_eq_Price :: "Price \<Rightarrow> Price \<Rightarrow> bool" where
  "less_eq_Price p q \<longleftrightarrow> ticks p \<le> ticks q"

definition less_Price :: "Price \<Rightarrow> Price \<Rightarrow> bool" where
  "less_Price p q \<longleftrightarrow> ticks p < ticks q"

instance
  by standard (auto simp: less_eq_Price_def less_Price_def intro: Price.expand)

end

section \<open>Quantities, sides, symbols\<close>

datatype Qty = Qty (qvalue: double)

definition isZero :: "Qty \<Rightarrow> bool" where
  "isZero q = feq (qvalue q) 0"

instantiation Qty :: "{plus, minus, ord}"
begin

definition plus_Qty :: "Qty \<Rightarrow> Qty \<Rightarrow> Qty" where
  "plus_Qty a b = Qty (qvalue a + qvalue b)"

definition minus_Qty :: "Qty \<Rightarrow> Qty \<Rightarrow> Qty" where
  "minus_Qty a b = Qty (qvalue a - qvalue b)"

definition less_Qty :: "Qty \<Rightarrow> Qty \<Rightarrow> bool" where
  "less_Qty a b \<longleftrightarrow> qvalue a < qvalue b"

definition less_eq_Qty :: "Qty \<Rightarrow> Qty \<Rightarrow> bool" where
  "less_eq_Qty a b \<longleftrightarrow> qvalue a \<le> qvalue b"

instance ..

end

datatype Side = Bid | Ask

definition opposite :: "Side \<Rightarrow> Side" where
  "opposite s = (if s = Bid then Ask else Bid)"

type_synonym SymbolId = "16 word"
type_synonym OrderId = u64
type_synonym Timestamp = int

definition INVALID_SYMBOL_ID :: SymbolId where
  "INVALID_SYMBOL_ID = - 1"

definition MAX_SYMBOLS :: nat where
  "MAX_SYMBOLS = 64"

definition MAX_BOOK_WALK :: nat where
  "MAX_BOOK_WALK = 32"

record PriceLevel =
  pl_price :: Price
  pl_qty :: Qty

text \<open>\<^verbatim>\<open>std::min\<close> on doubles: the first argument unless the second is less.\<close>

definition std_min :: "double \<Rightarrow> double \<Rightarrow> double" where
  "std_min a b = (if b < a then b else a)"

lemma std_min_fin: "is_fin x \<Longrightarrow> is_fin y \<Longrightarrow> is_fin (std_min x y) \<and> dval (std_min x y) = min (dval x) (dval y)"
  by (simp add: std_min_def less_fin min_def)

section \<open>Errors and results\<close>

datatype Error = Ok | ConfigFileNotFound | ConfigInvalidValue | ParseUnexpectedShape | ParseMalformedJson

fun toString :: "Error \<Rightarrow> string" where
  "toString Ok = ''Ok''"
| "toString ConfigFileNotFound = ''ConfigFileNotFound''"
| "toString ConfigInvalidValue = ''ConfigInvalidValue''"
| "toString ParseUnexpectedShape = ''ParseUnexpectedShape''"
| "toString ParseMalformedJson = ''ParseMalformedJson''"

datatype 'a Result = Value 'a | Fail Error

fun result_ok :: "'a Result \<Rightarrow> bool" where
  "result_ok (Value v) = True"
| "result_ok (Fail e) = False"

fun result_error :: "'a Result \<Rightarrow> Error" where
  "result_error (Value v) = Ok"
| "result_error (Fail e) = e"

text \<open>The specialisation for operations that return no value holds the error alone; it is created with \<open>Ok\<close>.\<close>

datatype VoidResult = VoidResult (void_error: Error)

definition void_result :: VoidResult where
  "void_result = VoidResult Ok"

definition void_ok :: "VoidResult \<Rightarrow> bool" where
  "void_ok r \<longleftrightarrow> void_error r = Ok"

section \<open>Conversion between ticks and doubles\<close>

lemma round_away_near:
  assumes "\<bar>q - of_int k\<bar> < 1/2" shows "round_away q = k"
proof (cases "0 \<le> q")
  case True
  have "\<lfloor>q + 1/2\<rfloor> = k" using assms unfolding floor_eq_iff abs_less_iff by linarith
  with True show ?thesis by (simp add: round_away_def)
next
  case False
  have "\<lfloor>1/2 - q\<rfloor> = - k" using assms unfolding floor_eq_iff abs_less_iff of_int_minus by linarith
  with False show ?thesis by (simp add: round_away_def)
qed

lemma round_away_0: "round_away 0 = 0"
  by (rule round_away_near) simp

text \<open>Tick sizes for which neither a product nor a quotient with a tick count over- or underflows.\<close>

definition tick_ok :: "double \<Rightarrow> bool" where
  "tick_ok k \<longleftrightarrow> is_fin k \<and> p2 (- 900) \<le> dval k \<and> dval k \<le> p2 900"

lemma tick_ok_pos: "tick_ok k \<Longrightarrow> 0 < dval k"
  using p2_pos[of "- 900"] unfolding tick_ok_def by linarith

lemma below_limit: "\<bar>q\<bar> \<le> p2 952 \<Longrightarrow> \<bar>q\<bar> < dbl_limit"
  using p2_less_iff[of 952 1024] by (simp add: dbl_limit_def)

lemma toDouble_fin:
  assumes "\<bar>ticks p\<bar> \<le> 2 ^ 50" "tick_ok k"
  shows "is_fin (toDouble p k)" "dval (toDouble p k) = rnd (of_int (ticks p) * dval k)"
proof -
  have r: "rep (of_int (ticks p))" using assms(1) by (intro rep_of_int) simp
  have k: "is_fin k" "dval k \<le> p2 900" "p2 (- 900) \<le> dval k" using assms(2) by (auto simp: tick_ok_def)
  let ?x = "of_int (ticks p) * dval k"
  have t: "\<bar>of_int (ticks p) :: rat\<bar> \<le> of_int (2 ^ 50)"
    using assms(1) by (simp only: of_int_abs [symmetric] of_int_le_iff)
  have "\<bar>?x\<bar> \<le> of_int (2 ^ 50) * p2 900"
    unfolding abs_mult using t k tick_ok_pos[OF assms(2)] by (intro mult_mono) auto
  also have "of_int (2 ^ 50) * p2 900 = p2 950" using p2_add[of 50 900] by simp
  finally have "\<bar>?x\<bar> \<le> p2 952" using p2_mono[of 950 952] by linarith
  moreover have "rnd (p2 952) = p2 952" using rnd_exact[of 1 952] by simp
  ultimately have "\<bar>rnd ?x\<bar> < dbl_limit" by (intro below_limit fl.abs_upper)
  then show "is_fin (toDouble p k)" "dval (toDouble p k) = rnd ?x"
    using is_fin_mult_iff[of "dbl (of_int (ticks p))" k] dval_mult[of "dbl (of_int (ticks p))" k] r k
    by (auto simp: toDouble_def)
qed

lemma toDouble_mono:
  assumes "\<bar>ticks p\<bar> \<le> 2 ^ 50" "\<bar>ticks q\<bar> \<le> 2 ^ 50" "tick_ok k" "p \<le> q"
  shows "toDouble p k \<le> toDouble q k"
proof -
  have "of_int (ticks p) * dval k \<le> of_int (ticks q) * dval k"
    using assms(4) tick_ok_pos[OF assms(3)] by (intro mult_right_mono) (auto simp: less_eq_Price_def)
  then show ?thesis using toDouble_fin assms by (simp add: less_eq_fin fl.mono)
qed

text \<open>The quotient of a rounded product of \<open>t\<close> and \<open>k\<close> by \<open>k\<close>, rounded again, is near \<open>t\<close>.\<close>

lemma rnd_quotient_near:
  assumes "1 \<le> \<bar>t\<bar>" "\<bar>t\<bar> \<le> 2 ^ 50" "p2 (- 900) \<le> k"
  shows "\<bar>rnd (rnd (t * k) / k) - t\<bar> < 1/2"
proof -
  have k: "0 < k" using assms(3) p2_pos[of "- 900"] by linarith
  have "p2 (- 900) \<le> \<bar>t\<bar> * k" using assms k mult_mono[of 1 "\<bar>t\<bar>" "p2 (- 900)" k] by simp
  then have "p2 (- 1022) \<le> \<bar>t * k\<bar>" using p2_mono[of "- 1022" "- 900"] k by (simp add: abs_mult)
  from rnd_error_rel[OF this] have e1: "\<bar>rnd (t * k) - t * k\<bar> \<le> \<bar>t\<bar> * k / 2 ^ 53"
    using k by (simp add: abs_mult)
  define y where "y = rnd (t * k) / k"
  have "y - t = (rnd (t * k) - t * k) / k" using k by (simp add: y_def field_simps)
  then have "\<bar>y - t\<bar> = \<bar>rnd (t * k) - t * k\<bar> / k" using k by simp
  also have "\<dots> \<le> \<bar>t\<bar> / 2 ^ 53" using e1 k by (simp add: field_simps)
  finally have e2: "\<bar>y - t\<bar> \<le> \<bar>t\<bar> / 2 ^ 53" .
  then have y: "\<bar>y\<bar> \<le> 2 * \<bar>t\<bar>" "1 / 2 \<le> \<bar>y\<bar>" using assms(1) by (auto simp: abs_if split: if_splits)
  have "p2 (- 1022) \<le> 1 / 2" using p2_mono[of "- 1022" "- 1"] by (simp add: power_int_minus)
  then have "\<bar>rnd y - y\<bar> \<le> \<bar>y\<bar> / 2 ^ 53" using y(2) by (intro rnd_error_rel) linarith
  then have "\<bar>rnd y - t\<bar> \<le> 3 * \<bar>t\<bar> / 2 ^ 53" using e2 y(1) by (simp add: abs_if split: if_splits)
  also have "\<dots> < 1/2" using assms(2) by simp
  finally show ?thesis by (simp add: y_def)
qed

lemma fromDouble_toDouble:
  assumes "\<bar>ticks p\<bar> \<le> 2 ^ 50" "tick_ok k"
  shows "fromDouble oor (toDouble p k) k = p"
proof (cases "ticks p = 0")
  case True
  then have "toDouble p k = 0 \<or> dval (toDouble p k) = 0" using toDouble_fin[OF assms] by simp
  then have z: "dval (toDouble p k) = 0" by auto
  have "dval k \<noteq> 0" "is_fin k" using tick_ok_pos[OF assms(2)] assms(2) by (auto simp: tick_ok_def)
  then have "is_fin (toDouble p k / k)" "dval (toDouble p k / k) = 0"
    using is_fin_divide_iff[of "toDouble p k" k] dval_divide[of "toDouble p k" k] toDouble_fin(1)[OF assms] z
    by auto
  then show ?thesis using True 
    by (cases p) (simp add: fromDouble_def llround_def round_away_0 in_i64_def)
next
  case False
  let ?t = "of_int (ticks p) :: rat" and ?k = "dval k"
  have k: "?k \<noteq> 0" "is_fin k" "p2 (- 900) \<le> ?k"
    using tick_ok_pos[OF assms(2)] assms(2) by (auto simp: tick_ok_def)
  have "1 \<le> \<bar>ticks p\<bar>" using False by simp
  then have t: "1 \<le> \<bar>?t\<bar>" "\<bar>?t\<bar> \<le> of_int (2 ^ 50)"
    using assms(1) of_int_le_iff[of 1 "\<bar>ticks p\<bar>", where 'a = rat]
    by (simp, simp only: of_int_abs [symmetric] of_int_le_iff)
  let ?q = "rnd (rnd (?t * ?k) / ?k)"
  have near: "\<bar>?q - ?t\<bar> < 1/2" using t k(3) by (intro rnd_quotient_near) auto
  then have "\<bar>?q\<bar> \<le> 2 ^ 51" using t(2) by (auto simp: abs_if split: if_splits)
  then have "\<bar>?q\<bar> < dbl_limit" using two53_limit by (simp add: dbl_limit_def)
  then have q: "is_fin (toDouble p k / k)" "dval (toDouble p k / k) = ?q"
    using is_fin_divide_iff[of "toDouble p k" k] dval_divide[of "toDouble p k" k] toDouble_fin[OF assms] k
    by auto
  have "round_away ?q = ticks p" by (rule round_away_near[OF near])
  moreover have "in_i64 (ticks p)" using assms(1) by (simp add: in_i64_def abs_le_iff)
  ultimately show ?thesis using q by (cases p) (simp add: fromDouble_def llround_def)
qed

section \<open>Properties\<close>

text \<open>
  C27. A price converted to a double and back is the same price: for every tick count of
  magnitude at most \<open>2 ^ 50\<close> and every tick size between \<open>2 ^ -900\<close> and \<open>2 ^ 900\<close>, whatever
  \<^verbatim>\<open>llround\<close> returns out of range.
\<close>

theorem price_roundtrip:
  assumes "\<bar>ticks p\<bar> \<le> 2 ^ 50" "tick_ok k"
  shows "fromDouble oor (toDouble p k) k = p"
  using assms by (rule fromDouble_toDouble)

lemma tick_ok_cent: "tick_ok (dbl (1 / 100))"
proof -
  have "rnd (1 / 100) = 5764607523034235 / 576460752303423488" by code_simp
  moreover have "p2 (- 900) \<le> p2 (- 7)" "p2 0 \<le> p2 900" by (intro p2_mono, simp)+
  ultimately show ?thesis
    by (simp add: tick_ok_def is_fin_dbl dval_dbl dbl_limit_def power_int_minus field_simps)
qed

theorem price_roundtrip_witness:
  "fromDouble (\<lambda>_. 0) (toDouble (Price 6500012) (dbl (1 / 100))) (dbl (1 / 100)) = Price 6500012"
  by (rule price_roundtrip) (simp_all add: tick_ok_cent)

end
