(* ===== verification/Book_Index.thy ===== *)
theory Book_Index
  imports Prelude
begin

text \<open>
  The two-level bitmap of \<^verbatim>\<open>include/trading/md/bounded_book.hpp\<close>: one bit per price slot in
  an array of 64-bit words, and a summary word with one bit per word, so that the best level is
  found with two zero-count instructions. The contract of such an index (locale
  \<open>level_index\<close>) is that it stores a finite set of slots and returns its maximum and its
  minimum; the bitmap is an interpretation.
\<close>

unbundle bit_operations_syntax

section \<open>The bitmap\<close>

definition WORD_BITS :: nat where
  "WORD_BITS = 64"

definition bitAt :: "nat \<Rightarrow> u64" where
  "bitAt b = push_bit b 1"

type_synonym bitmap = "u64 list \<times> u64"

definition setBit :: "nat \<Rightarrow> bitmap \<Rightarrow> bitmap" where
  "setBit idx m = (case m of (bits, summary) \<Rightarrow>
     (bits[idx div WORD_BITS := bits ! (idx div WORD_BITS) OR bitAt (idx mod WORD_BITS)],
      summary OR bitAt (idx div WORD_BITS)))"

definition clearBit :: "nat \<Rightarrow> bitmap \<Rightarrow> bitmap" where
  "clearBit idx m = (case m of (bits, summary) \<Rightarrow>
     let w = idx div WORD_BITS;
         bits' = bits[w := bits ! w AND NOT (bitAt (idx mod WORD_BITS))]
     in (bits', if bits' ! w = 0 then summary AND NOT (bitAt w) else summary))"

definition highestSet :: "bitmap \<Rightarrow> int" where
  "highestSet m = (case m of (bits, summary) \<Rightarrow>
     if summary = 0 then - 1
     else let w = WORD_BITS - 1 - clzll summary;
              b = WORD_BITS - 1 - clzll (bits ! w)
          in int (w * WORD_BITS + b))"

definition lowestSet :: "nat \<Rightarrow> bitmap \<Rightarrow> int" where
  "lowestSet cap m = (case m of (bits, summary) \<Rightarrow>
     if summary = 0 then int cap
     else let w = ctzll summary;
              b = ctzll (bits ! w)
          in int (w * WORD_BITS + b))"

definition emptyIndex :: "nat \<Rightarrow> bitmap" where
  "emptyIndex cap = (replicate (cap div WORD_BITS) 0, 0)"

section \<open>The interface: an index of live slots\<close>

locale level_index =
  fixes none :: 'i
    and ins :: "nat \<Rightarrow> 'i \<Rightarrow> 'i"
    and del :: "nat \<Rightarrow> 'i \<Rightarrow> 'i"
    and hi :: "'i \<Rightarrow> int"
    and lo :: "'i \<Rightarrow> int"
    and live :: "'i \<Rightarrow> nat set"
    and inv :: "'i \<Rightarrow> bool"
    and cap :: nat
    and ok :: bool
  assumes inv_none: "ok \<Longrightarrow> inv none" and live_none: "live none = {}"
    and inv_ins: "inv m \<Longrightarrow> i < cap \<Longrightarrow> inv (ins i m)"
    and live_ins: "inv m \<Longrightarrow> i < cap \<Longrightarrow> live (ins i m) = insert i (live m)"
    and inv_del: "inv m \<Longrightarrow> i < cap \<Longrightarrow> inv (del i m)"
    and live_del: "inv m \<Longrightarrow> i < cap \<Longrightarrow> live (del i m) = live m - {i}"
    and live_bound: "inv m \<Longrightarrow> live m \<subseteq> {..<cap}"
    and hi_live: "inv m \<Longrightarrow> hi m = (if live m = {} then - 1 else int (Max (live m)))"
    and lo_live: "inv m \<Longrightarrow> lo m = (if live m = {} then int cap else int (Min (live m)))"
begin

lemma finite_live: "inv m \<Longrightarrow> finite (live m)"
  using live_bound finite_subset by blast

text \<open>A loop that inserts the slots that satisfy a test builds the index of exactly those slots.\<close>

lemma fold_ins:
  "inv m \<Longrightarrow> \<forall>i \<in> set is. i < cap \<Longrightarrow>
   inv (fold (\<lambda>i m. if P i then ins i m else m) is m) \<and>
   live (fold (\<lambda>i m. if P i then ins i m else m) is m) = live m \<union> {i \<in> set is. P i}"
proof (induction "is" arbitrary: m)
  case (Cons i "is")
  then have "inv (if P i then ins i m else m)" "live (if P i then ins i m else m) = live m \<union> {j. j = i \<and> P j}"
    by (auto simp: inv_ins live_ins)
  with Cons show ?case by auto
qed simp

lemma rebuild:
  "ok \<Longrightarrow> inv (fold (\<lambda>i m. if P i then ins i m else m) [0..<cap] none) \<and>
   live (fold (\<lambda>i m. if P i then ins i m else m) [0..<cap] none) = {i. i < cap \<and> P i}"
  using fold_ins[OF inv_none, of "[0..<cap]" P] by (auto simp: live_none)

lemma hi_lo_in_live:
  assumes "inv m" "live m \<noteq> {}"
  shows "nat (hi m) \<in> live m" "nat (lo m) \<in> live m" "0 \<le> hi m" "hi m < int cap" "0 \<le> lo m" "lo m < int cap"
proof -
  note f = finite_live[OF assms(1)]
  have "Max (live m) \<in> live m" "Min (live m) \<in> live m" using f assms(2) by auto
  then show "nat (hi m) \<in> live m" "nat (lo m) \<in> live m" "0 \<le> hi m" "hi m < int cap" "0 \<le> lo m" "lo m < int cap"
    using live_bound[OF assms(1)] assms by (auto simp: hi_live lo_live)
qed

lemma hi_ins: "inv m \<Longrightarrow> i < cap \<Longrightarrow> hi (ins i m) = max (int i) (hi m)"
  using finite_live[of m] by (simp add: hi_live inv_ins live_ins of_nat_max)

lemma lo_ins: "inv m \<Longrightarrow> i < cap \<Longrightarrow> lo (ins i m) = min (int i) (lo m)"
  using finite_live[of m] by (simp add: lo_live inv_ins live_ins of_nat_min)

lemma hi_del: assumes "inv m" "i < cap" "int i \<noteq> hi m" shows "hi (del i m) = hi m"
proof (cases "live m = {}")
  case False
  note f = finite_live[OF assms(1)]
  have "Max (live m) \<in> live m - {i}" using f False assms(1,3) by (auto simp: hi_live)
  moreover from this have "Max (live m - {i}) = Max (live m)" using f by (intro Max_eqI) auto
  ultimately show ?thesis using assms by (auto simp: hi_live inv_del live_del)
qed (use assms in \<open>simp add: hi_live inv_del live_del\<close>)

lemma lo_del: assumes "inv m" "i < cap" "int i \<noteq> lo m" shows "lo (del i m) = lo m"
proof (cases "live m = {}")
  case False
  note f = finite_live[OF assms(1)]
  have "Min (live m) \<in> live m - {i}" using f False assms(1,3) by (auto simp: lo_live)
  moreover from this have "Min (live m - {i}) = Min (live m)" using f by (intro Min_eqI) auto
  ultimately show ?thesis using assms by (auto simp: lo_live inv_del live_del)
qed (use assms in \<open>simp add: lo_live inv_del live_del\<close>)

lemma hi_lo_bounds:
  assumes "inv m" "i \<in> live m"
  shows "lo m \<le> int i" "int i \<le> hi m"
  using assms finite_live[OF assms(1)] by (auto simp: hi_live lo_live)

lemma hi_lo_range:
  assumes "inv m" shows "hi m < int cap" "lo m \<le> int cap" "0 \<le> lo m"
  using assms hi_lo_in_live[OF assms] by (cases "live m = {}"; simp add: hi_live lo_live)+

end

section \<open>The bitmap is an index\<close>

definition slots_set :: "bitmap \<Rightarrow> nat set" where
  "slots_set m = {i. i div 64 < length (fst m) \<and> bit (fst m ! (i div 64)) (i mod 64)}"

text \<open>What the static assertions on the capacity of the book say.\<close>

definition book_cap :: "nat \<Rightarrow> bool" where
  "book_cap cap \<longleftrightarrow> (\<exists>k. cap = 2 ^ k \<and> 6 \<le> k \<and> k \<le> 12)"

lemma book_cap_64: "book_cap 64"
  unfolding book_cap_def by (rule exI[of _ 6]) simp

definition index_inv :: "nat \<Rightarrow> bitmap \<Rightarrow> bool" where
  "index_inv cap m \<longleftrightarrow> book_cap cap \<and> length (fst m) = cap div 64 \<and>
     (\<forall>w. bit (snd m) w \<longleftrightarrow> w < length (fst m) \<and> fst m ! w \<noteq> 0)"

lemma book_cap_props:
  assumes "book_cap cap"
  shows "64 * (cap div 64) = cap" "cap div 64 \<le> 64" "1 \<le> cap div 64" "64 \<le> cap" "cap \<le> 4096"
    "even cap" "2 * (cap div 2) = cap" "8 * (cap div 8) = cap"
proof -
  obtain k where k: "cap = 2 ^ k" "6 \<le> k" "k \<le> 12" using assms by (auto simp: book_cap_def)
  then have "cap = 64 * 2 ^ (k - 6)" using power_add[of "2 :: nat" 6 "k - 6"] by simp
  moreover have "(2::nat) ^ (k - 6) \<le> 2 ^ 6" using k by (intro power_increasing) auto
  moreover have "(1 :: nat) \<le> 2 ^ (k - 6)" by simp
  ultimately show "64 * (cap div 64) = cap" "cap div 64 \<le> 64" "1 \<le> cap div 64" "64 \<le> cap" "cap \<le> 4096"
    "even cap" "2 * (cap div 2) = cap" "8 * (cap div 8) = cap" by auto
qed

lemma bit_bitAt: "bit (bitAt b) i \<longleftrightarrow> i = b \<and> b < 64"
  by (auto simp: bitAt_def bit_exp_iff dest: bit_u64_bound)

lemma slot_word: assumes "book_cap cap" "i < cap" shows "i div 64 < cap div 64"
  using assms book_cap_props(1)[OF assms(1)] by (simp add: less_mult_imp_div_less mult.commute)

lemma slot_eq: "i div 64 = j div 64 \<Longrightarrow> j mod 64 = i mod 64 \<Longrightarrow> j = (i :: nat)"
  by (metis div_mult_mod_eq)

lemma slot_split: "i = i div 64 * 64 + i mod 64" "i mod 64 < 64" for i :: nat
  by simp_all

lemma slot_le: "i div 64 \<le> w \<Longrightarrow> i div 64 = w \<longrightarrow> i mod 64 \<le> b \<Longrightarrow> i \<le> w * 64 + b" for i :: nat
  using slot_split[of i] by (cases "i div 64 = w") linarith+

lemma slot_ge: "w \<le> i div 64 \<Longrightarrow> i div 64 = w \<longrightarrow> b \<le> i mod 64 \<Longrightarrow> b < 64 \<Longrightarrow> w * 64 + b \<le> i" for i :: nat
  using slot_split[of i] by (cases "i div 64 = w") linarith+

lemma fst_setBit: "fst (setBit i m) = (fst m)[i div 64 := fst m ! (i div 64) OR bitAt (i mod 64)]"
  and snd_setBit: "snd (setBit i m) = snd m OR bitAt (i div 64)"
  by (simp_all add: setBit_def WORD_BITS_def split: prod.split)

lemma fst_clearBit: "fst (clearBit i m) = (fst m)[i div 64 := fst m ! (i div 64) AND NOT (bitAt (i mod 64))]"
  and snd_clearBit: "snd (clearBit i m) =
    (if fst (clearBit i m) ! (i div 64) = 0 then snd m AND NOT (bitAt (i div 64)) else snd m)"
  by (simp_all add: clearBit_def WORD_BITS_def Let_def split: prod.split)

lemma or_bitAt_nonzero: "b < 64 \<Longrightarrow> w OR bitAt b \<noteq> 0"
  by (auto simp: u64_nonzero_bit bit_or_iff bit_bitAt)

lemma index_inv_setBit:
  assumes "index_inv cap m" "i < cap"
  shows "index_inv cap (setBit i m)"
proof -
  have b: "book_cap cap" "length (fst m) = cap div 64" using assms(1) by (auto simp: index_inv_def)
  have w: "i div 64 < length (fst m)" "i div 64 < 64"
    using slot_word[OF b(1) assms(2)] b book_cap_props(2)[OF b(1)] by auto
  show ?thesis
    using assms(1) w or_bitAt_nonzero[of "i mod 64"]
    by (auto simp: index_inv_def fst_setBit snd_setBit bit_or_iff bit_bitAt nth_list_update)
qed

lemma slots_set_setBit:
  assumes "index_inv cap m" "i < cap"
  shows "slots_set (setBit i m) = insert i (slots_set m)"
proof -
  have w: "i div 64 < length (fst m)" using slot_word[OF _ assms(2)] assms(1) by (auto simp: index_inv_def)
  have "j \<in> slots_set (setBit i m) \<longleftrightarrow> j = i \<or> j \<in> slots_set m" for j
    using w by (auto simp: slots_set_def fst_setBit nth_list_update bit_or_iff bit_bitAt dest: slot_eq)
  then show ?thesis by auto
qed

lemma index_inv_clearBit:
  assumes "index_inv cap m" "i < cap"
  shows "index_inv cap (clearBit i m)"
proof -
  have b: "book_cap cap" "length (fst m) = cap div 64" using assms(1) by (auto simp: index_inv_def)
  have w: "i div 64 < length (fst m)" "i div 64 < 64"
    using slot_word[OF b(1) assms(2)] b book_cap_props(2)[OF b(1)] by auto
  let ?x = "fst m ! (i div 64) AND NOT (bitAt (i mod 64))"
  have nz: "fst m ! (i div 64) \<noteq> 0" if "?x \<noteq> 0" using that by auto
  have s: "bit (snd m) v \<longleftrightarrow> v < length (fst m) \<and> fst m ! v \<noteq> 0" for v
    using assms(1) by (simp add: index_inv_def)
  have x: "fst (clearBit i m) ! (i div 64) = ?x" using w by (simp add: fst_clearBit)
  have "bit (snd (clearBit i m)) v \<longleftrightarrow> v < length (fst m) \<and> (fst m)[i div 64 := ?x] ! v \<noteq> 0" for v
  proof (cases "?x = 0")
    case True
    then have "snd (clearBit i m) = snd m AND NOT (bitAt (i div 64))" by (simp only: snd_clearBit x) simp
    with True w b(2) book_cap_props(2)[OF b(1)] show ?thesis by (auto simp: bit_and_iff bit_not_iff bit_bitAt s nth_list_update dest: bit_u64_bound)
  next
    case False
    then have "snd (clearBit i m) = snd m" by (simp only: snd_clearBit x if_False)
    with False w nz show ?thesis by (auto simp: s nth_list_update)
  qed
  then show ?thesis using b by (simp add: index_inv_def fst_clearBit)
qed

lemma slots_set_clearBit:
  assumes "index_inv cap m" "i < cap"
  shows "slots_set (clearBit i m) = slots_set m - {i}"
proof -
  have w: "i div 64 < length (fst m)" using slot_word[OF _ assms(2)] assms(1) by (auto simp: index_inv_def)
  have "j \<in> slots_set (clearBit i m) \<longleftrightarrow> j \<noteq> i \<and> j \<in> slots_set m" for j
    using w by (auto simp: slots_set_def fst_clearBit nth_list_update bit_and_iff bit_not_iff bit_bitAt
      dest: slot_eq bit_u64_bound)
  then show ?thesis by auto
qed

lemma slots_set_empty_iff:
  assumes "index_inv cap m" shows "slots_set m = {} \<longleftrightarrow> snd m = 0"
proof -
  have "(\<exists>i. i \<in> slots_set m) \<longleftrightarrow> (\<exists>w. bit (snd m) w)"
  proof
    assume "\<exists>w. bit (snd m) w"
    then obtain w b where "w < length (fst m)" "bit (fst m ! w) b" "b < 64"
      using assms by (auto simp: index_inv_def u64_nonzero_bit dest: bit_u64_bound)
    then have "w * 64 + b \<in> slots_set m" by (simp add: slots_set_def)
    then show "\<exists>i. i \<in> slots_set m" ..
  qed (use assms in \<open>auto simp: index_inv_def slots_set_def u64_nonzero_bit\<close>)
  then show ?thesis by (auto simp: u64_nonzero_bit)
qed

lemma highestSet_Max:
  assumes "index_inv cap m" "slots_set m \<noteq> {}"
  shows "highestSet m = int (Max (slots_set m))"
proof -
  obtain bits summary where m: "m = (bits, summary)" by fastforce
  have s: "summary \<noteq> 0" using assms slots_set_empty_iff m by fastforce
  define w where "w = 63 - clzll summary"
  define b where "b = 63 - clzll (bits ! w)"
  have iff: "bit summary v \<longleftrightarrow> v < length bits \<and> bits ! v \<noteq> 0" for v
    using assms(1) by (simp add: index_inv_def m)
  have "bit summary w" using clzll_props(1)[OF s] by (simp add: w_def)
  then have wl: "w < length bits" "bits ! w \<noteq> 0" using iff by auto
  have bb: "bit (bits ! w) b" "b < 64" using clzll_props(1,2)[OF wl(2)] by (auto simp: b_def)
  have "Max (slots_set m) = w * 64 + b"
  proof (rule Max_eqI)
    show "finite (slots_set m)"
      by (rule finite_subset[of _ "{..<64 * length bits}"]) (auto simp: slots_set_def m)
    show "w * 64 + b \<in> slots_set m" using wl bb by (simp add: slots_set_def m)
    fix i assume "i \<in> slots_set m"
    then have i: "i div 64 < length bits" "bit (bits ! (i div 64)) (i mod 64)" by (auto simp: slots_set_def m)
    then have "bit summary (i div 64)" using iff u64_nonzero_bit by blast
    then have "i div 64 \<le> w" using clzll_props(3)[OF s] by (simp add: w_def)
    moreover have "i div 64 = w \<longrightarrow> i mod 64 \<le> b" using i clzll_props(3)[OF wl(2)] by (auto simp: b_def)
    ultimately show "i \<le> w * 64 + b" by (rule slot_le)
  qed
  then show ?thesis using s by (simp add: highestSet_def m WORD_BITS_def w_def b_def Let_def)
qed

lemma lowestSet_Min:
  assumes "index_inv cap m" "slots_set m \<noteq> {}"
  shows "lowestSet c m = int (Min (slots_set m))"
proof -
  obtain bits summary where m: "m = (bits, summary)" by fastforce
  have s: "summary \<noteq> 0" using assms slots_set_empty_iff m by fastforce
  define w where "w = ctzll summary"
  define b where "b = ctzll (bits ! w)"
  have iff: "bit summary v \<longleftrightarrow> v < length bits \<and> bits ! v \<noteq> 0" for v
    using assms(1) by (simp add: index_inv_def m)
  have "bit summary w" using ctzll_props(1)[OF s] by (simp add: w_def)
  then have wl: "w < length bits" "bits ! w \<noteq> 0" using iff by auto
  have bb: "bit (bits ! w) b" "b < 64" using ctzll_props(1,2)[OF wl(2)] by (auto simp: b_def)
  have "Min (slots_set m) = w * 64 + b"
  proof (rule Min_eqI)
    show "finite (slots_set m)"
      by (rule finite_subset[of _ "{..<64 * length bits}"]) (auto simp: slots_set_def m)
    show "w * 64 + b \<in> slots_set m" using wl bb by (simp add: slots_set_def m)
    fix i assume "i \<in> slots_set m"
    then have i: "i div 64 < length bits" "bit (bits ! (i div 64)) (i mod 64)" by (auto simp: slots_set_def m)
    then have "bit summary (i div 64)" using iff u64_nonzero_bit by blast
    then have "w \<le> i div 64" using ctzll_props(3)[OF s] by (simp add: w_def)
    moreover have "i div 64 = w \<longrightarrow> b \<le> i mod 64" using i ctzll_props(3)[OF wl(2)] by (auto simp: b_def)
    ultimately show "w * 64 + b \<le> i" using bb(2) by (intro slot_ge)
  qed
  then show ?thesis using s by (simp add: lowestSet_def m WORD_BITS_def w_def b_def Let_def)
qed

interpretation bm: level_index "emptyIndex cap" setBit clearBit highestSet "lowestSet cap" slots_set
    "index_inv cap" cap "book_cap cap"
  for cap
proof
  show "slots_set (emptyIndex cap) = {}" by (auto simp: emptyIndex_def slots_set_def WORD_BITS_def)
  show "index_inv cap (emptyIndex cap)" if "book_cap cap"
    using that by (auto simp: index_inv_def emptyIndex_def WORD_BITS_def)
next
  fix m assume i: "index_inv cap m"
  then have c: "64 * (cap div 64) = cap" "length (fst m) = cap div 64"
    using book_cap_props(1) by (auto simp: index_inv_def)
  have "j < cap" if "j div 64 < cap div 64" for j
    using that c(1) by (metis div_less_iff_less_mult mult.commute zero_less_numeral)
  then show "slots_set m \<subseteq> {..<cap}" using c(2) by (auto simp: slots_set_def)
  show "highestSet m = (if slots_set m = {} then - 1 else int (Max (slots_set m)))"
    using highestSet_Max[OF i] slots_set_empty_iff[OF i] by (cases m) (auto simp: highestSet_def)
  show "lowestSet cap m = (if slots_set m = {} then int cap else int (Min (slots_set m)))"
    using lowestSet_Min[OF i] slots_set_empty_iff[OF i] by (cases m) (auto simp: lowestSet_def)
qed (use index_inv_setBit index_inv_clearBit slots_set_setBit slots_set_clearBit in auto)

end
