(* ===== verification/Bounded_Book.thy ===== *)
theory Bounded_Book
  imports Core_Types Book_Index "HOL-Library.Signed_Division"
begin

text \<open>
  The price-level order book of \<^verbatim>\<open>include/trading/md/bounded_book.hpp\<close>: a ladder of
  \<open>cap\<close> slots per side (the template parameter \<^verbatim>\<open>Capacity\<close>) around a reference tick, the
  bitmap index of the live slots, and the slot of the best level. The window follows the touch
  (\<open>recenterIfNearEdge\<close>, \<open>rebase\<close>).
\<close>

section \<open>State and operations\<close>

text \<open>\<^verbatim>\<open>bid_bits_\<close> and \<^verbatim>\<open>bid_summary_\<close> are the pair \<open>bid_bm\<close>; likewise for the asks.\<close>

record book =
  ref_tick :: int
  have_ref :: bool
  bids :: "double list"
  asks :: "double list"
  bid_bm :: bitmap
  ask_bm :: bitmap
  best_bid_idx :: int
  best_ask_idx :: int
  rebase_count :: u64

definition CENTER :: "nat \<Rightarrow> nat" where
  "CENTER cap = cap div 2"

definition RECENTER_MARGIN :: "nat \<Rightarrow> int" where
  "RECENTER_MARGIN cap = int (cap div 8)"

definition new_book :: "nat \<Rightarrow> book" where
  "new_book cap = \<lparr>ref_tick = 0, have_ref = False, bids = replicate cap 0, asks = replicate cap 0,
     bid_bm = emptyIndex cap, ask_bm = emptyIndex cap, best_bid_idx = - 1, best_ask_idx = int cap,
     rebase_count = 0\<rparr>"

definition clear :: "nat \<Rightarrow> book \<Rightarrow> book" where
  "clear cap b = b\<lparr>bids := replicate cap 0, asks := replicate cap 0,
     bid_bm := emptyIndex cap, ask_bm := emptyIndex cap,
     best_bid_idx := - 1, best_ask_idx := int cap, have_ref := False\<rparr>"

definition seedReference :: "Price \<Rightarrow> book \<Rightarrow> book" where
  "seedReference price b = (if have_ref b then b else b\<lparr>ref_tick := ticks price, have_ref := True\<rparr>)"

definition rebuildIndex :: "nat \<Rightarrow> book \<Rightarrow> book" where
  "rebuildIndex cap b =
     (let (bm, am) = fold (\<lambda>i (bm, am).
            (if 0 < bids b ! i then setBit i bm else bm, if 0 < asks b ! i then setBit i am else am))
          [0..<cap] (emptyIndex cap, emptyIndex cap)
      in b\<lparr>bid_bm := bm, ask_bm := am, best_bid_idx := highestSet bm, best_ask_idx := lowestSet cap am\<rparr>)"

definition shifted :: "nat \<Rightarrow> int \<Rightarrow> double list \<Rightarrow> double list" where
  "shifted cap shift xs = map (\<lambda>i. let src = wrap64 (int i + shift) in
     if 0 \<le> src \<and> src < int cap then xs ! nat src else 0) [0..<cap]"

definition rebase :: "nat \<Rightarrow> int \<Rightarrow> book \<Rightarrow> book" where
  "rebase cap newRef b =
     (let shift = wrap64 (newRef - ref_tick b);
          b' = b\<lparr>bids := shifted cap shift (bids b), asks := shifted cap shift (asks b), ref_tick := newRef\<rparr>
      in (rebuildIndex cap b')\<lparr>rebase_count := rebase_count b + 1\<rparr>)"

definition recenterIfNearEdge :: "nat \<Rightarrow> book \<Rightarrow> book" where
  "recenterIfNearEdge cap b =
     (let haveBid = (0 \<le> best_bid_idx b); haveAsk = (best_ask_idx b < int cap) in
      if \<not> haveBid \<and> \<not> haveAsk then b
      else let lo = (if haveBid \<and> haveAsk then min (best_bid_idx b) (best_ask_idx b)
                     else if haveBid then best_bid_idx b else best_ask_idx b);
               hi = (if haveBid \<and> haveAsk then max (best_bid_idx b) (best_ask_idx b)
                     else if haveAsk then best_ask_idx b else best_bid_idx b) in
        if RECENTER_MARGIN cap \<le> lo \<and> hi < int cap - RECENTER_MARGIN cap then b
        else let newRef = wrap64 (ref_tick b + ((lo + hi) sdiv 2 - int (CENTER cap))) in
          if newRef \<noteq> ref_tick b then rebase cap newRef b else b)"

definition update :: "nat \<Rightarrow> Side \<Rightarrow> Price \<Rightarrow> Qty \<Rightarrow> book \<Rightarrow> book" where
  "update cap side price qty b0 =
     (let b = (if have_ref b0 then b0 else b0\<lparr>ref_tick := ticks price, have_ref := True\<rparr>);
          idx = wrap64 (int (CENTER cap) + wrap64 (ticks price - ref_tick b)) in
      if idx < 0 \<or> int cap \<le> idx then b
      else let slot = nat idx; q = qvalue qty; live = (0 < q) in
        recenterIfNearEdge cap
          (if side = Bid then
             if live then
               b\<lparr>bids := (bids b)[slot := q], bid_bm := setBit slot (bid_bm b),
                 best_bid_idx := (if best_bid_idx b < idx then idx else best_bid_idx b)\<rparr>
             else (let bm = clearBit slot (bid_bm b) in
               b\<lparr>bids := (bids b)[slot := q], bid_bm := bm,
                 best_bid_idx := (if idx = best_bid_idx b then highestSet bm else best_bid_idx b)\<rparr>)
           else
             if live then
               b\<lparr>asks := (asks b)[slot := q], ask_bm := setBit slot (ask_bm b),
                 best_ask_idx := (if idx < best_ask_idx b then idx else best_ask_idx b)\<rparr>
             else (let am = clearBit slot (ask_bm b) in
               b\<lparr>asks := (asks b)[slot := q], ask_bm := am,
                 best_ask_idx := (if idx = best_ask_idx b then lowestSet cap am else best_ask_idx b)\<rparr>)))"

text \<open>The price of a slot, as \<^verbatim>\<open>topOfBook\<close> and \<^verbatim>\<open>depth\<close> compute it.\<close>

definition slot_price :: "nat \<Rightarrow> book \<Rightarrow> int \<Rightarrow> Price" where
  "slot_price cap b i = fromTicks (wrap64 (ref_tick b + (i - int (CENTER cap))))"

definition topOfBook :: "nat \<Rightarrow> Side \<Rightarrow> book \<Rightarrow> PriceLevel option" where
  "topOfBook cap side b =
     (if side = Bid then
        if best_bid_idx b < 0 then None
        else Some \<lparr>pl_price = slot_price cap b (best_bid_idx b), pl_qty = Qty (bids b ! nat (best_bid_idx b))\<rparr>
      else
        if int cap \<le> best_ask_idx b then None
        else Some \<lparr>pl_price = slot_price cap b (best_ask_idx b), pl_qty = Qty (asks b ! nat (best_ask_idx b))\<rparr>)"

text \<open>
  The two loops of \<^verbatim>\<open>depth\<close>: the first argument counts the slots still to visit going down
  (\<open>i + 1\<close> for the loop variable \<open>i\<close>), or is the loop variable going up.
\<close>

fun depth_down :: "nat \<Rightarrow> nat \<Rightarrow> (nat \<Rightarrow> PriceLevel) \<Rightarrow> double list \<Rightarrow> PriceLevel list" where
  "depth_down 0 n lvl xs = []"
| "depth_down (Suc i) n lvl xs =
     (if n = 0 then []
      else if 0 < xs ! i then lvl i # depth_down i (n - 1) lvl xs else depth_down i n lvl xs)"

function depth_up :: "nat \<Rightarrow> nat \<Rightarrow> nat \<Rightarrow> (nat \<Rightarrow> PriceLevel) \<Rightarrow> double list \<Rightarrow> PriceLevel list" where
  "depth_up cap i n lvl xs =
     (if i < cap \<and> 0 < n then
        if 0 < xs ! i then lvl i # depth_up cap (Suc i) (n - 1) lvl xs else depth_up cap (Suc i) n lvl xs
      else [])"
  by pat_completeness auto
termination
  by (relation "measure (\<lambda>(cap, i, n, lvl, xs). cap - i)") auto

definition depth :: "nat \<Rightarrow> Side \<Rightarrow> nat \<Rightarrow> book \<Rightarrow> PriceLevel list" where
  "depth cap side n b =
     (if side = Bid then
        depth_down (nat (best_bid_idx b + 1)) n
          (\<lambda>i. \<lparr>pl_price = slot_price cap b (int i), pl_qty = Qty (bids b ! i)\<rparr>) (bids b)
      else
        depth_up cap (nat (best_ask_idx b)) n
          (\<lambda>i. \<lparr>pl_price = slot_price cap b (int i), pl_qty = Qty (asks b ! i)\<rparr>) (asks b))"

declare depth_up.simps [simp del]

section \<open>The invariant\<close>

text \<open>
  On each side the bitmap holds exactly the slots with a positive quantity, and the cached best
  slot is the maximum (bid) or the minimum (ask) of them.
\<close>

definition side_ok :: "nat \<Rightarrow> double list \<Rightarrow> bitmap \<Rightarrow> bool" where
  "side_ok cap xs bm \<longleftrightarrow> length xs = cap \<and> index_inv cap bm \<and> slots_set bm = {i. i < cap \<and> 0 < xs ! i}"

definition book_inv :: "nat \<Rightarrow> book \<Rightarrow> bool" where
  "book_inv cap b \<longleftrightarrow> book_cap cap \<and> side_ok cap (bids b) (bid_bm b) \<and> side_ok cap (asks b) (ask_bm b) \<and>
     best_bid_idx b = highestSet (bid_bm b) \<and> best_ask_idx b = lowestSet cap (ask_bm b)"

lemma side_ok_empty: "book_cap cap \<Longrightarrow> side_ok cap (replicate cap 0) (emptyIndex cap)"
  by (simp add: side_ok_def bm.inv_none bm.live_none)

lemma side_ok_set:
  assumes "side_ok cap xs bm" "i < cap" "0 < q"
  shows "side_ok cap (xs[i := q]) (setBit i bm)"
proof -
  have i: "index_inv cap bm" "length xs = cap" "slots_set bm = {j. j < cap \<and> 0 < xs ! j}"
    using assms(1) by (simp_all add: side_ok_def)
  have "{j. j < cap \<and> 0 < xs[i := q] ! j} = insert i (slots_set bm)"
    using i assms(2,3) by (auto simp: nth_list_update)
  then show ?thesis
    using i bm.inv_ins[OF i(1) assms(2)] bm.live_ins[OF i(1) assms(2)] by (simp add: side_ok_def)
qed

lemma side_ok_clear:
  assumes "side_ok cap xs bm" "i < cap" "\<not> 0 < q"
  shows "side_ok cap (xs[i := q]) (clearBit i bm)"
proof -
  have i: "index_inv cap bm" "length xs = cap" "slots_set bm = {j. j < cap \<and> 0 < xs ! j}"
    using assms(1) by (simp_all add: side_ok_def)
  have "{j. j < cap \<and> 0 < xs[i := q] ! j} = slots_set bm - {i}"
    using i assms(2,3) by (auto simp: nth_list_update)
  then show ?thesis
    using i bm.inv_del[OF i(1) assms(2)] bm.live_del[OF i(1) assms(2)] by (simp add: side_ok_def)
qed

lemma empty_best: "highestSet (emptyIndex cap) = - 1" "lowestSet cap (emptyIndex cap) = int cap"
  by (simp_all add: highestSet_def lowestSet_def emptyIndex_def)

lemma book_inv_new: "book_cap cap \<Longrightarrow> book_inv cap (new_book cap)"
  by (simp add: book_inv_def new_book_def side_ok_empty empty_best)

lemma book_inv_clear: "book_inv cap b \<Longrightarrow> book_inv cap (clear cap b)"
  by (simp add: book_inv_def clear_def side_ok_empty empty_best)

lemma book_inv_frame [simp]:
  "book_inv cap (b\<lparr>ref_tick := r\<rparr>) = book_inv cap b" "book_inv cap (b\<lparr>have_ref := h\<rparr>) = book_inv cap b"
  "book_inv cap (b\<lparr>rebase_count := c\<rparr>) = book_inv cap b"
  "book_inv cap (b\<lparr>ref_tick := r, have_ref := h\<rparr>) = book_inv cap b"
  by (simp_all add: book_inv_def)

lemma book_inv_seed: "book_inv cap b \<Longrightarrow> book_inv cap (seedReference p b)"
  by (simp add: seedReference_def)

lemma fold_pair: "fold (\<lambda>i (x, y). (f i x, g i y)) is (a, b) = (fold f is a, fold g is b)"
  by (induction "is" arbitrary: a b) auto

lemma rebuildIndex_fields [simp]:
  "bids (rebuildIndex cap b) = bids b" "asks (rebuildIndex cap b) = asks b"
  "ref_tick (rebuildIndex cap b) = ref_tick b" "have_ref (rebuildIndex cap b) = have_ref b"
  by (simp_all add: rebuildIndex_def fold_pair)

lemma book_inv_rebuild:
  assumes "book_cap cap" "length (bids b) = cap" "length (asks b) = cap"
  shows "book_inv cap (rebuildIndex cap b)"
  using assms bm.rebuild[OF assms(1), of "\<lambda>i. 0 < bids b ! i"] bm.rebuild[OF assms(1), of "\<lambda>i. 0 < asks b ! i"]
  by (simp add: rebuildIndex_def fold_pair book_inv_def side_ok_def)

lemma book_inv_lengths: "book_inv cap b \<Longrightarrow> book_cap cap \<and> length (bids b) = cap \<and> length (asks b) = cap"
  by (simp add: book_inv_def side_ok_def)

lemma book_inv_rebase: "book_cap cap \<Longrightarrow> book_inv cap (rebase cap r b)"
  by (simp add: rebase_def Let_def book_inv_rebuild shifted_def)

lemma book_inv_recenter: "book_inv cap b \<Longrightarrow> book_inv cap (recenterIfNearEdge cap b)"
  using book_inv_lengths[of cap b] by (simp add: recenterIfNearEdge_def Let_def book_inv_rebase)

text \<open>The write of one level, between the window test and the recentering of \<open>update\<close>.\<close>

definition set_level :: "nat \<Rightarrow> Side \<Rightarrow> nat \<Rightarrow> double \<Rightarrow> book \<Rightarrow> book" where
  "set_level cap side slot q b =
     (if side = Bid then
        let bm = (if 0 < q then setBit slot (bid_bm b) else clearBit slot (bid_bm b))
        in b\<lparr>bids := (bids b)[slot := q], bid_bm := bm, best_bid_idx := highestSet bm\<rparr>
      else
        let am = (if 0 < q then setBit slot (ask_bm b) else clearBit slot (ask_bm b))
        in b\<lparr>asks := (asks b)[slot := q], ask_bm := am, best_ask_idx := lowestSet cap am\<rparr>)"

definition anchored :: "Price \<Rightarrow> book \<Rightarrow> book" where
  "anchored price b = (if have_ref b then b else b\<lparr>ref_tick := ticks price, have_ref := True\<rparr>)"

definition update_idx :: "nat \<Rightarrow> Price \<Rightarrow> book \<Rightarrow> int" where
  "update_idx cap price b = wrap64 (int (CENTER cap) + wrap64 (ticks price - ref_tick b))"

text \<open>
  The incremental maintenance of the best slot agrees with recomputing it from the index: the
  cached best is raised by an insertion, and recomputed only when the best level itself goes.
\<close>

lemma update_eq:
  assumes "book_inv cap b"
  shows "update cap side price qty b =
    (let b' = anchored price b; idx = update_idx cap price b' in
     if idx < 0 \<or> int cap \<le> idx then b'
     else recenterIfNearEdge cap (set_level cap side (nat idx) (qvalue qty) b'))"
proof -
  define b' where "b' = anchored price b"
  define idx where "idx = update_idx cap price b'"
  have inv: "index_inv cap (bid_bm b')" "index_inv cap (ask_bm b')"
    "best_bid_idx b' = highestSet (bid_bm b')" "best_ask_idx b' = lowestSet cap (ask_bm b')"
    using assms by (auto simp: book_inv_def side_ok_def b'_def anchored_def)
  show ?thesis
  proof (cases "idx < 0 \<or> int cap \<le> idx")
    case True
    then show ?thesis unfolding idx_def b'_def
      by (simp add: update_def Let_def update_idx_def anchored_def)
  next
    case False
    then have i: "0 \<le> idx" "nat idx < cap" "int (nat idx) = idx" by auto
    have m: "(if x < y then y else x) = max y x" "(if y < x then y else x) = min y x" for x y :: int by auto
    have "set_level cap side (nat idx) q b' =
      (if side = Bid then
         if 0 < q then b'\<lparr>bids := (bids b')[nat idx := q], bid_bm := setBit (nat idx) (bid_bm b'),
           best_bid_idx := (if best_bid_idx b' < idx then idx else best_bid_idx b')\<rparr>
         else let bm = clearBit (nat idx) (bid_bm b') in b'\<lparr>bids := (bids b')[nat idx := q], bid_bm := bm,
           best_bid_idx := (if idx = best_bid_idx b' then highestSet bm else best_bid_idx b')\<rparr>
       else
         if 0 < q then b'\<lparr>asks := (asks b')[nat idx := q], ask_bm := setBit (nat idx) (ask_bm b'),
           best_ask_idx := (if idx < best_ask_idx b' then idx else best_ask_idx b')\<rparr>
         else let am = clearBit (nat idx) (ask_bm b') in b'\<lparr>asks := (asks b')[nat idx := q], ask_bm := am,
           best_ask_idx := (if idx = best_ask_idx b' then lowestSet cap am else best_ask_idx b')\<rparr>)" for q
      using inv i bm.hi_del[OF inv(1) i(2)] bm.lo_del[OF inv(2) i(2)]
      by (simp add: set_level_def Let_def m bm.hi_ins bm.lo_ins)
    with False show ?thesis
      unfolding update_def b'_def anchored_def[symmetric] Let_def update_idx_def[symmetric]
      by (simp add: idx_def b'_def)
  qed
qed

lemma book_inv_set_level:
  assumes "book_inv cap b" "slot < cap"
  shows "book_inv cap (set_level cap side slot q b)"
  using assms by (auto simp: book_inv_def set_level_def Let_def side_ok_set side_ok_clear)

lemma book_inv_anchored [simp]: "book_inv cap (anchored p b) = book_inv cap b"
  by (simp add: anchored_def)

lemma book_inv_update: "book_inv cap b \<Longrightarrow> book_inv cap (update cap side price qty b)"
  by (auto simp: update_eq Let_def intro!: book_inv_recenter book_inv_set_level)

section \<open>The book as a map from prices to quantities\<close>

text \<open>
  What the book stores, as a client sees it: for each side a finite map from the tick of a live
  level to its quantity. The state is bounded when the reference and every live level are
  within \<open>2 ^ 61\<close> ticks; then no signed arithmetic of the book overflows.
\<close>

definition tick_idx :: "nat \<Rightarrow> book \<Rightarrow> int \<Rightarrow> int" where
  "tick_idx cap b t = t - ref_tick b + int (CENTER cap)"

definition in_window :: "nat \<Rightarrow> book \<Rightarrow> int \<Rightarrow> bool" where
  "in_window cap b t \<longleftrightarrow> 0 \<le> tick_idx cap b t \<and> tick_idx cap b t < int cap"

definition ladder :: "Side \<Rightarrow> book \<Rightarrow> double list" where
  "ladder side b = (if side = Bid then bids b else asks b)"

definition levels :: "nat \<Rightarrow> Side \<Rightarrow> book \<Rightarrow> int \<rightharpoonup> double" where
  "levels cap side b t =
     (if in_window cap b t \<and> 0 < ladder side b ! nat (tick_idx cap b t)
      then Some (ladder side b ! nat (tick_idx cap b t)) else None)"

definition tick_bound :: "int \<Rightarrow> bool" where
  "tick_bound t \<longleftrightarrow> \<bar>t\<bar> \<le> 2 ^ 61"

definition book_ok :: "nat \<Rightarrow> book \<Rightarrow> bool" where
  "book_ok cap b \<longleftrightarrow> book_inv cap b \<and> tick_bound (ref_tick b) \<and>
     (\<forall>side t q. levels cap side b t = Some q \<longrightarrow> tick_bound t) \<and>
     (have_ref b \<or> (\<forall>side. levels cap side b = Map.empty))"

lemma book_ok_inv: "book_ok cap b \<Longrightarrow> book_inv cap b"
  by (simp add: book_ok_def)

lemma book_ok_cap: "book_ok cap b \<Longrightarrow> cap \<le> 4096 \<and> 64 \<le> cap \<and> 2 * CENTER cap = cap"
  using book_cap_props[of cap] by (simp add: book_ok_def book_inv_def CENTER_def)

lemma tick_bound_i64: "tick_bound t \<Longrightarrow> \<bar>d\<bar> \<le> 2 ^ 62 \<Longrightarrow> in_i64 (t + d)"
  by (auto simp: tick_bound_def in_i64_def abs_le_iff)

lemma update_idx_eq:
  assumes "book_ok cap b" "tick_bound (ticks p)"
  shows "update_idx cap p b = tick_idx cap b (ticks p)"
proof -
  have c: "int (CENTER cap) \<le> 2048" using book_ok_cap[OF assms(1)] by linarith
  have d: "\<bar>ticks p - ref_tick b\<bar> \<le> 2 ^ 62" using assms by (auto simp: book_ok_def tick_bound_def)
  then have "in_i64 (ticks p - ref_tick b)" "in_i64 (int (CENTER cap) + (ticks p - ref_tick b))"
    using c by (auto simp: in_i64_def abs_le_iff)
  then show ?thesis by (simp add: update_idx_def tick_idx_def algebra_simps)
qed

lemma slot_price_eq:
  assumes "book_ok cap b" "0 \<le> i" "i \<le> int cap"
  shows "slot_price cap b i = Price (ref_tick b + (i - int (CENTER cap)))"
proof -
  have "\<bar>i - int (CENTER cap)\<bar> \<le> 2 ^ 62" using book_ok_cap[OF assms(1)] assms(2,3) by auto
  then show ?thesis using tick_bound_i64 assms(1) by (simp add: slot_price_def fromTicks_def book_ok_def)
qed

lemma levels_slot:
  assumes "book_inv cap b" "i < cap"
  shows "levels cap side b (ref_tick b + int i - int (CENTER cap)) =
    (if 0 < ladder side b ! i then Some (ladder side b ! i) else None)"
  using assms by (simp add: levels_def in_window_def tick_idx_def)

lemma dom_levels: "dom (levels cap side b) = {t. in_window cap b t \<and> 0 < ladder side b ! nat (tick_idx cap b t)}"
  by (auto simp: levels_def split: if_splits)

lemma set_level_fields [simp]:
  "ref_tick (set_level cap sd i q b) = ref_tick b" "have_ref (set_level cap sd i q b) = have_ref b"
  "ladder side (set_level cap sd i q b) = (if side = sd then (ladder side b)[i := q] else ladder side b)"
  by (cases sd; cases side; simp add: set_level_def ladder_def Let_def)+

lemma window_cong: "ref_tick a = ref_tick b \<Longrightarrow> tick_idx cap a t = tick_idx cap b t"
  "ref_tick a = ref_tick b \<Longrightarrow> in_window cap a t = in_window cap b t"
  by (simp_all add: tick_idx_def in_window_def)

lemma levels_set_level:
  assumes "book_inv cap b" "in_window cap b t"
  shows "levels cap side (set_level cap sd (nat (tick_idx cap b t)) q b) =
    (if side = sd then (levels cap side b)(t := if 0 < q then Some q else None) else levels cap side b)"
proof -
  have l: "length (ladder side b) = cap"
    using book_inv_lengths[OF assms(1)] by (simp add: ladder_def)
  have idx: "nat (tick_idx cap b u) = nat (tick_idx cap b t) \<longleftrightarrow> u = t" if "in_window cap b u" for u
    using that assms(2) by (auto simp: in_window_def tick_idx_def)
  define c where "c = set_level cap sd (nat (tick_idx cap b t)) q b"
  have w: "tick_idx cap c u = tick_idx cap b u" "in_window cap c u = in_window cap b u" for u
    by (rule window_cong; simp add: c_def)+
  have lt: "nat (tick_idx cap b t) < cap" using assms(2) by (auto simp: in_window_def nat_less_iff)
  have lad: "ladder side c ! nat (tick_idx cap b u) =
      (if side = sd \<and> u = t then q else ladder side b ! nat (tick_idx cap b u))" if "in_window cap b u" for u
    using idx[OF that] lt l by (auto simp: c_def nth_list_update)
  show ?thesis unfolding c_def[symmetric]
  proof
    fix u
    show "levels cap side c u =
      (if side = sd then (levels cap side b)(t := if 0 < q then Some q else None) else levels cap side b) u"
    proof (cases "in_window cap b u")
      case True
      then show ?thesis using lad[OF True] by (auto simp: levels_def w)
    next
      case False
      then have "u \<noteq> t" using assms(2) by blast
      with False show ?thesis by (simp add: levels_def w)
    qed
  qed
qed

lemma rebase_fields [simp]:
  "ref_tick (rebase cap r b) = r" "have_ref (rebase cap r b) = have_ref b"
  "ladder side (rebase cap r b) = shifted cap (wrap64 (r - ref_tick b)) (ladder side b)"
  by (cases side; simp add: rebase_def Let_def ladder_def)+

lemma levels_rebase:
  assumes "cap \<le> 4096" "in_i64 (r - ref_tick b)" "\<bar>r - ref_tick b\<bar> \<le> 4096"
  shows "levels cap side (rebase cap r b) = levels cap side b |` {t. in_window cap (rebase cap r b) t}"
proof
  fix t
  let ?b = "rebase cap r b" and ?s = "r - ref_tick b"
  show "levels cap side ?b t = (levels cap side b |` {t. in_window cap ?b t}) t"
  proof (cases "in_window cap ?b t")
    case True
    define i where "i = nat (tick_idx cap ?b t)"
    have i: "i < cap" "int i = tick_idx cap ?b t" using True by (auto simp: in_window_def i_def)
    have "int i + ?s = tick_idx cap b t" using i(2) by (simp add: tick_idx_def)
    moreover have "in_i64 (int i + ?s)" using i(1) assms by (auto simp: in_i64_def)
    ultimately have "ladder side ?b ! i = (if in_window cap b t then ladder side b ! nat (tick_idx cap b t) else 0)"
      using i(1) assms(2) by (simp add: shifted_def Let_def in_window_def)
    then show ?thesis using True by (simp add: levels_def restrict_map_def i_def)
  next
    case False
    then show ?thesis by (simp add: levels_def restrict_map_def)
  qed
qed

section \<open>Recentering\<close>

definition live_slot :: "nat \<Rightarrow> book \<Rightarrow> nat \<Rightarrow> bool" where
  "live_slot cap b i \<longleftrightarrow> i < cap \<and> (\<exists>side. 0 < ladder side b ! i)"

lemma best_bid_live:
  assumes "book_inv cap b" "0 \<le> best_bid_idx b"
  shows "nat (best_bid_idx b) < cap" "0 < bids b ! nat (best_bid_idx b)"
proof -
  have i: "index_inv cap (bid_bm b)" "slots_set (bid_bm b) = {i. i < cap \<and> 0 < bids b ! i}"
    "best_bid_idx b = highestSet (bid_bm b)" using assms(1) by (simp_all add: book_inv_def side_ok_def)
  have "slots_set (bid_bm b) \<noteq> {}" using assms(2) i(3) bm.hi_live[OF i(1)] by auto
  from bm.hi_lo_in_live(1)[OF i(1) this] show "nat (best_bid_idx b) < cap" "0 < bids b ! nat (best_bid_idx b)"
    using i by auto
qed

lemma best_ask_live:
  assumes "book_inv cap b" "best_ask_idx b < int cap"
  shows "0 \<le> best_ask_idx b" "nat (best_ask_idx b) < cap" "0 < asks b ! nat (best_ask_idx b)"
proof -
  have i: "index_inv cap (ask_bm b)" "slots_set (ask_bm b) = {i. i < cap \<and> 0 < asks b ! i}"
    "best_ask_idx b = lowestSet cap (ask_bm b)" using assms(1) by (simp_all add: book_inv_def side_ok_def)
  have ne: "slots_set (ask_bm b) \<noteq> {}" using assms(2) i(3) bm.lo_live[OF i(1)] by auto
  from bm.hi_lo_in_live(2,5)[OF i(1) ne]
  show "0 \<le> best_ask_idx b" "nat (best_ask_idx b) < cap" "0 < asks b ! nat (best_ask_idx b)"
    using i by auto
qed

lemma sdiv_2_nonneg: "0 \<le> x \<Longrightarrow> x sdiv 2 = (x :: int) div 2"
  by (simp add: signed_divide_int_def sgn_if)

text \<open>
  Either nothing changes, or the window moves to the midpoint of two live slots \<open>i\<close> and
  \<open>j\<close>, which are the best bid and the best ask as far as they exist.
\<close>

lemma recenter_cases:
  assumes "book_inv cap b"
  shows "recenterIfNearEdge cap b = b \<or>
    (\<exists>i j. i \<le> j \<and> live_slot cap b i \<and> live_slot cap b j \<and>
       (0 \<le> best_bid_idx b \<longrightarrow> best_bid_idx b \<in> {int i, int j}) \<and>
       (best_ask_idx b < int cap \<longrightarrow> best_ask_idx b \<in> {int i, int j}) \<and>
       int j - int i = (if 0 \<le> best_bid_idx b \<and> best_ask_idx b < int cap
                        then \<bar>best_ask_idx b - best_bid_idx b\<bar> else 0) \<and>
       recenterIfNearEdge cap b =
         rebase cap (wrap64 (ref_tick b + ((int i + int j) div 2 - int (CENTER cap)))) b)"
proof (cases "recenterIfNearEdge cap b = b")
  case False
  let ?bid = "0 \<le> best_bid_idx b" and ?ask = "best_ask_idx b < int cap"
  define lo where "lo = (if ?bid \<and> ?ask then min (best_bid_idx b) (best_ask_idx b)
    else if ?bid then best_bid_idx b else best_ask_idx b)"
  define hi where "hi = (if ?bid \<and> ?ask then max (best_bid_idx b) (best_ask_idx b)
    else if ?ask then best_ask_idx b else best_bid_idx b)"
  have h: "?bid \<or> ?ask"
  proof (rule ccontr)
    assume "\<not> (?bid \<or> ?ask)"
    then have "recenterIfNearEdge cap b = b" by (simp add: recenterIfNearEdge_def)
    with False show False ..
  qed
  have nn: "0 \<le> lo" "lo \<le> hi" using h best_ask_live(1)[OF assms] by (auto simp: lo_def hi_def)
  have "recenterIfNearEdge cap b = rebase cap (wrap64 (ref_tick b + ((lo + hi) sdiv 2 - int (CENTER cap)))) b"
    using False h unfolding recenterIfNearEdge_def Let_def lo_def[symmetric] hi_def[symmetric]
    by (simp split: if_splits)
  moreover have "(lo + hi) sdiv 2 = (lo + hi) div 2" using nn by (intro sdiv_2_nonneg) simp
  moreover have "live_slot cap b (nat lo)" "live_slot cap b (nat hi)"
  proof -
    have b: "?bid \<longrightarrow> live_slot cap b (nat (best_bid_idx b))"
      using best_bid_live[OF assms] by (auto simp: live_slot_def ladder_def intro!: exI[of _ Bid])
    have a: "?ask \<longrightarrow> live_slot cap b (nat (best_ask_idx b))"
      using best_ask_live[OF assms] by (auto simp: live_slot_def ladder_def intro!: exI[of _ Ask])
    have "lo = best_bid_idx b \<and> ?bid \<or> lo = best_ask_idx b \<and> ?ask"
      "hi = best_bid_idx b \<and> ?bid \<or> hi = best_ask_idx b \<and> ?ask"
      using h by (auto simp: lo_def hi_def min_def max_def)
    with a b show "live_slot cap b (nat lo)" "live_slot cap b (nat hi)" by metis+
  qed
  moreover have "?bid \<longrightarrow> best_bid_idx b \<in> {lo, hi}" "?ask \<longrightarrow> best_ask_idx b \<in> {lo, hi}"
    "hi - lo = (if ?bid \<and> ?ask then \<bar>best_ask_idx b - best_bid_idx b\<bar> else 0)"
    using h by (auto simp: lo_def hi_def)
  ultimately show ?thesis using nn by (intro disjI2 exI[of _ "nat lo"] exI[of _ "nat hi"]) auto
qed simp

lemma live_slot_tick:
  assumes "book_ok cap b" "live_slot cap b i"
  shows "tick_bound (ref_tick b + int i - int (CENTER cap))"
proof -
  obtain side where "i < cap" "0 < ladder side b ! i" using assms(2) by (auto simp: live_slot_def)
  then have "levels cap side b (ref_tick b + int i - int (CENTER cap)) = Some (ladder side b ! i)"
    using levels_slot[OF book_ok_inv[OF assms(1)]] by auto
  then show ?thesis using assms(1) unfolding book_ok_def by blast
qed

text \<open>The new reference lies between two live levels, so it stays within the bound.\<close>

lemma recenter_ref:
  assumes "book_ok cap b" "i \<le> j" "live_slot cap b i" "live_slot cap b j"
  defines "r \<equiv> ref_tick b + ((int i + int j) div 2 - int (CENTER cap))"
  shows "wrap64 r = r" "tick_bound r" "\<bar>r - ref_tick b\<bar> \<le> 4096"
proof -
  have "int i \<le> (int i + int j) div 2" "(int i + int j) div 2 \<le> int j" using assms(2) by auto
  then show b: "tick_bound r"
    using live_slot_tick[OF assms(1,3)] live_slot_tick[OF assms(1,4)]
    by (auto simp: tick_bound_def abs_le_iff r_def)
  then show "wrap64 r = r" using tick_bound_i64[of r 0] by simp
  have "j < cap" "cap \<le> 4096" "2 * CENTER cap = cap"
    using assms(4) book_ok_cap[OF assms(1)] by (auto simp: live_slot_def)
  then show "\<bar>r - ref_tick b\<bar> \<le> 4096" using assms(2) by (auto simp: r_def abs_le_iff)
qed

lemma levels_recenter:
  assumes "book_ok cap b"
  shows "levels cap side (recenterIfNearEdge cap b) =
      levels cap side b |` {t. in_window cap (recenterIfNearEdge cap b) t}"
    and "tick_bound (ref_tick (recenterIfNearEdge cap b))"
    and "have_ref (recenterIfNearEdge cap b) = have_ref b"
proof -
  let ?r = "recenterIfNearEdge cap b"
  have stay: "levels cap side b = levels cap side b |` {t. in_window cap b t}"
    by (rule ext) (simp add: levels_def restrict_map_def)
  consider "?r = b" | i j where "i \<le> j" "live_slot cap b i" "live_slot cap b j"
    "?r = rebase cap (wrap64 (ref_tick b + ((int i + int j) div 2 - int (CENTER cap)))) b"
    using recenter_cases[OF book_ok_inv[OF assms]] by blast
  then have "levels cap side ?r = levels cap side b |` {t. in_window cap ?r t} \<and> tick_bound (ref_tick ?r) \<and>
    have_ref ?r = have_ref b"
  proof cases
    case 1
    then show ?thesis using stay assms by (simp add: book_ok_def)
  next
    case 2
    note r = recenter_ref[OF assms 2(1-3)]
    have "in_i64 ((int i + int j) div 2 - int (CENTER cap))" using r(3) by (auto simp: in_i64_def abs_le_iff)
    then show ?thesis
      unfolding 2(4) r(1) using r(2,3) book_ok_cap[OF assms] by (intro conjI levels_rebase) simp_all
  qed
  then show "levels cap side ?r = levels cap side b |` {t. in_window cap ?r t}" "tick_bound (ref_tick ?r)"
    "have_ref ?r = have_ref b" by simp_all
qed

section \<open>The operations on the map\<close>

lemma levels_empty:
  "levels cap side (new_book cap) = Map.empty" "levels cap side (clear cap b) = Map.empty"
  by (rule ext, cases side, auto simp: levels_def ladder_def new_book_def clear_def in_window_def nat_less_iff)+

lemma book_ok_new: "book_cap cap \<Longrightarrow> book_ok cap (new_book cap)"
  by (simp add: book_ok_def book_inv_new levels_empty) (simp add: new_book_def tick_bound_def)

lemma book_ok_clear: "book_ok cap b \<Longrightarrow> book_ok cap (clear cap b)"
  by (simp add: book_ok_def book_inv_clear levels_empty) (simp add: clear_def)

lemma levels_reanchor:
  assumes "book_ok cap b" "\<not> have_ref b"
  shows "levels cap side (b\<lparr>ref_tick := r, have_ref := True\<rparr>) = Map.empty"
proof -
  have "\<not> 0 < ladder side b ! i" if "i < cap" for i
    using levels_slot[OF book_ok_inv[OF assms(1)] that, of side] assms by (auto simp: book_ok_def split: if_splits)
  then have "\<not> 0 < ladder side (b\<lparr>ref_tick := r, have_ref := True\<rparr>) ! i" if "i < cap" for i
    using that by (cases side; fastforce simp: ladder_def)
  then show ?thesis by (intro ext) (simp add: levels_def in_window_def nat_less_iff)
qed

lemma book_ok_reanchor:
  assumes "book_ok cap b" "\<not> have_ref b" "tick_bound r"
  shows "book_ok cap (b\<lparr>ref_tick := r, have_ref := True\<rparr>)"
  using assms by (simp add: book_ok_def levels_reanchor)

lemma book_ok_seed: "book_ok cap b \<Longrightarrow> tick_bound (ticks p) \<Longrightarrow> book_ok cap (seedReference p b)"
  by (simp add: seedReference_def book_ok_reanchor)

lemma anchored_props:
  assumes "book_ok cap b" "tick_bound (ticks p)"
  shows "book_ok cap (anchored p b)" "levels cap side (anchored p b) = levels cap side b" "have_ref (anchored p b)"
  using assms book_ok_reanchor[OF assms(1) _ assms(2)] levels_reanchor[OF assms(1), of side]
  by (auto simp: anchored_def book_ok_def)

lemma book_ok_set_level:
  assumes "book_ok cap b" "have_ref b" "in_window cap b t" "tick_bound t"
  shows "book_ok cap (set_level cap sd (nat (tick_idx cap b t)) q b)"
proof -
  have i: "book_inv cap b" "nat (tick_idx cap b t) < cap" using assms by (auto simp: book_ok_def in_window_def nat_less_iff)
  show ?thesis
    using assms book_inv_set_level[OF i] by (auto simp: book_ok_def levels_set_level[OF i(1)] split: if_splits)
qed

lemma book_ok_recenter:
  assumes "book_ok cap b" shows "book_ok cap (recenterIfNearEdge cap b)"
  using assms levels_recenter[OF assms] book_inv_recenter[of cap b]
  by (auto simp: book_ok_def restrict_map_def split: if_splits)

text \<open>The abstract update of one level.\<close>

definition put_level :: "int \<Rightarrow> double \<Rightarrow> (int \<rightharpoonup> double) \<Rightarrow> (int \<rightharpoonup> double)" where
  "put_level t q m = m(t := if 0 < q then Some q else None)"

lemma update_outside:
  assumes "book_ok cap b" "tick_bound (ticks p)" "\<not> in_window cap (anchored p b) (ticks p)"
  shows "update cap side p qty b = anchored p b"
  using assms(3) by (simp add: update_eq[OF book_ok_inv[OF assms(1)]] Let_def in_window_def
    update_idx_eq[OF anchored_props(1)[OF assms(1,2)] assms(2)]) linarith

lemma update_inside:
  fixes side :: Side and qty :: Qty
  assumes "book_ok cap b" "tick_bound (ticks p)" "in_window cap (anchored p b) (ticks p)"
  defines "b1 \<equiv> set_level cap side (nat (tick_idx cap (anchored p b) (ticks p))) (qvalue qty) (anchored p b)"
  shows "update cap side p qty b = recenterIfNearEdge cap b1" "book_ok cap b1"
    "levels cap s b1 = (if s = side then put_level (ticks p) (qvalue qty) (levels cap s b) else levels cap s b)"
proof -
  note a = anchored_props[OF assms(1,2)]
  show "update cap side p qty b = recenterIfNearEdge cap b1"
    using assms(3) by (simp add: update_eq[OF book_ok_inv[OF assms(1)]] Let_def in_window_def
      update_idx_eq[OF a(1) assms(2)] b1_def)
  show "book_ok cap b1" unfolding b1_def using a assms(2,3) by (intro book_ok_set_level)
  show "levels cap s b1 = (if s = side then put_level (ticks p) (qvalue qty) (levels cap s b) else levels cap s b)"
    unfolding b1_def by (simp add: levels_set_level[OF book_ok_inv[OF a(1)] assms(3)] a(2) put_level_def)
qed

lemma book_ok_update:
  assumes "book_ok cap b" "tick_bound (ticks p)" shows "book_ok cap (update cap side p qty b)"
proof (cases "in_window cap (anchored p b) (ticks p)")
  case True
  then show ?thesis using update_inside(1,2)[OF assms True] book_ok_recenter by simp
next
  case False
  then show ?thesis using update_outside[OF assms False] anchored_props(1)[OF assms] by simp
qed

lemma levels_update:
  assumes "book_ok cap b" "tick_bound (ticks p)"
  shows "levels cap s (update cap side p qty b) =
    (if in_window cap (anchored p b) (ticks p)
     then (if s = side then put_level (ticks p) (qvalue qty) (levels cap s b) else levels cap s b)
          |` {t. in_window cap (update cap side p qty b) t}
     else levels cap s b)"
proof (cases "in_window cap (anchored p b) (ticks p)")
  case True
  note u = update_inside[OF assms True, where side = side and qty = qty]
  show ?thesis using True levels_recenter(1)[OF u(2), of s] u(3)[of s] unfolding u(1) by simp
next
  case False
  then show ?thesis using update_outside[OF assms False] anchored_props(2)[OF assms] by simp
qed

end
