(* ===== verification/Book_Views.thy ===== *)
theory Book_Views
  imports Bounded_Book
begin

text \<open>
  What a client reads from the order book. The live levels of a side, best price first, are the
  specification \<open>quotes\<close>; \<^verbatim>\<open>depth\<close> returns its prefixes and \<^verbatim>\<open>topOfBook\<close> its head. The contract that the
  strategy, the sizer and the execution engine use is the locale \<open>quote_source\<close>, interpreted on
  the book; the properties of the book follow.
\<close>

section \<open>The views of the book\<close>

text \<open>The specification: all live levels of a side, best price first.\<close>

definition quotes :: "nat \<Rightarrow> Side \<Rightarrow> book \<Rightarrow> PriceLevel list" where
  "quotes cap side b =
     map (\<lambda>t. \<lparr>pl_price = Price t, pl_qty = Qty (the (levels cap side b t))\<rparr>)
       ((if side = Bid then rev else id) (sorted_list_of_set (dom (levels cap side b))))"

lemma depth_down_eq: "depth_down k n lvl xs = take n (map lvl (rev (filter (\<lambda>i. 0 < xs ! i) [0..<k])))"
  by (induction k arbitrary: n) (auto simp: take_Cons')

lemma depth_up_eq: "depth_up cap i n lvl xs = take n (map lvl (filter (\<lambda>j. 0 < xs ! j) [i..<cap]))"
proof (induction cap i n lvl xs rule: depth_up.induct)
  case (1 cap i n lvl xs)
  show ?case
  proof (cases "i < cap \<and> 0 < n")
    case True
    then show ?thesis using 1 by (auto simp: depth_up.simps[of cap i] upt_conv_Cons take_Cons')
  next
    case False
    then show ?thesis by (auto simp: depth_up.simps[of cap i])
  qed
qed

lemma sorted_dom_levels:
  assumes "book_inv cap b"
  shows "sorted_list_of_set (dom (levels cap side b)) =
    map (\<lambda>i. ref_tick b + int i - int (CENTER cap)) (filter (\<lambda>i. 0 < ladder side b ! i) [0..<cap])"
    (is "_ = ?xs")
proof -
  have "set ?xs = dom (levels cap side b)"
  proof (intro equalityI subsetI)
    fix t assume "t \<in> dom (levels cap side b)"
    then have "in_window cap b t" "0 < ladder side b ! nat (tick_idx cap b t)" by (auto simp: dom_levels)
    then show "t \<in> set ?xs"
      by (auto simp: in_window_def nat_less_iff tick_idx_def intro!: image_eqI[of _ _ "nat (tick_idx cap b t)"])
  qed (auto simp: levels_slot[OF assms])
  moreover have "sorted ?xs" "distinct ?xs"
    by (auto simp: sorted_map distinct_map inj_on_def intro: sorted_wrt_filter sorted_wrt_mono_rel[OF _ sorted_upt])
  ultimately show ?thesis using sorted_list_of_set.idem_if_sorted_distinct[of ?xs] by simp
qed

definition level_at :: "nat \<Rightarrow> Side \<Rightarrow> book \<Rightarrow> nat \<Rightarrow> PriceLevel" where
  "level_at cap side b i = \<lparr>pl_price = slot_price cap b (int i), pl_qty = Qty (ladder side b ! i)\<rparr>"

lemma quotes_slots:
  assumes "book_ok cap b"
  shows "quotes cap side b = map (level_at cap side b)
    ((if side = Bid then rev else id) (filter (\<lambda>i. 0 < ladder side b ! i) [0..<cap]))"
proof -
  have "\<lparr>pl_price = Price (ref_tick b + int i - int (CENTER cap)),
      pl_qty = Qty (the (levels cap side b (ref_tick b + int i - int (CENTER cap))))\<rparr> = level_at cap side b i"
    if "i < cap" "0 < ladder side b ! i" for i
    using that slot_price_eq[OF assms, of "int i"]
    by (simp add: levels_slot[OF book_ok_inv[OF assms] that(1)] level_at_def algebra_simps)
  then show ?thesis
    by (auto simp: quotes_def sorted_dom_levels[OF book_ok_inv[OF assms]] rev_map)
qed

text \<open>No live level lies beyond the cached best slot, so the loops may start there.\<close>

lemma live_from_best:
  assumes "book_inv cap b"
  shows "filter (\<lambda>i. 0 < bids b ! i) [0..<nat (best_bid_idx b + 1)] = filter (\<lambda>i. 0 < bids b ! i) [0..<cap]"
    and "filter (\<lambda>i. 0 < asks b ! i) [nat (best_ask_idx b)..<cap] = filter (\<lambda>i. 0 < asks b ! i) [0..<cap]"
proof -
  have b: "index_inv cap (bid_bm b)" "slots_set (bid_bm b) = {i. i < cap \<and> 0 < bids b ! i}"
    "best_bid_idx b = highestSet (bid_bm b)" using assms(1) by (simp_all add: book_inv_def side_ok_def)
  have a: "index_inv cap (ask_bm b)" "slots_set (ask_bm b) = {i. i < cap \<and> 0 < asks b ! i}"
    "best_ask_idx b = lowestSet cap (ask_bm b)" using assms(1) by (simp_all add: book_inv_def side_ok_def)
  define k where "k = nat (best_bid_idx b + 1)"
  define l where "l = nat (best_ask_idx b)"
  have k: "k \<le> cap" "\<And>i. i < cap \<Longrightarrow> 0 < bids b ! i \<Longrightarrow> i < k"
    using bm.hi_lo_bounds(2)[OF b(1)] bm.hi_lo_range(1)[OF b(1)] unfolding b(2) k_def b(3) by force+
  have l: "l \<le> cap" "\<And>i. i < cap \<Longrightarrow> 0 < asks b ! i \<Longrightarrow> l \<le> i"
    using bm.hi_lo_bounds(1)[OF a(1)] bm.hi_lo_range(2)[OF a(1)] unfolding a(2) l_def a(3) by force+
  have "[0..<cap] = [0..<k] @ [k..<cap]" using k(1) upt_add_eq_append[of 0 k "cap - k"] by simp
  moreover have "\<not> 0 < bids b ! i" if "k \<le> i" "i < cap" for i using k(2) that by (meson leD)
  ultimately show "filter (\<lambda>i. 0 < bids b ! i) [0..<nat (best_bid_idx b + 1)] = filter (\<lambda>i. 0 < bids b ! i) [0..<cap]"
    unfolding k_def[symmetric] by simp
  have "[0..<cap] = [0..<l] @ [l..<cap]" using l(1) upt_add_eq_append[of 0 l "cap - l"] by simp
  moreover have "\<not> 0 < asks b ! i" if "i < l" for i using l that by (meson leD less_le_trans)
  ultimately show "filter (\<lambda>i. 0 < asks b ! i) [nat (best_ask_idx b)..<cap] = filter (\<lambda>i. 0 < asks b ! i) [0..<cap]"
    unfolding l_def[symmetric] by simp
qed

lemma depth_quotes:
  assumes "book_ok cap b" shows "depth cap side n b = take n (quotes cap side b)"
proof (cases side)
  case Bid
  then show ?thesis
    by (simp add: depth_def depth_down_eq live_from_best[OF book_ok_inv[OF assms]] quotes_slots[OF assms])
      (simp add: level_at_def[abs_def] ladder_def)
next
  case Ask
  then show ?thesis
    by (simp add: depth_def depth_up_eq live_from_best[OF book_ok_inv[OF assms]] quotes_slots[OF assms])
      (simp add: level_at_def[abs_def] ladder_def)
qed

lemma topOfBook_depth:
  assumes "book_inv cap b"
  shows "topOfBook cap side b = (case depth cap side 1 b of [] \<Rightarrow> None | l # _ \<Rightarrow> Some l)"
proof (cases side)
  case Bid
  show ?thesis
  proof (cases "best_bid_idx b < 0")
    case False
    then have "nat (best_bid_idx b + 1) = Suc (nat (best_bid_idx b))" by simp
    then show ?thesis using Bid False best_bid_live[OF assms] by (simp add: topOfBook_def depth_def)
  qed (simp add: Bid topOfBook_def depth_def)
next
  case Ask
  show ?thesis
  proof (cases "best_ask_idx b < int cap")
    case True
    then show ?thesis
      using Ask best_ask_live[OF assms True] by (simp add: topOfBook_def depth_def depth_up.simps[of cap])
  next
    case False
    then show ?thesis using Ask by (simp add: topOfBook_def depth_def depth_up.simps[of cap] nat_less_iff)
  qed
qed

text \<open>The order of a side: \<open>better side s t\<close> when a quote at \<open>s\<close> has priority over one at \<open>t\<close>.\<close>

definition better :: "Side \<Rightarrow> int \<Rightarrow> int \<Rightarrow> bool" where
  "better side s t \<longleftrightarrow> (if side = Bid then t < s else s < t)"

definition tick_of :: "PriceLevel \<Rightarrow> int" where
  "tick_of l = ticks (pl_price l)"

definition size_of :: "PriceLevel \<Rightarrow> double" where
  "size_of l = qvalue (pl_qty l)"

lemma finite_levels: "finite (dom (levels cap side b))"
proof (rule finite_subset)
  show "dom (levels cap side b) \<subseteq> {ref_tick b - int (CENTER cap)..ref_tick b + int cap}"
    by (auto simp: dom_levels in_window_def tick_idx_def)
qed simp

lemma quotes_levels:
  "l \<in> set (quotes cap side b) \<longleftrightarrow> levels cap side b (tick_of l) = Some (size_of l)"
proof -
  have "set (quotes cap side b) =
    (\<lambda>t. \<lparr>pl_price = Price t, pl_qty = Qty (the (levels cap side b t))\<rparr>) ` dom (levels cap side b)"
    using finite_levels[of cap side b] by (cases side) (simp_all add: quotes_def)
  then show ?thesis
    by (cases l; cases "pl_price l"; cases "pl_qty l") (auto simp: tick_of_def size_of_def image_iff domI)
qed

lemma quotes_sorted: "sorted_wrt (better side) (map tick_of (quotes cap side b))"
proof -
  let ?xs = "sorted_list_of_set (dom (levels cap side b))"
  have "sorted_wrt (<) ?xs" using finite_levels[of cap side b] by simp
  moreover have "map tick_of (quotes cap side b) = (if side = Bid then rev ?xs else ?xs)"
    by (simp add: quotes_def tick_of_def comp_def)
  ultimately show ?thesis by (cases side) (simp_all add: better_def[abs_def] sorted_wrt_rev)
qed

lemma topOfBook_quotes:
  assumes "book_ok cap b"
  shows "topOfBook cap side b = (case quotes cap side b of [] \<Rightarrow> None | l # _ \<Rightarrow> Some l)"
  using topOfBook_depth[OF book_ok_inv[OF assms], of side] depth_quotes[OF assms, of side 1]
  by (simp split: list.splits)

lemma topOfBook_iff:
  assumes "book_ok cap b"
  shows "topOfBook cap side b = Some l \<longleftrightarrow> levels cap side b (tick_of l) = Some (size_of l) \<and>
      (\<forall>t \<in> dom (levels cap side b). t = tick_of l \<or> better side (tick_of l) t)"
proof
  assume "topOfBook cap side b = Some l"
  then obtain ls where q: "quotes cap side b = l # ls"
    by (simp add: topOfBook_quotes[OF assms] split: list.splits)
  have "t = tick_of l \<or> better side (tick_of l) t" if mem: "t \<in> dom (levels cap side b)" for t
  proof -
    obtain q where "levels cap side b t = Some q" using mem by blast
    then have "\<lparr>pl_price = Price t, pl_qty = Qty q\<rparr> \<in> set (quotes cap side b)"
      by (simp add: quotes_levels tick_of_def size_of_def)
    then show ?thesis using quotes_sorted[of side cap b] unfolding q by (auto simp: tick_of_def)
  qed
  moreover have "levels cap side b (tick_of l) = Some (size_of l)"
    using quotes_levels[of l cap side b] unfolding q by simp
  ultimately show "levels cap side b (tick_of l) = Some (size_of l) \<and>
      (\<forall>t \<in> dom (levels cap side b). t = tick_of l \<or> better side (tick_of l) t)" by blast
next
  assume r: "levels cap side b (tick_of l) = Some (size_of l) \<and>
      (\<forall>t \<in> dom (levels cap side b). t = tick_of l \<or> better side (tick_of l) t)"
  then have l: "l \<in> set (quotes cap side b)" by (simp add: quotes_levels)
  then obtain m ms where q: "quotes cap side b = m # ms" by (cases "quotes cap side b") auto
  have "levels cap side b (tick_of m) = Some (size_of m)"
    using quotes_levels[of m cap side b] unfolding q by simp
  then have "tick_of m = tick_of l \<or> better side (tick_of l) (tick_of m)" using r by blast
  then have "l = m" using l quotes_sorted[of side cap b] unfolding q
    by (auto simp: better_def split: if_splits)
  then show "topOfBook cap side b = Some l" by (simp add: topOfBook_quotes[OF assms] q)
qed

lemma topOfBook_None:
  assumes "book_ok cap b"
  shows "topOfBook cap side b = None \<longleftrightarrow> levels cap side b = Map.empty"
proof -
  have "topOfBook cap side b = None \<longleftrightarrow> quotes cap side b = []"
    by (simp add: topOfBook_quotes[OF assms] split: list.splits)
  also have "\<dots> \<longleftrightarrow> dom (levels cap side b) = {}"
    using finite_levels[of cap side b] by (auto simp: quotes_def)
  finally show ?thesis by simp
qed

section \<open>The contract of the readers\<close>

locale quote_source =
  fixes top :: "Side \<Rightarrow> 'b \<Rightarrow> PriceLevel option"
    and walk :: "Side \<Rightarrow> nat \<Rightarrow> 'b \<Rightarrow> PriceLevel list"
    and ok :: "'b \<Rightarrow> bool"
  assumes walk_sorted: "ok b \<Longrightarrow> sorted_wrt (better s) (map tick_of (walk s n b))"
    and walk_pos: "ok b \<Longrightarrow> l \<in> set (walk s n b) \<Longrightarrow> 0 < size_of l"
    and walk_len: "length (walk s n b) \<le> n"
    and walk_prefix: "ok b \<Longrightarrow> m \<le> n \<Longrightarrow> walk s m b = take m (walk s n b)"
    and top_walk: "ok b \<Longrightarrow> top s b = (case walk s 1 b of [] \<Rightarrow> None | l # _ \<Rightarrow> Some l)"
begin

lemma top_hd: "ok b \<Longrightarrow> 0 < n \<Longrightarrow> top s b = (case walk s n b of [] \<Rightarrow> None | l # _ \<Rightarrow> Some l)"
  using walk_prefix[of b 1 n s] by (simp add: top_walk split: list.splits)

text \<open>Every level of a walk is at least as good as a later one, and the top is the best of all.\<close>

lemma walk_nth_better:
  assumes "ok b" "i < j" "j < length (walk s n b)"
  shows "better s (tick_of (walk s n b ! i)) (tick_of (walk s n b ! j))"
  using walk_sorted[OF assms(1), of s n] assms(2,3) by (simp add: sorted_wrt_iff_nth_less)

lemma top_best:
  assumes "ok b" "top s b = Some l" "m \<in> set (walk s n b)"
  shows "m = l \<or> better s (tick_of l) (tick_of m)"
proof -
  have "n \<noteq> 0" using assms(3) walk_len[of s n b] by (cases n) auto
  then have "\<exists>ms. walk s n b = l # ms" using top_hd[OF assms(1), of n s] assms(2) by (simp split: list.splits)
  then show ?thesis using walk_sorted[OF assms(1), of s n] assms(3) by auto
qed

end

interpretation bk: quote_source "topOfBook cap" "depth cap" "book_ok cap" for cap
proof
  fix b s n
  assume ok: "book_ok cap b"
  show "sorted_wrt (better s) (map tick_of (depth cap s n b))"
    using sorted_wrt_take[OF quotes_sorted[of s cap b], of n] by (simp add: depth_quotes[OF ok] take_map)
  show "0 < size_of l" if "l \<in> set (depth cap s n b)" for l
    using that quotes_levels[of l cap s b]
    by (auto simp: depth_quotes[OF ok] levels_def dest!: in_set_takeD split: if_splits)
  show "depth cap s m b = take m (depth cap s n b)" if "m \<le> n" for m
    using that by (simp add: depth_quotes[OF ok] min_def)
  show "topOfBook cap s b = (case depth cap s 1 b of [] \<Rightarrow> None | l # _ \<Rightarrow> Some l)"
    by (rule topOfBook_depth[OF book_ok_inv[OF ok]])
qed (auto simp: depth_def depth_down_eq depth_up_eq)

section \<open>Recentering keeps the touch\<close>

lemma topOfBook_slot:
  assumes "book_ok cap b" "topOfBook cap s b = Some l"
  defines "k \<equiv> (if s = Bid then best_bid_idx b else best_ask_idx b)"
  shows "0 \<le> k" "k < int cap" "tick_of l = ref_tick b + k - int (CENTER cap)"
    "s = Bid \<longrightarrow> 0 \<le> best_bid_idx b" "s \<noteq> Bid \<longrightarrow> best_ask_idx b < int cap"
proof -
  have k: "0 \<le> k \<and> k < int cap \<and> (s = Bid \<longrightarrow> 0 \<le> best_bid_idx b) \<and> (s \<noteq> Bid \<longrightarrow> best_ask_idx b < int cap)"
    using assms(2) best_bid_live(1)[OF book_ok_inv[OF assms(1)]] best_ask_live(1)[OF book_ok_inv[OF assms(1)]]
    by (auto simp: topOfBook_def k_def split: if_splits)
  then show "0 \<le> k" "k < int cap" "s = Bid \<longrightarrow> 0 \<le> best_bid_idx b" "s \<noteq> Bid \<longrightarrow> best_ask_idx b < int cap" by auto
  have "pl_price l = slot_price cap b k" using assms(2) by (auto simp: topOfBook_def k_def split: if_splits)
  then show "tick_of l = ref_tick b + k - int (CENTER cap)"
    using slot_price_eq[OF assms(1), of k] k by (simp add: tick_of_def)
qed

definition full_span :: "nat \<Rightarrow> book \<Rightarrow> bool" where
  "full_span cap b \<longleftrightarrow> 0 \<le> best_bid_idx b \<and> best_ask_idx b < int cap \<and> \<bar>best_ask_idx b - best_bid_idx b\<bar> = int cap - 1"

lemma recenter_top_in_window:
  assumes "book_ok cap b" "topOfBook cap s b = Some l" "\<not> full_span cap b"
  shows "in_window cap (recenterIfNearEdge cap b) (tick_of l)"
proof -
  note ts = topOfBook_slot[OF assms(1,2)]
  define k where "k = (if s = Bid then best_bid_idx b else best_ask_idx b)"
  note t = ts(1-3)[folded k_def]
  consider "recenterIfNearEdge cap b = b" | i j where "i \<le> j" "live_slot cap b i" "live_slot cap b j"
    "0 \<le> best_bid_idx b \<longrightarrow> best_bid_idx b \<in> {int i, int j}"
    "best_ask_idx b < int cap \<longrightarrow> best_ask_idx b \<in> {int i, int j}"
    "int j - int i = (if 0 \<le> best_bid_idx b \<and> best_ask_idx b < int cap
       then \<bar>best_ask_idx b - best_bid_idx b\<bar> else 0)"
    "recenterIfNearEdge cap b = rebase cap (wrap64 (ref_tick b + ((int i + int j) div 2 - int (CENTER cap)))) b"
    using recenter_cases[OF book_ok_inv[OF assms(1)]] by blast
  then show ?thesis
  proof cases
    case 1
    then show ?thesis using t by (simp add: in_window_def tick_idx_def)
  next
    case 2
    have k: "k \<in> {int i, int j}" using 2(4,5) ts(4,5) by (auto simp: k_def)
    have c: "int j < int cap" "2 * int (CENTER cap) = int cap" using 2(3) book_ok_cap[OF assms(1)] by (auto simp: live_slot_def)
    have "int j - int i \<noteq> int cap - 1"
      using assms(3) 2(6) book_ok_cap[OF assms(1)] by (auto simp: full_span_def)
    with c 2(1) have gap: "int j - int i \<le> 2 * int (CENTER cap) - 2" by linarith
    define m where "m = (int i + int j) div 2"
    have m: "2 * m \<le> int i + int j" "int i + int j \<le> 2 * m + 1" by (auto simp: m_def)
    have "0 \<le> k - (m - int (CENTER cap))" "k - (m - int (CENTER cap)) < int cap"
      using k gap c(2) m 2(1) by auto
    then show ?thesis unfolding 2(7) t(3)
      using recenter_ref(1)[OF assms(1) 2(1-3)] by (simp add: in_window_def tick_idx_def m_def)
  qed
qed

lemma recenter_top:
  assumes "book_ok cap b" "\<not> full_span cap b"
  shows "topOfBook cap s (recenterIfNearEdge cap b) = topOfBook cap s b"
proof (cases "topOfBook cap s b")
  case None
  then have "levels cap s b = Map.empty" by (simp add: topOfBook_None[OF assms(1)])
  then show ?thesis
    using None by (simp add: topOfBook_None[OF book_ok_recenter[OF assms(1)]] levels_recenter(1)[OF assms(1)])
next
  case (Some l)
  note w = recenter_top_in_window[OF assms(1) Some assms(2)]
  have "topOfBook cap s (recenterIfNearEdge cap b) = Some l"
    unfolding topOfBook_iff[OF book_ok_recenter[OF assms(1)]]
    using w Some[unfolded topOfBook_iff[OF assms(1)]]
    by (auto simp: levels_recenter(1)[OF assms(1)] restrict_map_def split: if_splits)
  with Some show ?thesis by simp
qed

text \<open>In the one remaining case the ladder is full from edge to edge, and the upper end falls off.\<close>

lemma recenter_full_span:
  assumes "book_ok cap b" "best_bid_idx b = 0" "best_ask_idx b = int cap - 1"
  shows "topOfBook cap Ask (recenterIfNearEdge cap b) = None"
proof -
  have c: "64 \<le> cap" "2 * CENTER cap = cap" using book_ok_cap[OF assms(1)] by auto
  have "RECENTER_MARGIN cap \<noteq> 0" using c by (simp add: RECENTER_MARGIN_def)
  moreover have "(int cap - 1) sdiv 2 = int (CENTER cap) - 1" using c by (subst sdiv_2_nonneg) auto
  ultimately have "recenterIfNearEdge cap b = (if wrap64 (ref_tick b - 1) \<noteq> ref_tick b
      then rebase cap (wrap64 (ref_tick b - 1)) b else b)"
    using assms(2,3) c by (simp add: recenterIfNearEdge_def Let_def RECENTER_MARGIN_def)
  moreover have "wrap64 (ref_tick b - 1) = ref_tick b - 1"
    using assms(1) tick_bound_i64[of "ref_tick b" "- 1"] by (simp add: book_ok_def)
  ultimately have r: "recenterIfNearEdge cap b = rebase cap (ref_tick b - 1) b" by simp
  have only: "t = ref_tick b + int cap - 1 - int (CENTER cap)" if "t \<in> dom (levels cap Ask b)" for t
  proof -
    define i where "i = nat (tick_idx cap b t)"
    have i: "i < cap" "0 < asks b ! i" "int i = tick_idx cap b t"
      using that by (auto simp: dom_levels in_window_def ladder_def i_def nat_less_iff)
    have "i \<in> slots_set (ask_bm b)" "index_inv cap (ask_bm b)" "best_ask_idx b = lowestSet cap (ask_bm b)"
      using i assms(1) by (auto simp: book_ok_def book_inv_def side_ok_def)
    then have "int cap - 1 \<le> int i" using bm.hi_lo_bounds(1)[of cap "ask_bm b" i] assms(3) by simp
    then show ?thesis using i by (simp add: tick_idx_def)
  qed
  have "levels cap Ask (recenterIfNearEdge cap b) t = None" for t
  proof (cases "levels cap Ask b t")
    case (Some q)
    then have "t = ref_tick b + int cap - 1 - int (CENTER cap)" using only by blast
    then have "\<not> in_window cap (recenterIfNearEdge cap b) t" by (simp add: r in_window_def tick_idx_def)
    then show ?thesis by (simp add: levels_recenter(1)[OF assms(1)])
  qed (simp add: levels_recenter(1)[OF assms(1)] restrict_map_def)
  then show ?thesis unfolding topOfBook_None[OF book_ok_recenter[OF assms(1)]] by blast
qed

section \<open>Sequences of updates\<close>

text \<open>
  The feed's own picture of a side, without a window: every update sets or removes its level. The
  book after the same updates shows a part of that picture.
\<close>

type_synonym level_update = "Side \<times> Price \<times> Qty"

definition apply_updates :: "nat \<Rightarrow> level_update list \<Rightarrow> book \<Rightarrow> book" where
  "apply_updates cap us b = fold (\<lambda>(side, p, q). update cap side p q) us b"

definition feed_levels :: "Side \<Rightarrow> level_update list \<Rightarrow> (int \<rightharpoonup> double) \<Rightarrow> (int \<rightharpoonup> double)" where
  "feed_levels s us m = fold (\<lambda>(side, p, q) m. if side = s then put_level (ticks p) (qvalue q) m else m) us m"

lemma update_sub_feed:
  assumes "book_ok cap b" "tick_bound (ticks p)" "levels cap s b \<subseteq>\<^sub>m m"
  shows "levels cap s (update cap side p qty b) \<subseteq>\<^sub>m (if side = s then put_level (ticks p) (qvalue qty) m else m)"
proof (cases "in_window cap (anchored p b) (ticks p)")
  case True
  then show ?thesis using assms(3)
    by (auto simp: levels_update[OF assms(1,2)] map_le_def restrict_map_def put_level_def split: if_splits)
next
  case False
  have "levels cap s b (ticks p) = None"
    using False by (simp add: anchored_props(2)[OF assms(1,2), of s, symmetric] levels_def)
  with assms(3) False show ?thesis
    by (auto simp: levels_update[OF assms(1,2)] map_le_def put_level_def split: if_splits)
qed

lemma apply_updates_ok:
  assumes "book_ok cap b" "\<forall>(side, p, q) \<in> set us. tick_bound (ticks p)"
  shows "book_ok cap (apply_updates cap us b)"
  using assms by (induction us arbitrary: b) (auto simp: apply_updates_def book_ok_update)

lemma apply_updates_feed:
  assumes "book_ok cap b" "\<forall>(side, p, q) \<in> set us. tick_bound (ticks p)" "levels cap s b \<subseteq>\<^sub>m m"
  shows "levels cap s (apply_updates cap us b) \<subseteq>\<^sub>m feed_levels s us m"
  using assms
proof (induction us arbitrary: b m)
  case (Cons u us)
  obtain side p q where u: "u = (side, p, q)" by (cases u)
  have p: "tick_bound (ticks p)" using Cons.prems(2) u by auto
  show ?case
    using Cons.IH[OF book_ok_update[OF Cons.prems(1) p] _ update_sub_feed[OF Cons.prems(1) p Cons.prems(3)]] Cons.prems(2)
    by (simp add: u apply_updates_def feed_levels_def)
qed (simp add: apply_updates_def feed_levels_def)

section \<open>Seeding the reference\<close>

lemma seed_levels: "book_ok cap b \<Longrightarrow> levels cap s (seedReference p b) = levels cap s b"
  by (auto simp: seedReference_def levels_reanchor book_ok_def)

lemma have_ref_seed: "have_ref (seedReference p b)"
  by (simp add: seedReference_def)

lemma seed_window:
  assumes "book_ok cap b"
  shows "{t. in_window cap (seedReference p b) t} =
    (if have_ref b then {t. in_window cap b t} else {ticks p - int (cap div 2) ..< ticks p + int (cap div 2)})"
  using book_ok_cap[OF assms]
  by (auto simp: seedReference_def in_window_def tick_idx_def CENTER_def)

lemma anchored_seed: "anchored p' (seedReference p b) = seedReference p b"
  by (simp add: anchored_def have_ref_seed)

section \<open>Properties of the book\<close>

text \<open>
  C1. The ladder implements a map from prices to quantities. An update of a price in the window
  writes exactly its level (a quantity that is not positive removes it) and keeps every other
  level of both sides, less the ones a recentering moves out of the window; an update of a price
  outside the window changes no level; clearing empties both sides and forgets the reference;
  seeding a reference changes no level of any book, leaves the window of a book that has a
  reference where it is, and otherwise centers the window on the seeded price, where the next
  update finds it; and the well-formedness of the book (index, cached best slots, bounds that
  exclude overflow) is kept by every operation.
\<close>

theorem book_refines_map:
  assumes "book_ok cap b" "tick_bound (ticks p)"
  shows "levels cap s (update cap side p qty b) =
      (if in_window cap (anchored p b) (ticks p)
       then (if s = side then put_level (ticks p) (qvalue qty) (levels cap s b) else levels cap s b)
            |` {t. in_window cap (update cap side p qty b) t}
       else levels cap s b)
    \<and> levels cap s (clear cap b) = Map.empty \<and> \<not> have_ref (clear cap b)
    \<and> levels cap s (seedReference p b) = levels cap s b \<and> have_ref (seedReference p b)
    \<and> {t. in_window cap (seedReference p b) t} =
        (if have_ref b then {t. in_window cap b t}
         else {ticks p - int (cap div 2) ..< ticks p + int (cap div 2)})
    \<and> anchored p' (seedReference p b) = seedReference p b
    \<and> book_ok cap (update cap side p qty b) \<and> book_ok cap (clear cap b) \<and> book_ok cap (seedReference p b)"
  using levels_update[OF assms] levels_empty(2) book_ok_update[OF assms] book_ok_clear[OF assms(1)]
    book_ok_seed[OF assms] seed_levels[OF assms(1)] seed_window[OF assms(1)] have_ref_seed anchored_seed
  by (simp add: clear_def)

theorem book_refines_map_witness:
  "levels 64 Ask (update 64 Ask (Price 5) (Qty (dbl 2)) (new_book 64)) 5 = Some (dbl 2)
   \<and> {t. in_window 64 (seedReference (Price 5) (new_book 64)) t} = {- 27 ..< 37}"
proof -
  have ok: "book_ok 64 (new_book 64)" "tick_bound (ticks (Price 5))"
    using book_ok_new[of 64] by (simp_all add: book_cap_64 tick_bound_def)
  have "in_window 64 (anchored (Price 5) (new_book 64)) 5"
    by (simp add: in_window_def tick_idx_def anchored_def new_book_def CENTER_def)
  moreover have "in_window 64 (update 64 Ask (Price 5) (Qty (dbl 2)) (new_book 64)) 5"
    by code_simp
  moreover have "\<not> have_ref (new_book 64)" by (simp add: new_book_def)
  ultimately show ?thesis
    using book_refines_map[OF ok, of Ask Ask "Qty (dbl 2)"] by (simp add: put_level_def dbl_eval)
qed

text \<open>
  The book never shows a stale or invented level: after any sequence of updates applied to an
  empty book, each level it holds is the last one the feed sent for that side and price.
\<close>

theorem book_never_stale:
  assumes "book_cap cap" "\<forall>(side, p, q) \<in> set us. tick_bound (ticks p)"
  shows "levels cap s (apply_updates cap us (new_book cap)) \<subseteq>\<^sub>m feed_levels s us Map.empty"
  using assms by (intro apply_updates_feed) (simp_all add: book_ok_new levels_empty)

theorem book_never_stale_witness:
  "levels 64 Bid (apply_updates 64 [(Bid, Price 7, Qty (dbl 3)), (Bid, Price 900, Qty 1), (Bid, Price 7, Qty 0)] (new_book 64))
   \<subseteq>\<^sub>m feed_levels Bid [(Bid, Price 7, Qty (dbl 3)), (Bid, Price 900, Qty 1), (Bid, Price 7, Qty 0)] Map.empty"
  by (rule book_never_stale) (simp_all add: book_cap_64 tick_bound_def)

text \<open>
  C16. What readers see. \<open>depth\<close> returns the first \<open>n\<close> live levels of the side in priority
  order, each with the quantity the book holds for it, and \<open>topOfBook\<close> is the live level with
  the best price; it is empty exactly when the side has no live level.
\<close>

theorem book_views:
  assumes "book_ok cap b"
  shows "depth cap s n b = take n (quotes cap s b)
    \<and> sorted_wrt (better s) (map tick_of (quotes cap s b))
    \<and> set (quotes cap s b) = {l. levels cap s b (tick_of l) = Some (size_of l)}
    \<and> topOfBook cap s b = (case quotes cap s b of [] \<Rightarrow> None | l # _ \<Rightarrow> Some l)
    \<and> (topOfBook cap s b = None \<longleftrightarrow> levels cap s b = Map.empty)"
  using depth_quotes[OF assms] quotes_sorted[of s cap b] quotes_levels[of _ cap s b] topOfBook_quotes[OF assms]
    topOfBook_None[OF assms] by auto

text \<open>
  C28. Recentering never loses the touch as long as the best bid and the best ask are not at the
  two opposite ends of the ladder: both tops of book are the same before and after.
\<close>

theorem recenter_keeps_touch:
  assumes "book_ok cap b" "\<not> full_span cap b"
  shows "topOfBook cap s (recenterIfNearEdge cap b) = topOfBook cap s b \<and> book_ok cap (recenterIfNearEdge cap b)"
  using recenter_top[OF assms] book_ok_recenter[OF assms(1)] by simp

definition two_level_book :: "nat \<Rightarrow> nat \<Rightarrow> book" where
  "two_level_book i j = set_level 64 Ask j (dbl 2) (set_level 64 Bid i 1 (anchored (Price 1000) (new_book 64)))"

lemma two_level_book_ok: assumes "i < 64" "j < 64" shows "book_ok 64 (two_level_book i j)"
proof -
  define b0 where "b0 = anchored (Price 1000) (new_book 64)"
  have r: "ref_tick b0 = 1000" "have_ref b0" by (simp_all add: b0_def anchored_def new_book_def)
  have 0: "book_ok 64 b0"
    unfolding b0_def by (rule anchored_props(1)) (simp_all add: book_ok_new book_cap_64 tick_bound_def)
  have t: "tick_idx 64 b0 (968 + int i) = int i" "tick_idx 64 (set_level 64 Bid i 1 b0) (968 + int j) = int j"
    by (simp_all add: tick_idx_def CENTER_def r)
  have 1: "book_ok 64 (set_level 64 Bid i 1 b0)"
    using book_ok_set_level[OF 0 r(2), of "968 + int i" Bid 1] assms by (simp add: t in_window_def tick_bound_def)
  show ?thesis unfolding two_level_book_def b0_def[symmetric]
    using book_ok_set_level[OF 1, of "968 + int j" Ask "dbl 2"] assms by (simp add: t in_window_def tick_bound_def r)
qed

theorem book_views_witness:
  "topOfBook 64 Bid (two_level_book 3 41) = Some \<lparr>pl_price = Price 971, pl_qty = Qty 1\<rparr> \<and> levels 64 Bid (two_level_book 3 41) 971 = Some 1 \<and>
   depth 64 Bid 3 (two_level_book 3 41) = take 3 (quotes 64 Bid (two_level_book 3 41))"
proof -
  have t: "topOfBook 64 Bid (two_level_book 3 41) = Some \<lparr>pl_price = Price 971, pl_qty = Qty 1\<rparr>" by code_simp
  note v = book_views[OF two_level_book_ok[of 3 41], of Bid 3]
  then have "\<lparr>pl_price = Price 971, pl_qty = Qty 1\<rparr> \<in> set (quotes 64 Bid (two_level_book 3 41))"
    using t by (auto split: list.splits)
  then show ?thesis using t v by (auto simp: tick_of_def size_of_def)
qed

theorem recenter_keeps_touch_witness:
  "topOfBook 64 Ask (recenterIfNearEdge 64 (two_level_book 3 60)) = topOfBook 64 Ask (two_level_book 3 60) \<and> \<not> full_span 64 (two_level_book 3 60)"
proof -
  have "\<not> full_span 64 (two_level_book 3 60)" by code_simp
  then show ?thesis using recenter_keeps_touch[OF two_level_book_ok[of 3 60]] by simp
qed

text \<open>
  The exception: with the best bid in the lowest slot and the best ask in the highest, the
  midpoint rounds down, the window moves by one tick and the best ask falls out of it. The side is
  then empty in the book although the feed still has the level.
\<close>

theorem recenter_drops_wide_ask:
  assumes "book_ok cap b" "best_bid_idx b = 0" "best_ask_idx b = int cap - 1"
  shows "topOfBook cap Ask b \<noteq> None \<and> topOfBook cap Ask (recenterIfNearEdge cap b) = None"
  using recenter_full_span[OF assms] assms(3) by (simp add: topOfBook_def)

theorem recenter_drops_wide_ask_witness:
  "topOfBook 64 Ask (recenterIfNearEdge 64 (two_level_book 0 63)) = None"
proof -
  have "best_bid_idx (two_level_book 0 63) = 0" "best_ask_idx (two_level_book 0 63) = int 64 - 1" by code_simp+
  then show ?thesis using recenter_drops_wide_ask[OF two_level_book_ok[of 0 63]] by simp
qed

end
