(* ===== verification/Spsc_Queue.thy ===== *)
theory Spsc_Queue
  imports Prelude
begin

text \<open>
  The single-producer single-consumer ring of \<^verbatim>\<open>include/trading/util/spsc_queue.hpp\<close>. First
  the operations as functions on the queue's state, which implement a bounded first-in
  first-out list (locale \<open>bounded_fifo\<close>); then the same operations as a step relation in which
  the two threads interleave between every load and store, and a load of the other thread's
  counter may return an older value. The counters are 64-bit words and wrap around.
\<close>

section \<open>The operations\<close>

record 'a spsc =
  head :: u64
  tail :: u64
  slots :: "'a list"

text \<open>What the two static assertions on the template parameter say, for a 64-bit \<^verbatim>\<open>size_t\<close>.\<close>

definition queue_cap :: "nat \<Rightarrow> bool" where
  "queue_cap cap \<longleftrightarrow> (\<exists>k. cap = 2 ^ k \<and> 1 \<le> k \<and> k \<le> 63)"

definition slot_of :: "nat \<Rightarrow> u64 \<Rightarrow> nat" where
  "slot_of cap w = unat (and w (of_nat (cap - 1)))"

definition spsc_new :: "nat \<Rightarrow> 'a \<Rightarrow> 'a spsc" where
  "spsc_new cap d = \<lparr>head = 0, tail = 0, slots = replicate cap d\<rparr>"

definition try_push :: "nat \<Rightarrow> 'a \<Rightarrow> 'a spsc \<Rightarrow> bool \<times> 'a spsc" where
  "try_push cap value q =
     (if of_nat cap \<le> head q - tail q then (False, q)
      else (True, q\<lparr>slots := (slots q)[slot_of cap (head q) := value], head := head q + 1\<rparr>))"

definition try_pop :: "nat \<Rightarrow> 'a spsc \<Rightarrow> 'a option \<times> 'a spsc" where
  "try_pop cap q =
     (if tail q = head q then (None, q)
      else (Some (slots q ! slot_of cap (tail q)), q\<lparr>tail := tail q + 1\<rparr>))"

definition spsc_size :: "'a spsc \<Rightarrow> nat" where
  "spsc_size q = unat (head q - tail q)"

section \<open>The interface: a bounded first-in first-out list\<close>

locale bounded_fifo =
  fixes push :: "'a \<Rightarrow> 'q \<Rightarrow> bool \<times> 'q"
    and pop :: "'q \<Rightarrow> 'a option \<times> 'q"
    and contents :: "'q \<Rightarrow> 'a list"
    and inv :: "'q \<Rightarrow> bool"
    and capacity :: nat
  assumes inv_push: "inv q \<Longrightarrow> inv (snd (push v q))"
    and inv_pop: "inv q \<Longrightarrow> inv (snd (pop q))"
    and push_ok: "inv q \<Longrightarrow> length (contents q) < capacity \<Longrightarrow>
      fst (push v q) \<and> contents (snd (push v q)) = contents q @ [v]"
    and push_full: "inv q \<Longrightarrow> length (contents q) = capacity \<Longrightarrow> push v q = (False, q)"
    and bounded: "inv q \<Longrightarrow> length (contents q) \<le> capacity"
    and pop_some: "inv q \<Longrightarrow> contents q = v # vs \<Longrightarrow> fst (pop q) = Some v \<and> contents (snd (pop q)) = vs"
    and pop_none: "inv q \<Longrightarrow> contents q = [] \<Longrightarrow> pop q = (None, q)"
begin

text \<open>Pushing a list while there is room, and draining.\<close>

fun push_all :: "'a list \<Rightarrow> 'q \<Rightarrow> 'q" where
  "push_all [] q = q"
| "push_all (v # vs) q = push_all vs (snd (push v q))"

fun pop_n :: "nat \<Rightarrow> 'q \<Rightarrow> 'a list \<times> 'q" where
  "pop_n 0 q = ([], q)"
| "pop_n (Suc n) q = (case pop q of (None, q') \<Rightarrow> ([], q')
     | (Some v, q') \<Rightarrow> (case pop_n n q' of (vs, q'') \<Rightarrow> (v # vs, q'')))"

lemma push_all_contents:
  "inv q \<Longrightarrow> length (contents q) + length vs \<le> capacity \<Longrightarrow>
   inv (push_all vs q) \<and> contents (push_all vs q) = contents q @ vs"
proof (induction vs arbitrary: q)
  case (Cons v vs)
  then have "fst (push v q) \<and> contents (snd (push v q)) = contents q @ [v]" by (intro push_ok) auto
  with Cons show ?case using inv_push by simp
qed simp

lemma pop_n_contents:
  "inv q \<Longrightarrow> n = length (contents q) \<Longrightarrow> fst (pop_n n q) = contents q"
proof (induction n arbitrary: q)
  case (Suc n)
  then obtain v vs where c: "contents q = v # vs" by (cases "contents q") auto
  obtain w q' where p: "pop q = (w, q')" by fastforce
  with pop_some[OF Suc.prems(1) c] inv_pop[OF Suc.prems(1)] have "w = Some v" "contents q' = vs" "inv q'" by auto
  with Suc c p show ?case by (simp split: prod.splits) (metis fst_conv)
qed simp

end

section \<open>The ring implements it\<close>

lemma slot_of_mod: assumes "queue_cap cap" shows "slot_of cap w = unat w mod cap"
proof -
  obtain k where k: "cap = 2 ^ k" using assms by (auto simp: queue_cap_def)
  have m: "of_nat (2 ^ k - 1) = (mask k :: u64)" by (simp add: mask_eq_decr_exp of_nat_diff)
  have "unat (take_bit k w) = unat w mod 2 ^ k" by (simp only: unsigned_take_bit_eq take_bit_eq_mod[of k "unat w"])
  then show ?thesis unfolding slot_of_def k m by (simp only: take_bit_eq_mask)
qed

lemma slot_of_of_nat: assumes "queue_cap cap" shows "slot_of cap (of_nat n) = n mod cap"
proof -
  obtain k where k: "cap = 2 ^ k" "k \<le> 63" using assms by (auto simp: queue_cap_def)
  then have "cap dvd 2 ^ 64" using le_imp_power_dvd[of k 64 "2 :: nat"] by simp
  then show ?thesis by (simp add: slot_of_mod[OF assms] unat_of_nat mod_mod_cancel)
qed

lemma queue_cap_bounds: "queue_cap cap \<Longrightarrow> 2 \<le> cap \<and> cap \<le> 2 ^ 63"
proof -
  assume "queue_cap cap"
  then obtain k where k: "cap = 2 ^ k" "1 \<le> k" "k \<le> 63" by (auto simp: queue_cap_def)
  have "(2::nat) ^ 1 \<le> 2 ^ k" "(2::nat) ^ k \<le> 2 ^ 63" by (rule power_increasing; use k in simp)+
  with k show ?thesis by simp
qed

definition spsc_inv :: "nat \<Rightarrow> 'a spsc \<Rightarrow> bool" where
  "spsc_inv cap q \<longleftrightarrow> queue_cap cap \<and> length (slots q) = cap \<and> spsc_size q \<le> cap"

definition spsc_contents :: "nat \<Rightarrow> 'a spsc \<Rightarrow> 'a list" where
  "spsc_contents cap q = map (\<lambda>i. slots q ! slot_of cap (tail q + of_nat i)) [0..<spsc_size q]"

lemma slot_of_plus: "queue_cap cap \<Longrightarrow> slot_of cap (w + of_nat i) = (unat w + i) mod cap"
  using slot_of_of_nat[of cap "unat w + i"] by simp

lemma mod_ring_neq: assumes "i < n" "n < i + c" shows "(a + i) mod c \<noteq> (a + n) mod (c :: nat)"
proof
  assume "(a + i) mod c = (a + n) mod c"
  then have "c dvd n - i" using assms(1) by (metis add_diff_cancel_left mod_eq_dvd_iff_nat nat_add_left_cancel_le order.strict_implies_order)
  then show False using assms by (auto dest: dvd_imp_le)
qed

lemma spsc_contents_simps [simp]: "length (spsc_contents cap q) = spsc_size q"
  by (simp add: spsc_contents_def)

lemma spsc_empty_iff: "spsc_contents cap q = [] \<longleftrightarrow> tail q = head q"
  by (auto simp: spsc_contents_def spsc_size_def unat_eq_0)

lemma spsc_contents_nth:
  "queue_cap cap \<Longrightarrow> i < spsc_size q \<Longrightarrow> spsc_contents cap q ! i = slots q ! ((unat (tail q) + i) mod cap)"
  by (simp add: spsc_contents_def slot_of_plus)

lemma full_iff: "queue_cap cap \<Longrightarrow> of_nat cap \<le> head q - tail q \<longleftrightarrow> cap \<le> spsc_size q"
  using queue_cap_bounds[of cap] by (simp add: word_le_nat_alt spsc_size_def unat_u64_of_nat)

lemma head_slot:
  assumes "queue_cap cap" shows "slot_of cap (head q) = (unat (tail q) + spsc_size q) mod cap"
proof -
  have "head q = tail q + of_nat (spsc_size q)" by (simp add: spsc_size_def)
  then show ?thesis using slot_of_plus[OF assms] by metis
qed

lemma try_push_refines:
  assumes "spsc_inv cap q" "spsc_size q < cap"
  shows "fst (try_push cap v q)" "spsc_inv cap (snd (try_push cap v q))"
    "spsc_contents cap (snd (try_push cap v q)) = spsc_contents cap q @ [v]"
proof -
  have c: "queue_cap cap" "length (slots q) = cap" "cap \<le> 2 ^ 63" "0 < cap"
    using assms(1) queue_cap_bounds[of cap] by (auto simp: spsc_inv_def)
  let ?q = "q\<lparr>slots := (slots q)[slot_of cap (head q) := v], head := head q + 1\<rparr>"
  have p: "try_push cap v q = (True, ?q)" using assms(2) by (simp add: try_push_def full_iff[OF c(1)])
  have "head q + 1 - tail q = of_nat (spsc_size q + 1)" by (simp add: spsc_size_def)
  then have sz: "spsc_size ?q = spsc_size q + 1"
    using assms(2) c(3) by (simp add: spsc_size_def unat_u64_of_nat del: of_nat_Suc of_nat_add)
  show "fst (try_push cap v q)" "spsc_inv cap (snd (try_push cap v q))"
    using c assms(2) sz by (simp_all add: p spsc_inv_def)
  have "spsc_contents cap ?q = spsc_contents cap q @ [v]"
  proof (rule nth_equalityI)
    fix i assume "i < length (spsc_contents cap ?q)"
    then have i: "i < spsc_size q + 1" by (simp add: sz)
    have slot: "slot_of cap (head q) = (unat (tail q) + spsc_size q) mod cap" by (rule head_slot[OF c(1)])
    show "spsc_contents cap ?q ! i = (spsc_contents cap q @ [v]) ! i"
    proof (cases "i < spsc_size q")
      case True
      then have "(unat (tail q) + i) mod cap \<noteq> slot_of cap (head q)"
        unfolding slot using assms(2) by (intro mod_ring_neq) auto
      with True i sz show ?thesis by (simp add: spsc_contents_nth[OF c(1)] nth_append)
    next
      case False
      with i have "i = spsc_size q" by simp
      with sz c show ?thesis by (simp add: spsc_contents_nth[OF c(1)] nth_append slot)
    qed
  qed (simp add: sz)
  then show "spsc_contents cap (snd (try_push cap v q)) = spsc_contents cap q @ [v]" by (simp add: p)
qed

lemma try_pop_refines:
  assumes "spsc_inv cap q" "spsc_contents cap q = v # vs"
  shows "fst (try_pop cap q) = Some v" "spsc_inv cap (snd (try_pop cap q))"
    "spsc_contents cap (snd (try_pop cap q)) = vs"
proof -
  have c: "queue_cap cap" "length (slots q) = cap" "cap \<le> 2 ^ 63" "0 < cap"
    using assms(1) queue_cap_bounds[of cap] by (auto simp: spsc_inv_def)
  have n: "0 < spsc_size q" using arg_cong[OF assms(2), of length] by simp
  then have ne: "tail q \<noteq> head q" by (auto simp: spsc_size_def)
  let ?q = "q\<lparr>tail := tail q + 1\<rparr>"
  have "head q - (tail q + 1) = of_nat (spsc_size q) - 1" by (simp add: spsc_size_def)
  also have "\<dots> = of_nat (spsc_size q - 1)" using n by (simp add: of_nat_diff)
  finally have d: "head q - (tail q + 1) = of_nat (spsc_size q - 1)" .
  have "spsc_size q \<le> 2 ^ 63" using assms(1) c(3) by (auto simp: spsc_inv_def)
  then have "spsc_size q - 1 < 2 ^ 64" by simp
  then have sz: "spsc_size ?q = spsc_size q - 1" using d unat_u64_of_nat by (simp add: spsc_size_def[of ?q])
  have t: "unat (tail q) + Suc i = unat (tail q) + 1 + i" for i by simp
  have slot: "slot_of cap (tail q + 1 + of_nat i) = (unat (tail q) + Suc i) mod cap" for i
    using slot_of_of_nat[OF c(1), of "unat (tail q) + 1 + i"] by (simp add: algebra_simps)
  have "spsc_contents cap ?q = tl (spsc_contents cap q)"
    by (rule nth_equalityI)
      (auto simp: sz nth_tl spsc_contents_nth[OF c(1)] spsc_contents_def[of _ ?q] slot)
  then show "fst (try_pop cap q) = Some v" "spsc_inv cap (snd (try_pop cap q))"
    "spsc_contents cap (snd (try_pop cap q)) = vs"
    using assms ne sz spsc_contents_nth[OF c(1) n]
    by (auto simp: try_pop_def spsc_inv_def slot_of_mod)
qed

interpretation spsc: bounded_fifo "try_push cap" "try_pop cap" "spsc_contents cap" "spsc_inv cap" cap
  for cap
proof unfold_locales
  fix q :: "'a spsc" and v :: 'a
  assume i: "spsc_inv cap q"
  show "spsc_inv cap (snd (try_push cap v q))"
    using i try_push_refines(2)[OF i] by (cases "spsc_size q < cap") (auto simp: try_push_def spsc_inv_def full_iff)
  show "spsc_inv cap (snd (try_pop cap q))"
    using i try_pop_refines(2)[OF i] spsc_empty_iff[of cap q] by (cases "spsc_contents cap q") (auto simp: try_pop_def)
  show "length (spsc_contents cap q) = cap \<Longrightarrow> try_push cap v q = (False, q)"
    using i by (simp add: try_push_def spsc_inv_def full_iff)
  show "length (spsc_contents cap q) \<le> cap" using i by (simp add: spsc_inv_def)
  show "spsc_contents cap q = [] \<Longrightarrow> try_pop cap q = (None, q)"
    using spsc_empty_iff[of cap q] by (simp add: try_pop_def)
qed (use try_push_refines try_pop_refines in auto)

lemma spsc_new_inv: "queue_cap cap \<Longrightarrow> spsc_inv cap (spsc_new cap d) \<and> spsc_contents cap (spsc_new cap d) = []"
  by (simp add: spsc_inv_def spsc_new_def spsc_size_def spsc_contents_def)

section \<open>The two threads\<close>

text \<open>
  Each access to a shared variable is one step. A thread reads its own counter exactly; a load
  of the other thread's counter returns some value that counter has held since this thread's
  previous load of it (\<open>p_seen\<close>, \<open>c_seen\<close>), so a release store that has not become
  visible yet is covered. The slot itself is read and written directly: the acquire load that
  precedes the access orders it after the release store that published the slot. The fields
  \<open>pushed\<close> and \<open>popped\<close> are ghost state: the values whose push or pop has completed.
\<close>

datatype 'a producer = PIdle | PHead 'a u64 | PTail 'a u64 u64 | PWritten 'a u64

datatype 'a consumer = CIdle | CTail u64 | CHead u64 u64 | CRead u64 'a

record 'a spsc_threads =
  sh_head :: u64
  sh_tail :: u64
  sh_slots :: "'a list"
  prod :: "'a producer"
  cons :: "'a consumer"
  p_seen :: nat
  c_seen :: nat
  pushed :: "'a list"
  popped :: "'a list"

definition spsc_start :: "nat \<Rightarrow> 'a \<Rightarrow> 'a spsc_threads" where
  "spsc_start cap d = \<lparr>sh_head = 0, sh_tail = 0, sh_slots = replicate cap d, prod = PIdle, cons = CIdle,
     p_seen = 0, c_seen = 0, pushed = [], popped = []\<rparr>"

inductive spsc_step :: "nat \<Rightarrow> 'a spsc_threads \<Rightarrow> 'a spsc_threads \<Rightarrow> bool" for cap where
  push_load_head: "prod s = PIdle \<Longrightarrow> spsc_step cap s (s\<lparr>prod := PHead v (sh_head s)\<rparr>)"
| push_load_tail: "prod s = PHead v h \<Longrightarrow> p_seen s \<le> k \<Longrightarrow> k \<le> length (popped s) \<Longrightarrow>
    spsc_step cap s (s\<lparr>prod := PTail v h (of_nat k), p_seen := k\<rparr>)"
| push_full: "prod s = PTail v h t \<Longrightarrow> of_nat cap \<le> h - t \<Longrightarrow> spsc_step cap s (s\<lparr>prod := PIdle\<rparr>)"
| push_write: "prod s = PTail v h t \<Longrightarrow> \<not> of_nat cap \<le> h - t \<Longrightarrow>
    spsc_step cap s (s\<lparr>sh_slots := (sh_slots s)[slot_of cap h := v], prod := PWritten v h\<rparr>)"
| push_store_head: "prod s = PWritten v h \<Longrightarrow>
    spsc_step cap s (s\<lparr>sh_head := h + 1, prod := PIdle, pushed := pushed s @ [v]\<rparr>)"
| pop_load_tail: "cons s = CIdle \<Longrightarrow> spsc_step cap s (s\<lparr>cons := CTail (sh_tail s)\<rparr>)"
| pop_load_head: "cons s = CTail t \<Longrightarrow> c_seen s \<le> k \<Longrightarrow> k \<le> length (pushed s) \<Longrightarrow>
    spsc_step cap s (s\<lparr>cons := CHead t (of_nat k), c_seen := k\<rparr>)"
| pop_empty: "cons s = CHead t h \<Longrightarrow> t = h \<Longrightarrow> spsc_step cap s (s\<lparr>cons := CIdle\<rparr>)"
| pop_read: "cons s = CHead t h \<Longrightarrow> t \<noteq> h \<Longrightarrow>
    spsc_step cap s (s\<lparr>cons := CRead t (sh_slots s ! slot_of cap t)\<rparr>)"
| pop_store_tail: "cons s = CRead t v \<Longrightarrow>
    spsc_step cap s (s\<lparr>sh_tail := t + 1, cons := CIdle, popped := popped s @ [v]\<rparr>)"

inductive spsc_reachable :: "nat \<Rightarrow> 'a \<Rightarrow> 'a spsc_threads \<Rightarrow> bool" for cap d where
  start: "spsc_reachable cap d (spsc_start cap d)"
| step: "spsc_reachable cap d s \<Longrightarrow> spsc_step cap s t \<Longrightarrow> spsc_reachable cap d t"

text \<open>What each thread knows at each of its points.\<close>

fun prod_inv :: "nat \<Rightarrow> 'a spsc_threads \<Rightarrow> 'a producer \<Rightarrow> bool" where
  "prod_inv cap s PIdle = True"
| "prod_inv cap s (PHead v h) = (h = sh_head s)"
| "prod_inv cap s (PTail v h t) = (h = sh_head s \<and> t = of_nat (p_seen s))"
| "prod_inv cap s (PWritten v h) =
     (h = sh_head s \<and> length (pushed s) < p_seen s + cap \<and> sh_slots s ! (length (pushed s) mod cap) = v)"

fun cons_inv :: "'a spsc_threads \<Rightarrow> 'a consumer \<Rightarrow> bool" where
  "cons_inv s CIdle = True"
| "cons_inv s (CTail t) = (t = sh_tail s)"
| "cons_inv s (CHead t h) = (t = sh_tail s \<and> h = of_nat (c_seen s))"
| "cons_inv s (CRead t v) = (t = sh_tail s \<and> length (popped s) < c_seen s \<and> v = pushed s ! length (popped s))"

definition ring_inv :: "nat \<Rightarrow> 'a spsc_threads \<Rightarrow> bool" where
  "ring_inv cap s \<longleftrightarrow>
     length (sh_slots s) = cap \<and>
     sh_head s = of_nat (length (pushed s)) \<and> sh_tail s = of_nat (length (popped s)) \<and>
     p_seen s \<le> length (popped s) \<and> length (pushed s) \<le> p_seen s + cap \<and>
     length (popped s) \<le> c_seen s \<and> c_seen s \<le> length (pushed s) \<and>
     take (length (popped s)) (pushed s) = popped s \<and>
     (\<forall>i. length (popped s) \<le> i \<and> i < length (pushed s) \<longrightarrow> sh_slots s ! (i mod cap) = pushed s ! i)"

definition threads_inv :: "nat \<Rightarrow> 'a spsc_threads \<Rightarrow> bool" where
  "threads_inv cap s \<longleftrightarrow> ring_inv cap s \<and> prod_inv cap s (prod s) \<and> cons_inv s (cons s)"

lemma threads_inv_start: "threads_inv cap (spsc_start cap d)"
  by (simp add: threads_inv_def ring_inv_def spsc_start_def)

lemma ring_inv_frame [simp]:
  "ring_inv cap (s\<lparr>prod := x\<rparr>) = ring_inv cap s" "ring_inv cap (s\<lparr>cons := y\<rparr>) = ring_inv cap s"
  by (simp_all add: ring_inv_def)

lemma prod_inv_frame [simp]:
  "prod_inv cap (s\<lparr>prod := x\<rparr>) p = prod_inv cap s p" "prod_inv cap (s\<lparr>cons := y\<rparr>) p = prod_inv cap s p"
  "prod_inv cap (s\<lparr>c_seen := k\<rparr>) p = prod_inv cap s p" "prod_inv cap (s\<lparr>sh_tail := w\<rparr>) p = prod_inv cap s p"
  "prod_inv cap (s\<lparr>popped := vs\<rparr>) p = prod_inv cap s p"
  by (cases p; simp)+

lemma cons_inv_frame [simp]:
  "cons_inv (s\<lparr>prod := x\<rparr>) c = cons_inv s c" "cons_inv (s\<lparr>cons := y\<rparr>) c = cons_inv s c"
  "cons_inv (s\<lparr>p_seen := k\<rparr>) c = cons_inv s c" "cons_inv (s\<lparr>sh_head := w\<rparr>) c = cons_inv s c"
  "cons_inv (s\<lparr>sh_slots := xs\<rparr>) c = cons_inv s c"
  by (cases c; simp)+

lemma cons_inv_push:
  "c_seen s \<le> length (pushed s) \<Longrightarrow> cons_inv s c \<Longrightarrow> cons_inv (s\<lparr>pushed := pushed s @ [v]\<rparr>) c"
  by (cases c) (auto simp: nth_append)

lemma room_iff:
  assumes "queue_cap cap" "m \<le> n" "n \<le> m + cap"
  shows "of_nat cap \<le> (of_nat n :: u64) - of_nat m \<longleftrightarrow> n = m + cap"
proof -
  have c: "cap < 2 ^ 64" using queue_cap_bounds[OF assms(1)] by simp
  have "n - m \<le> cap" using assms by simp
  then have "unat (of_nat (n - m) :: u64) = n - m" using c by (intro unat_u64_of_nat) linarith
  moreover have "(of_nat n :: u64) - of_nat m = of_nat (n - m)" using assms(2) by (simp add: of_nat_diff)
  ultimately have "of_nat cap \<le> (of_nat n :: u64) - of_nat m \<longleftrightarrow> cap \<le> n - m"
    by (simp only: word_le_nat_alt unat_u64_of_nat[OF c])
  then show ?thesis using assms(2,3) by auto
qed

text \<open>The slot the producer writes holds no value that is still to be read.\<close>

lemma write_keeps_unread:
  assumes "ring_inv cap s" "length (pushed s) < p_seen s + cap" "length (popped s) \<le> i" "i < length (pushed s)"
  shows "length (pushed s) mod cap \<noteq> i mod cap"
  using assms mod_ring_neq[of i "length (pushed s)" cap 0] by (auto simp: ring_inv_def)

lemma producer_has_room:
  assumes "queue_cap cap" "threads_inv cap s" "prod s = PTail v h t" "\<not> of_nat cap \<le> h - t"
  shows "length (pushed s) < p_seen s + cap" "h = of_nat (length (pushed s))"
  using assms room_iff[OF assms(1), of "p_seen s" "length (pushed s)"]
  by (auto simp: threads_inv_def ring_inv_def)

lemma consumer_has_value:
  assumes "queue_cap cap" "threads_inv cap s" "cons s = CHead t h" "t \<noteq> h"
  shows "length (popped s) < c_seen s" "t = of_nat (length (popped s))"
proof -
  have "t = of_nat (length (popped s)) \<and> h = of_nat (c_seen s) \<and> length (popped s) \<le> c_seen s"
    using assms(2,3) by (simp add: threads_inv_def ring_inv_def)
  with assms(4) show "length (popped s) < c_seen s" "t = of_nat (length (popped s))"
    by (cases "length (popped s) = c_seen s"; simp)+
qed

lemma threads_inv_push_write:
  assumes c: "queue_cap cap" and i: "threads_inv cap s"
    and p: "prod s = PTail v h t" "\<not> of_nat cap \<le> h - t"
  shows "threads_inv cap (s\<lparr>sh_slots := (sh_slots s)[slot_of cap h := v], prod := PWritten v h\<rparr>)"
proof -
  note r = producer_has_room[OF c i p]
  have ri: "ring_inv cap s" using i by (simp add: threads_inv_def)
  have slot: "slot_of cap h = length (pushed s) mod cap" using r(2) slot_of_of_nat[OF c] by simp
  have "ring_inv cap (s\<lparr>sh_slots := (sh_slots s)[slot_of cap h := v]\<rparr>)"
    using ri write_keeps_unread[OF ri r(1)] unfolding ring_inv_def slot
    by (auto simp: nth_list_update_neq simp del: nth_list_update)
  moreover have "length (pushed s) mod cap < length (sh_slots s)"
    using ri queue_cap_bounds[OF c] by (simp add: ring_inv_def)
  ultimately show ?thesis using i r(1) p(1) unfolding slot by (simp add: threads_inv_def)
qed

lemma threads_inv_push_store:
  assumes "threads_inv cap s" "prod s = PWritten v h"
  shows "threads_inv cap (s\<lparr>sh_head := h + 1, prod := PIdle, pushed := pushed s @ [v]\<rparr>)"
proof -
  have "ring_inv cap (s\<lparr>sh_head := h + 1, pushed := pushed s @ [v]\<rparr>)"
    using assms by (auto simp: threads_inv_def ring_inv_def nth_append less_Suc_eq)
  moreover have "cons_inv (s\<lparr>pushed := pushed s @ [v]\<rparr>) (cons s)"
    using assms by (intro cons_inv_push) (auto simp: threads_inv_def ring_inv_def)
  ultimately show ?thesis by (cases "cons s") (auto simp: threads_inv_def ring_inv_def)
qed

lemma threads_inv_pop_read:
  assumes "queue_cap cap" "threads_inv cap s" "cons s = CHead t h" "t \<noteq> h"
  shows "threads_inv cap (s\<lparr>cons := CRead t (sh_slots s ! slot_of cap t)\<rparr>)"
proof -
  note v = consumer_has_value[OF assms]
  have "sh_slots s ! slot_of cap t = pushed s ! length (popped s)"
    using v assms(2) slot_of_of_nat[OF assms(1)] by (simp add: threads_inv_def ring_inv_def)
  then show ?thesis using v assms(2,3) by (simp add: threads_inv_def)
qed

lemma threads_inv_pop_store:
  assumes "threads_inv cap s" "cons s = CRead t v"
  shows "threads_inv cap (s\<lparr>sh_tail := t + 1, cons := CIdle, popped := popped s @ [v]\<rparr>)"
proof -
  have r: "ring_inv cap s" and c: "t = sh_tail s" "length (popped s) < c_seen s" "v = pushed s ! length (popped s)"
    using assms by (simp_all add: threads_inv_def)
  have "take (length (popped s)) (pushed s) = popped s" "length (popped s) < length (pushed s)"
    using r c(2) by (simp_all add: ring_inv_def)
  then have "take (length (popped s) + 1) (pushed s) = popped s @ [v]"
    by (simp add: c(3) take_Suc_conv_app_nth)
  then have "ring_inv cap (s\<lparr>sh_tail := t + 1, popped := popped s @ [v]\<rparr>)"
    using r c by (simp add: ring_inv_def)
  then show ?thesis using assms(1) by (simp add: threads_inv_def ring_inv_def)
qed

lemma threads_inv_step:
  assumes "queue_cap cap" "spsc_step cap s s'" "threads_inv cap s"
  shows "threads_inv cap s'"
  using assms(2)
proof cases
  case (push_load_tail v h k)
  then show ?thesis using assms(3) by (auto simp: threads_inv_def ring_inv_def)
next
  case (pop_load_head t k)
  then show ?thesis using assms(3) by (auto simp: threads_inv_def ring_inv_def)
next
  case (push_write v h t)
  then show ?thesis using assms threads_inv_push_write by simp
next
  case (push_store_head v h)
  then show ?thesis using assms threads_inv_push_store by simp
next
  case (pop_read t h)
  then show ?thesis using assms threads_inv_pop_read by simp
next
  case (pop_store_tail t v)
  then show ?thesis using assms threads_inv_pop_store by simp
qed (use assms(3) in \<open>auto simp: threads_inv_def\<close>)

lemma threads_inv_reachable:
  "spsc_reachable cap d s \<Longrightarrow> queue_cap cap \<Longrightarrow> threads_inv cap s"
  by (induction rule: spsc_reachable.induct) (auto intro: threads_inv_start threads_inv_step)

section \<open>Properties\<close>

text \<open>
  C19. The ring implements a bounded first-in first-out list. A push on a queue with room
  succeeds and appends the value; on a full queue it fails and changes nothing; a pop returns
  the oldest value and removes it, or fails on an empty queue; the invariant is kept. This
  holds for every value of the two counters, so also when they wrap around.
\<close>

theorem spsc_refines_fifo:
  assumes "spsc_inv cap q"
  shows "spsc_inv cap (snd (try_push cap v q)) \<and> spsc_inv cap (snd (try_pop cap q)) \<and>
    (if length (spsc_contents cap q) < cap
     then fst (try_push cap v q) \<and> spsc_contents cap (snd (try_push cap v q)) = spsc_contents cap q @ [v]
     else try_push cap v q = (False, q)) \<and>
    (case spsc_contents cap q of [] \<Rightarrow> try_pop cap q = (None, q)
     | x # xs \<Rightarrow> fst (try_pop cap q) = Some x \<and> spsc_contents cap (snd (try_pop cap q)) = xs)"
proof -
  have "try_push cap v q = (False, q)" if "\<not> length (spsc_contents cap q) < cap"
    using that spsc.bounded[OF assms] by (intro spsc.push_full[OF assms]) linarith
  then show ?thesis
    using spsc.inv_push[OF assms] spsc.inv_pop[OF assms] spsc.push_ok[OF assms] spsc.pop_some[OF assms]
      spsc.pop_none[OF assms] by (auto split: list.split)
qed

lemma queue_cap_4: "queue_cap 4"
  by (auto simp: queue_cap_def intro: exI[of _ 2])

text \<open>The counters are about to wrap: the head is 1 and the tail is the largest 64-bit value.\<close>

theorem spsc_refines_fifo_witness:
  "spsc_contents 4 (snd (try_push 4 9 \<lparr>head = 1, tail = - 1, slots = [5, 6, 7, 8 :: nat]\<rparr>)) = [8, 5, 9]"
proof -
  let ?q = "\<lparr>head = 1, tail = - 1, slots = [5, 6, 7, 8 :: nat]\<rparr>"
  have c: "spsc_contents 4 ?q = [8, 5]" "spsc_size ?q = 2"
    by (simp_all add: spsc_contents_def spsc_size_def slot_of_def upt_rec)
  have "spsc_inv 4 ?q" using queue_cap_4 c by (simp add: spsc_inv_def)
  from spsc_refines_fifo[OF this, of 9] show ?thesis by (simp add: c)
qed

text \<open>
  C8. Under every interleaving of the two threads, with delayed visibility of the counters,
  the values popped are a prefix of the values pushed, in order and without loss or
  duplication, and never more than the capacity is in flight.
\<close>

theorem spsc_threads_fifo:
  assumes "spsc_reachable cap d s" "queue_cap cap"
  shows "take (length (popped s)) (pushed s) = popped s \<and> length (pushed s) \<le> length (popped s) + cap"
  using threads_inv_reachable[OF assms] by (auto simp: threads_inv_def ring_inv_def)

text \<open>
  The producer never writes the slot the consumer is about to read, so the plain accesses
  to the slots do not race.
\<close>

theorem spsc_no_slot_race:
  assumes "spsc_reachable cap d s" "queue_cap cap"
    and "prod s = PTail v h t" "\<not> of_nat cap \<le> h - t" and "cons s = CHead t' h'" "t' \<noteq> h'"
  shows "slot_of cap h \<noteq> slot_of cap t'"
proof -
  have i: "threads_inv cap s" by (rule threads_inv_reachable[OF assms(1,2)])
  note p = producer_has_room[OF assms(2) i assms(3,4)] and c = consumer_has_value[OF assms(2) i assms(5,6)]
  have r: "ring_inv cap s" "length (popped s) < length (pushed s)"
    using i c(1) by (auto simp: threads_inv_def ring_inv_def)
  show ?thesis
    using write_keeps_unread[OF r(1) p(1) order_refl r(2)] p(2) c(2) slot_of_of_nat[OF assms(2)] by simp
qed

text \<open>A run: the value 7 is pushed, then a push of 8 and a pop are both half way.\<close>

definition race_state :: "nat spsc_threads" where
  "race_state = \<lparr>sh_head = 1, sh_tail = 0, sh_slots = [7, 0, 0, 0], prod = PTail 8 1 0, cons = CHead 0 1,
     p_seen = 0, c_seen = 1, pushed = [7], popped = []\<rparr>"

lemma race_state_reachable: "spsc_reachable 4 0 race_state"
proof -
  let ?b = "spsc_start 4 (0::nat)"
  let ?c = "?b\<lparr>sh_head := 1, sh_slots := [7, 0, 0, 0], pushed := [7]\<rparr>"
  have "replicate 4 (0::nat) = [0, 0, 0, 0]" by (simp add: eval_nat_numeral)
  note d = spsc_start_def this and next_state = spsc_reachable.step
  have 1: "spsc_reachable 4 0 (?b\<lparr>prod := PHead 7 0\<rparr>)"
    using next_state[OF spsc_reachable.start[of 4 "0::nat"] push_load_head[where v = 7]] by (simp add: d)
  have 2: "spsc_reachable 4 0 (?b\<lparr>prod := PTail 7 0 0\<rparr>)"
    using next_state[OF 1 push_load_tail[of _ 7 0 0]] by (simp add: d)
  have 3: "spsc_reachable 4 0 (?b\<lparr>sh_slots := [7, 0, 0, 0], prod := PWritten 7 0\<rparr>)"
    using next_state[OF 2 push_write[of _ 7 0 0]] by (simp add: d slot_of_def)
  have 4: "spsc_reachable 4 0 ?c"
    using next_state[OF 3 push_store_head[of _ 7 0]] by (simp add: d)
  have 5: "spsc_reachable 4 0 (?c\<lparr>prod := PHead 8 1\<rparr>)"
    using next_state[OF 4 push_load_head[where v = 8]] by (simp add: d)
  have 6: "spsc_reachable 4 0 (?c\<lparr>prod := PTail 8 1 0\<rparr>)"
    using next_state[OF 5 push_load_tail[of _ 8 1 0]] by (simp add: d)
  have 7: "spsc_reachable 4 0 (?c\<lparr>prod := PTail 8 1 0, cons := CTail 0\<rparr>)"
    using next_state[OF 6 pop_load_tail] by (simp add: d)
  show ?thesis
    using next_state[OF 7 pop_load_head[of _ 0 1]] by (simp add: d race_state_def)
qed

theorem spsc_threads_fifo_witness:
  "\<exists>s. spsc_reachable 4 (0::nat) s \<and> pushed s = [7] \<and> popped s = [7] \<and>
     take (length (popped s)) (pushed s) = popped s \<and> length (pushed s) \<le> length (popped s) + 4"
proof -
  let ?s = "race_state\<lparr>sh_tail := 1, cons := CIdle, popped := [7]\<rparr>"
  have 1: "spsc_reachable 4 0 (race_state\<lparr>cons := CRead 0 7\<rparr>)"
    using spsc_reachable.step[OF race_state_reachable pop_read[of _ 0 1]]
    by (simp add: race_state_def slot_of_def)
  have r: "spsc_reachable 4 0 ?s"
    using spsc_reachable.step[OF 1 pop_store_tail[of _ 0 7]] by (simp add: race_state_def)
  show ?thesis
    using r spsc_threads_fifo[OF r queue_cap_4] by (intro exI[of _ ?s]) (simp add: race_state_def)
qed

theorem spsc_no_slot_race_witness: "slot_of 4 1 \<noteq> slot_of 4 0"
  by (rule spsc_no_slot_race[OF race_state_reachable queue_cap_4, of 8 _ 0 _ 1])
    (simp_all add: race_state_def word_le_nat_alt)

end
