(* ===== verification/Hdr_Histogram.thy ===== *)
theory Hdr_Histogram
  imports Core_Types "HOL-Library.Multiset"
begin

text \<open>
  The latency histogram of \<^verbatim>\<open>include/trading/util/hdr_histogram.hpp\<close>: every power-of-two
  octave is split into 32 linear buckets. The specification is the list of the recorded values;
  the histogram counts them by bucket, and its percentile is the order statistic of the list up
  to the width of a bucket.
\<close>

section \<open>State and operations\<close>

definition SUB_BITS :: nat where "SUB_BITS = 5"

definition SUB_COUNT :: nat where "SUB_COUNT = 2 ^ SUB_BITS"

definition NUM_CELLS :: nat where "NUM_CELLS = 64 * SUB_COUNT"

record hist =
  h_counts :: "u64 list"
  h_count :: u64
  h_sum :: u64
  h_max :: u64

definition new_hist :: hist where
  "new_hist = \<lparr>h_counts = replicate NUM_CELLS 0, h_count = 0, h_sum = 0, h_max = 0\<rparr>"

definition indexFor :: "u64 \<Rightarrow> nat" where
  "indexFor v =
     (if unat v < SUB_COUNT then unat v
      else let exp = 63 - clzll v;
               octave = exp - SUB_BITS;
               sub = unat (drop_bit octave v) - SUB_COUNT;
               idx = SUB_COUNT * (octave + 1) + sub
           in if idx < NUM_CELLS then idx else NUM_CELLS - 1)"

definition valueAt :: "nat \<Rightarrow> int" where
  "valueAt idx =
     (if idx < SUB_COUNT then int idx
      else let rel = idx - SUB_COUNT;
               octave = rel div SUB_COUNT;
               sub = rel mod SUB_COUNT;
               lowerEdge = push_bit octave (of_nat (SUB_COUNT + sub)) :: u64;
               halfWidth = drop_bit 1 (push_bit octave 1)
           in sint (lowerEdge + halfWidth))"

definition recordNs :: "int \<Rightarrow> hist \<Rightarrow> hist" where
  "recordNs ns h =
     (let v = of_int (if ns < 0 then 0 else ns) :: u64;
          i = indexFor v
      in h\<lparr>h_counts := (h_counts h)[i := h_counts h ! i + 1],
           h_count := h_count h + 1,
           h_sum := h_sum h + v,
           h_max := (if h_max h < v then v else h_max h)\<rparr>)"

definition maxNs :: "hist \<Rightarrow> int" where
  "maxNs h = sint (h_max h)"

definition double_of_u64 :: "u64 \<Rightarrow> double" where
  "double_of_u64 w = dbl (of_nat (unat w))"

definition mean :: "hist \<Rightarrow> double" where
  "mean h = (if h_count h \<noteq> 0 then double_of_u64 (h_sum h) / double_of_u64 (h_count h) else 0)"

text \<open>
  \<^verbatim>\<open>static_cast<uint64_t>\<close> of a double truncates; outside the range of the type, where the
  conversion is undefined, the result is the parameter \<open>oor\<close>.
\<close>

definition u64_of_double :: "(double \<Rightarrow> u64) \<Rightarrow> double \<Rightarrow> u64" where
  "u64_of_double oor d =
     (if is_fin d \<and> - 1 < dval d \<and> dval d < 2 ^ 64 then of_nat (nat \<lfloor>dval d\<rfloor>) else oor d)"

fun percentile_loop :: "u64 list \<Rightarrow> nat \<Rightarrow> u64 \<Rightarrow> u64 \<Rightarrow> int \<Rightarrow> int" where
  "percentile_loop [] i cum target mx = mx"
| "percentile_loop (c # cs) i cum target mx =
     (let cum' = cum + c in
      if target \<le> cum' then (let v = valueAt i in if v < mx then v else mx)
      else percentile_loop cs (Suc i) cum' target mx)"

definition percentileNs :: "(double \<Rightarrow> u64) \<Rightarrow> double \<Rightarrow> hist \<Rightarrow> int" where
  "percentileNs oor pct h =
     (let n = h_count h in
      if n = 0 then 0
      else let t = u64_of_double oor (pct / dbl 100 * double_of_u64 n);
               target = (if t = 0 then 1 else t)
           in percentile_loop (h_counts h) 0 0 target (maxNs h))"

section \<open>Buckets\<close>

lemmas cell_consts = SUB_BITS_def SUB_COUNT_def NUM_CELLS_def

text \<open>The bucket of a value from 32 on, with its octave written as a power of two.\<close>

lemma indexFor_octave:
  assumes "32 \<le> unat v"
  obtains oc s where "indexFor v = 32 * (oc + 1) + s" "s < 32" "oc \<le> 58"
    "(32 + s) * 2 ^ oc \<le> unat v" "unat v < (32 + s + 1) * 2 ^ oc"
proof -
  have v0: "v \<noteq> 0" using assms by auto
  define e where "e = 63 - clzll v"
  note c = clzll_props(2)[OF v0]
  have e: "2 ^ e \<le> unat v" "unat v < 2 ^ Suc e"
    using clzll_log[OF v0] Suc_diff_le[of "clzll v" 63] c by (simp_all add: e_def flip: power_Suc)
  have "5 \<le> e"
  proof (rule ccontr)
    assume "\<not> 5 \<le> e"
    then have "(2 :: nat) ^ Suc e \<le> 2 ^ 5" by (intro power_increasing) auto
    with e(2) assms show False by simp
  qed
  define k where "k = e - 5"
  have k: "e = k + 5" "k \<le> 58" using \<open>5 \<le> e\<close> by (auto simp: k_def e_def)
  define q where "q = unat v div 2 ^ k"
  have q: "q * 2 ^ k \<le> unat v" "unat v < (q + 1) * 2 ^ k"
    by (simp_all add: q_def mult.commute dividend_less_times_div)
  have "32 \<le> q" unfolding q_def using e(1) by (subst less_eq_div_iff_mult_less_eq) (simp_all add: k power_add)
  moreover have "q < 64" unfolding q_def using e(2) by (subst div_less_iff_less_mult) (simp_all add: k power_add)
  ultimately have s: "32 + (q - 32) = q" "q - 32 < 32" by auto
  have "unat (drop_bit k v) = q" unfolding unat_drop_bit_eq by (simp add: q_def drop_bit_eq_div)
  then have "indexFor v = 32 * (k + 1) + (q - 32)"
    using assms k(2) s(2) by (simp add: indexFor_def cell_consts Let_def e_def[symmetric] k_def[symmetric])
  then show thesis using that[of k "q - 32"] s q k(2) by (simp add: add.commute)
qed

lemma indexFor_small: "unat v < 32 \<Longrightarrow> indexFor v = unat v"
  by (simp add: indexFor_def cell_consts)

lemma indexFor_bound: "indexFor v < NUM_CELLS"
  by (simp add: indexFor_def Let_def) (simp add: cell_consts)

text \<open>Where the buckets of an octave end the next octave begins, so the index is monotone.\<close>

lemma indexFor_mono:
  assumes "unat v \<le> unat w" shows "indexFor v \<le> indexFor w"
proof (cases "unat v < 32")
  case True
  show ?thesis
  proof (cases "unat w < 32")
    case False
    then obtain oc' s where "indexFor w = 32 * (oc' + 1) + s" using indexFor_octave[of w] by (meson not_le)
    then show ?thesis using True indexFor_small[OF True] by simp
  qed (use True assms in \<open>simp add: indexFor_small\<close>)
next
  case False
  then have "32 \<le> unat v" "32 \<le> unat w" using assms by auto
  from indexFor_octave[OF this(1)] obtain o1 s1 where 1: "indexFor v = 32 * (o1 + 1) + s1" "s1 < 32"
    "(32 + s1) * 2 ^ o1 \<le> unat v" "unat v < (32 + s1 + 1) * 2 ^ o1" .
  from indexFor_octave[OF \<open>32 \<le> unat w\<close>] obtain o2 s2 where 2: "indexFor w = 32 * (o2 + 1) + s2" "s2 < 32"
    "(32 + s2) * 2 ^ o2 \<le> unat w" "unat w < (32 + s2 + 1) * 2 ^ o2" .
  have lt: "(32 + s1) * 2 ^ o1 < (32 + s2 + 1) * 2 ^ o2" using 1(3) assms 2(4) by linarith
  consider "o1 < o2" | "o1 = o2" | "o2 < o1" by linarith
  then show ?thesis
  proof cases
    case 1
    then show ?thesis using \<open>s1 < 32\<close> by (simp add: \<open>indexFor v = _\<close> 2(1))
  next
    case 2
    then have "s1 \<le> s2" using lt by simp
    then show ?thesis using 2 by (simp add: \<open>indexFor v = _\<close> \<open>indexFor w = _\<close>)
  next
    case 3
    then have "(2 :: nat) ^ Suc o2 \<le> 2 ^ o1" by (intro power_increasing) auto
    then have "32 * (2 * 2 ^ o2) \<le> (32 + s1) * 2 ^ o1" by (intro mult_mono) auto
    moreover have "(32 + s2 + 1) * 2 ^ o2 \<le> 64 * 2 ^ o2" using 2(2) by (intro mult_mono) auto
    ultimately show ?thesis using lt by simp
  qed
qed

text \<open>
  The midpoint returned for a bucket is off by at most half its width, that is by 1/64 of any
  value in it; the values below 32, and the first octave above them, are exact.
\<close>

lemma valueAt_octave:
  assumes "s < 32" "oc \<le> 57"
  shows "valueAt (32 * (oc + 1) + s) = int ((32 + s) * 2 ^ oc + 2 ^ oc div 2)"
proof -
  define x where "x = (32 + s) * 2 ^ oc + 2 ^ oc div 2"
  have "(2 :: nat) ^ oc \<le> 2 ^ 57" using assms(2) by (intro power_increasing) auto
  moreover from this have "(32 + s) * 2 ^ oc \<le> 63 * 2 ^ 57" using assms(1) by (intro mult_mono) auto
  ultimately have x: "x < 2 ^ 63" unfolding x_def by simp
  have d: "(32 * (oc + 1) + s - 32) div 32 = oc" "(32 * (oc + 1) + s - 32) mod 32 = s" using assms(1) by simp_all
  have "drop_bit 1 (push_bit oc (1 :: u64)) = of_nat (2 ^ oc div 2)"
  proof (rule word_unat_eq_iff[THEN iffD2])
    have "unat (push_bit oc (1 :: u64)) = 2 ^ oc"
      using \<open>2 ^ oc \<le> 2 ^ 57\<close> unat_u64_of_nat[of "2 ^ oc"] by (simp add: push_bit_eq_mult)
    then show "unat (drop_bit 1 (push_bit oc (1 :: u64))) = unat (of_nat (2 ^ oc div 2) :: u64)"
      using \<open>2 ^ oc \<le> 2 ^ 57\<close> by (simp add: drop_bit_eq_div unat_div unat_u64_of_nat)
  qed
  then have "valueAt (32 * (oc + 1) + s) = sint (of_nat x :: u64)"
    using assms(1) d by (simp add: valueAt_def cell_consts Let_def x_def push_bit_eq_mult)
  also have "\<dots> = int x" using x by (rule sint_u64_of_nat)
  finally show ?thesis by (simp add: x_def)
qed

lemma valueAt_indexFor:
  assumes "unat v < 2 ^ 63"
  shows "64 * \<bar>valueAt (indexFor v) - int (unat v)\<bar> \<le> int (unat v)"
proof (cases "unat v < 32")
  case True
  then show ?thesis by (simp add: indexFor_small valueAt_def cell_consts)
next
  case False
  then have "32 \<le> unat v" by simp
  from indexFor_octave[OF this] obtain k s where k: "indexFor v = 32 * (k + 1) + s" "s < 32" "k \<le> 58"
    "(32 + s) * 2 ^ k \<le> unat v" "unat v < (32 + s + 1) * 2 ^ k" .
  have "k \<noteq> 58"
  proof
    assume "k = 58"
    then have "32 * 2 ^ 58 \<le> unat v" using k(4) by simp
    with assms show False by simp
  qed
  then have v: "valueAt (indexFor v) = int ((32 + s) * 2 ^ k + 2 ^ k div 2)"
    unfolding k(1) using k(2,3) by (intro valueAt_octave) simp_all
  have b: "32 * 2 ^ k \<le> unat v" by (rule order_trans[OF _ k(4)]) simp
  show ?thesis
  proof (cases k)
    case 0
    then have "unat v = 32 + s" using k(4,5) by simp
    then show ?thesis unfolding v by (simp add: 0)
  next
    case (Suc j)
    define a where "a = (32 + s) * 2 ^ k"
    define g where "g = (2 :: nat) ^ j"
    have "2 ^ k = 2 * g" "(32 + s + 1) * 2 ^ k = a + 2 ^ k" using Suc by (simp_all add: a_def g_def algebra_simps)
    then have "a \<le> unat v" "unat v < a + 2 * g" "64 * g \<le> unat v" and h: "(2 ^ k div 2 :: nat) = g"
      using k(4,5) b unfolding a_def[symmetric] by linarith+
    moreover have "64 * \<bar>int (a + g) - int w\<bar> \<le> int w" if "a \<le> w" "w < a + 2 * g" "64 * g \<le> w" for w
    proof -
      have "int a \<le> int w" "int w < int a + 2 * int g" "64 * int g \<le> int w" using that by linarith+
      then have "\<bar>int a + int g - int w\<bar> \<le> int g" by (intro abs_leI) linarith+
      then show ?thesis using \<open>64 * int g \<le> int w\<close> by simp
    qed
    ultimately show ?thesis unfolding v a_def[symmetric] h by blast
  qed
qed

section \<open>The recorded values\<close>

text \<open>\<open>hist_rep h ns\<close>: the histogram \<open>h\<close> is the one of the recorded values \<open>ns\<close>.\<close>

definition cell :: "nat \<Rightarrow> nat" where
  "cell n = indexFor (of_nat n)"

definition hist_rep :: "hist \<Rightarrow> nat list \<Rightarrow> bool" where
  "hist_rep h ns \<longleftrightarrow> (\<forall>n \<in> set ns. n < 2 ^ 63)
     \<and> h_counts h = map (\<lambda>i. of_nat (count_list (map cell ns) i)) [0..<NUM_CELLS]
     \<and> h_count h = of_nat (length ns) \<and> h_sum h = of_nat (sum_list ns) \<and> h_max h = of_nat (foldr max ns 0)"

lemma hist_rep_new: "hist_rep new_hist []"
  by (simp add: hist_rep_def new_hist_def map_replicate_const)

lemma foldr_max_bound: "\<forall>n \<in> set ns. n < (b :: nat) \<Longrightarrow> 0 < b \<Longrightarrow> foldr max ns 0 < b"
  by (induction ns) auto

lemma hist_rep_record:
  assumes "hist_rep h ns" "in_i64 x"
  shows "hist_rep (recordNs x h) (nat x # ns)"
proof -
  define n where "n = nat x"
  have n: "n < 2 ^ 63" "(of_int (if x < 0 then 0 else x) :: u64) = of_nat n"
    using assms(2) by (auto simp: n_def in_i64_def of_nat_nat)
  define m where "m = foldr max ns 0"
  have m: "m < 2 ^ 63" using assms(1) foldr_max_bound[of ns "2 ^ 63"] by (simp add: hist_rep_def m_def)
  have c: "cell n < NUM_CELLS" by (simp add: cell_def indexFor_bound)
  have "(of_nat m :: u64) < of_nat n \<longleftrightarrow> m < n" using m n(1) by (simp add: word_less_nat_alt unat_u64_of_nat)
  then have mx: "(if (of_nat m :: u64) < of_nat n then of_nat n else of_nat m) = (of_nat (max n m) :: u64)"
    by (simp add: max_def)
  have "(map (\<lambda>i. of_nat (count_list (map cell ns) i)) [0..<NUM_CELLS])
      [cell n := map (\<lambda>i. of_nat (count_list (map cell ns) i)) [0..<NUM_CELLS] ! cell n + 1]
    = map (\<lambda>i. of_nat (count_list (map cell (n # ns)) i) :: u64) [0..<NUM_CELLS]"
    using c by (intro nth_equalityI) (auto simp: nth_list_update)
  moreover have "h_max h = of_nat m" using assms(1) by (simp add: hist_rep_def m_def)
  ultimately show ?thesis
    using assms(1) n(1) mx unfolding hist_rep_def recordNs_def Let_def n(2) n_def[symmetric] cell_def[symmetric]
      foldr.simps comp_apply m_def[symmetric] by (simp add: add.commute del: of_nat_max cong: if_cong)
qed

lemma hist_rep_fold:
  "\<forall>x \<in> set xs. in_i64 x \<Longrightarrow> hist_rep h ns \<Longrightarrow> hist_rep (fold recordNs xs h) (rev (map nat xs) @ ns)"
  by (induction xs arbitrary: h ns) (simp_all add: hist_rep_record)

section \<open>Percentiles\<close>

definition below :: "nat \<Rightarrow> nat list \<Rightarrow> nat" where
  "below i cs = length (filter (\<lambda>c. c < i) cs)"

lemma below_Suc: "below (Suc i) cs = below i cs + count_list cs i"
  by (induction cs) (auto simp: below_def less_Suc_eq)

lemma below_mono: "i \<le> j \<Longrightarrow> below i cs \<le> below j cs"
  by (induction cs) (auto simp: below_def)

lemma below_le: "below i cs \<le> length cs"
  by (simp add: below_def)

lemma percentile_loop_cell:
  assumes "i \<le> y" "y < N" "below y cs < t" "t \<le> below (Suc y) cs" "length cs < 2 ^ 64"
  shows "percentile_loop (map (\<lambda>j. of_nat (count_list cs j)) [i..<N]) i (of_nat (below i cs)) (of_nat t) mx =
    min (valueAt y) mx"
  using assms(1)
proof (induction i rule: inc_induct)
  case base
  have "[y..<N] = y # [Suc y..<N]" using assms(2) by (rule upt_conv_Cons)
  moreover have "(of_nat t :: u64) \<le> of_nat (below y cs) + of_nat (count_list cs y)"
    using assms(4,5) below_le[of "Suc y" cs]
    unfolding of_nat_add[symmetric] below_Suc[symmetric] by (simp add: word_le_nat_alt unat_u64_of_nat)
  ultimately show ?case by (simp add: Let_def min_def)
next
  case (step i)
  have "[i..<N] = i # [Suc i..<N]" using step(2) assms(2) by (intro upt_conv_Cons) simp
  moreover have "below (Suc i) cs \<le> below y cs" using below_mono[of "Suc i" y cs] step(2) by simp
  then have "below (Suc i) cs < t" using assms(3) by simp
  then have "\<not> (of_nat t :: u64) \<le> of_nat (below i cs) + of_nat (count_list cs i)"
    using assms(4,5) below_le[of "Suc y" cs]
    unfolding of_nat_add[symmetric] below_Suc[symmetric] by (simp add: word_le_nat_alt unat_u64_of_nat)
  ultimately show ?case using step(3) by (simp add: Let_def below_Suc)
qed

lemma cell_mono: "m \<le> n \<Longrightarrow> n < 2 ^ 64 \<Longrightarrow> cell m \<le> cell n"
  unfolding cell_def by (rule indexFor_mono) (simp add: unat_u64_of_nat)

text \<open>The bucket at which the running count reaches \<open>t\<close> is the one of the \<open>t\<close>-th smallest value.\<close>

lemma below_order_statistic:
  assumes "\<forall>n \<in> set ns. n < 2 ^ 64" "0 < t" "t \<le> length ns"
  defines "y \<equiv> cell (sort ns ! (t - 1))"
  shows "below y (map cell ns) < t" "t \<le> below (Suc y) (map cell ns)"
proof -
  define s where "s = map cell (sort ns)"
  have b: "below i (map cell ns) = below i s" for i
    unfolding below_def s_def by (metis mset_filter mset_map mset_sort size_mset)
  have l: "length s = length ns" by (simp add: s_def)
  have y: "y = s ! (t - 1)" using assms(2,3) by (simp add: y_def s_def)
  have srt: "sorted s" unfolding s_def
    using assms(1) by (auto simp: sorted_map intro!: sorted_wrt_mono_rel[OF _ sorted_sort] cell_mono)
  have "filter (\<lambda>c. c < y) (drop (t - 1) s) = []"
    using srt l assms(2,3) by (auto simp: y filter_empty_conv in_set_conv_nth not_less sorted_iff_nth_mono)
  then have "filter (\<lambda>c. c < y) s = filter (\<lambda>c. c < y) (take (t - 1) s)"
    by (metis append_Nil2 append_take_drop_id filter_append)
  then have "below y s \<le> length (take (t - 1) s)" unfolding below_def by (metis length_filter_le)
  then show "below y (map cell ns) < t" using b assms(2,3) l by simp
  have "filter (\<lambda>c. c < Suc y) (take t s) = take t s"
    using srt l assms(2,3) by (auto simp: y filter_id_conv in_set_conv_nth less_Suc_eq_le sorted_iff_nth_mono)
  then have "length (take t s) \<le> below (Suc y) s"
    unfolding below_def by (metis append_take_drop_id filter_append length_append le_add1)
  then show "t \<le> below (Suc y) (map cell ns)" using b assms(3) l by simp
qed

lemma percentile_loop_rep:
  assumes "hist_rep h ns" "0 < t" "t \<le> length ns" "length ns < 2 ^ 53"
  shows "percentile_loop (h_counts h) 0 0 (of_nat t) mx = min (valueAt (cell (sort ns ! (t - 1)))) mx"
proof -
  have b: "\<forall>n \<in> set ns. n < 2 ^ 64" using assms(1) by (fastforce simp: hist_rep_def)
  have "cell (sort ns ! (t - 1)) < NUM_CELLS" by (simp add: cell_def indexFor_bound)
  then show ?thesis
    using percentile_loop_cell[of 0 _ NUM_CELLS "map cell ns" t mx, OF _ _ below_order_statistic[OF b assms(2,3)]] assms
    by (simp add: hist_rep_def below_def)
qed

text \<open>The rank that the double computation selects lies between 1 and the number of values.\<close>

definition rank :: "double \<Rightarrow> nat \<Rightarrow> nat" where
  "rank pct n = max 1 (nat \<lfloor>dval (pct / dbl 100 * dbl (of_nat n))\<rfloor>)"

lemma rank_props:
  assumes "0 \<le> pct" "pct \<le> dbl 100" "0 < n" "n < 2 ^ 53"
  shows "1 \<le> rank pct n" "rank pct n \<le> n"
    "(let t = u64_of_double oor (pct / dbl 100 * dbl (of_nat n)) in if t = 0 then 1 else t) = of_nat (rank pct n)"
proof -
  have f: "is_fin pct" using is_fin_between[of 0 "dbl 100" pct] assms(1,2) by simp
  have p: "0 \<le> dval pct" "dval pct \<le> 100" using assms(1,2) f by (simp_all add: less_eq_fin)
  have r: "rep (of_nat n)" using rep_of_int[of "int n"] assms(4) by simp
  define a where "a = pct / dbl 100"
  have "\<bar>dval pct / dval (dbl 100)\<bar> \<le> 1" using p by simp
  then have a: "is_fin a" "dval a = rnd (dval pct / 100)" "\<bar>dval a\<bar> \<le> 1"
    using divide_bound[OF f, of "dbl 100" 1] by (simp_all add: a_def)
  have a0: "0 \<le> dval a" using p(1) by (simp add: a(2) rnd_nonneg)
  define x where "x = a * dbl (of_nat n)"
  have "\<bar>dval a * dval (dbl (of_nat n))\<bar> \<le> of_nat n" using a(3) r a0 by (simp add: mult_left_le_one_le)
  then have x: "is_fin x" "dval x = rnd (dval a * of_nat n)" "\<bar>dval x\<bar> \<le> of_nat n"
    using mult_bound[OF a(1) is_fin_rep[OF r] r] r by (simp_all add: x_def)
  have x0: "0 \<le> dval x" using a0 by (simp add: x(2) rnd_nonneg)
  define k where "k = nat \<lfloor>dval x\<rfloor>"
  have "\<lfloor>dval x\<rfloor> \<le> \<lfloor>of_nat n :: rat\<rfloor>" using x(3) x0 by (intro floor_mono) simp
  then have k: "k \<le> n" by (simp add: k_def)
  have rk: "rank pct n = max 1 k" by (simp add: rank_def k_def x_def a_def)
  show "1 \<le> rank pct n" "rank pct n \<le> n" using k assms(3) by (simp_all add: rk)
  have "dval x < 2 ^ 64"
  proof -
    have "(of_nat n :: rat) < of_nat (2 ^ 53)" using assms(4) by (simp only: of_nat_less_iff)
    then show ?thesis using x(3) by simp
  qed
  then have u: "u64_of_double oor x = of_nat k" using x(1) x0 by (simp add: u64_of_double_def k_def)
  have "(of_nat k :: u64) = 0 \<longleftrightarrow> k = 0" using u64_of_nat_inj[of k 0] k assms(4) by simp
  then show "(let t = u64_of_double oor (pct / dbl 100 * dbl (of_nat n)) in if t = 0 then 1 else t) = of_nat (rank pct n)"
    unfolding x_def[unfolded a_def, symmetric] u rk by (simp add: Let_def max_def)
qed

lemma percentileNs_rep:
  assumes "hist_rep h ns" "ns \<noteq> []" "length ns < 2 ^ 53" "0 \<le> pct" "pct \<le> dbl 100"
  shows "percentileNs oor pct h =
    min (valueAt (cell (sort ns ! (rank pct (length ns) - 1)))) (int (foldr max ns 0))"
proof -
  let ?n = "length ns"
  have n: "0 < ?n" using assms(2) by simp
  note r = rank_props[OF assms(4,5) n assms(3)]
  have c: "h_count h = of_nat ?n" "unat (of_nat ?n :: u64) = ?n" "(of_nat ?n :: u64) \<noteq> 0"
    using assms(1,3) n u64_of_nat_inj[of ?n 0] by (simp_all add: hist_rep_def unat_u64_of_nat)
  have m: "maxNs h = int (foldr max ns 0)"
    using assms(1) foldr_max_bound[of ns "2 ^ 63"] by (simp add: hist_rep_def maxNs_def sint_u64_of_nat)
  have "percentileNs oor pct h = percentile_loop (h_counts h) 0 0 (of_nat (rank pct ?n)) (maxNs h)"
    using r(3)[of oor] c by (simp add: percentileNs_def double_of_u64_def Let_def)
  then show ?thesis using percentile_loop_rep[OF assms(1) _ r(2) assms(3)] r(1) m by simp
qed

lemma foldr_max_Max: "ns \<noteq> [] \<Longrightarrow> foldr max ns 0 = Max (set ns :: nat set)"
  by (induction ns rule: list_nonempty_induct) auto

lemma min_near:
  fixes v m x :: int
  assumes "64 * \<bar>v - x\<bar> \<le> x" "x \<le> m" shows "64 * \<bar>min v m - x\<bar> \<le> x"
proof -
  have "\<bar>min v m - x\<bar> \<le> \<bar>v - x\<bar>" using assms(2) by (auto simp: min_def)
  then have "64 * \<bar>min v m - x\<bar> \<le> 64 * \<bar>v - x\<bar>" by simp
  then show ?thesis using assms(1) by (rule order_trans)
qed

lemma sort_nth_mem: "0 < t \<Longrightarrow> t \<le> length ns \<Longrightarrow> sort ns ! (t - 1) \<in> set ns"
  by (metis Suc_diff_1 Suc_le_lessD length_sort nth_mem set_sort)

section \<open>Properties of the histogram\<close>

text \<open>
  Buckets: every value has a cell of the array (the clamp at the end of \<^verbatim>\<open>indexFor\<close> is for
  no value), larger values never go to a smaller cell, and for every recordable value the
  representative of its cell differs from it by at most one part in 64.
\<close>

theorem histogram_buckets:
  assumes "unat v < 2 ^ 63"
  shows "indexFor v < NUM_CELLS
    \<and> (\<forall>w. unat v \<le> unat w \<longrightarrow> indexFor v \<le> indexFor w)
    \<and> 64 * \<bar>valueAt (indexFor v) - int (unat v)\<bar> \<le> int (unat v)"
  using indexFor_bound[of v] indexFor_mono[of v] valueAt_indexFor[OF assms] by blast

theorem histogram_buckets_witness: "64 * \<bar>valueAt (indexFor 1000000) - 1000000\<bar> \<le> 1000000"
  using histogram_buckets[of 1000000] by simp

text \<open>
  Recording: after any sequence of samples the cells, the total, the sum and the maximum are
  those of the list of samples, a negative sample counting as 0, in 64-bit arithmetic.
\<close>

theorem histogram_records:
  assumes "\<forall>x \<in> set xs. in_i64 x"
  shows "let h = fold recordNs xs new_hist; ns = rev (map nat xs) in
    h_counts h = map (\<lambda>i. of_nat (count_list (map (\<lambda>n. indexFor (of_nat n)) ns) i)) [0..<NUM_CELLS]
    \<and> h_count h = of_nat (length xs) \<and> h_sum h = of_nat (sum_list ns) \<and> maxNs h = int (foldr max ns 0)"
proof -
  define h ns where "h = fold recordNs xs new_hist" and "ns = rev (map nat xs)"
  have r: "hist_rep h ns" using hist_rep_fold[OF assms hist_rep_new] by (simp add: h_def ns_def)
  then have "maxNs h = int (foldr max ns 0)"
    using foldr_max_bound[of ns "2 ^ 63"] by (simp add: hist_rep_def maxNs_def sint_u64_of_nat)
  moreover have "length ns = length xs" by (simp add: ns_def)
  ultimately show ?thesis
    using r unfolding h_def[symmetric] ns_def[symmetric] by (simp add: hist_rep_def cell_def[abs_def] Let_def)
qed

theorem histogram_records_witness: "h_count (fold recordNs [5, - 3, 40] new_hist) = 3"
  using histogram_records[of "[5, - 3, 40]"] by (simp add: in_i64_def Let_def)

lemma percentile_near:
  assumes "hist_rep h ns" "ns \<noteq> []" "length ns < 2 ^ 53" "0 \<le> pct" "pct \<le> dbl 100"
  defines "x \<equiv> sort ns ! (rank pct (length ns) - 1)"
  shows "64 * \<bar>percentileNs oor pct h - int x\<bar> \<le> int x \<and> percentileNs oor pct h \<le> int (Max (set ns))
    \<and> 1 \<le> rank pct (length ns) \<and> rank pct (length ns) \<le> length ns"
proof -
  have r: "1 \<le> rank pct (length ns)" "rank pct (length ns) \<le> length ns"
    using rank_props(1,2)[OF assms(4,5) _ assms(3)] assms(2) by simp_all
  then have x: "x \<in> set ns" unfolding x_def by (intro sort_nth_mem) simp_all
  have p: "percentileNs oor pct h = min (valueAt (cell x)) (int (Max (set ns)))"
    using percentileNs_rep[OF assms(1-5)] foldr_max_Max[OF assms(2)] by (simp add: x_def)
  have "x < 2 ^ 63" using assms(1) x by (simp add: hist_rep_def)
  then have "64 * \<bar>valueAt (cell x) - int x\<bar> \<le> int x"
    using valueAt_indexFor[of "of_nat x"] by (simp add: cell_def unat_u64_of_nat del: of_nat_unat)
  from min_near[OF this] show ?thesis unfolding p using x r by simp
qed

text \<open>
  C24. Percentiles: for up to \<open>2 ^ 53\<close> samples and a percentage between 0 and 100, the result of
  \<^verbatim>\<open>percentileNs\<close> is within one part in 64 of the exact order statistic of the samples, and
  never above the largest sample.
\<close>

theorem percentile_accuracy:
  assumes "hist_rep h ns" "ns \<noteq> []" "length ns < 2 ^ 53" "0 \<le> pct" "pct \<le> dbl 100"
  defines "x \<equiv> sort ns ! (rank pct (length ns) - 1)"
  shows "64 * \<bar>percentileNs oor pct h - int x\<bar> \<le> int x \<and> percentileNs oor pct h \<le> int (Max (set ns))
    \<and> 1 \<le> rank pct (length ns) \<and> rank pct (length ns) \<le> length ns"
  unfolding x_def by (rule percentile_near[OF assms(1-5)])

definition sample_hist :: hist where
  "sample_hist = fold recordNs [10, 20, 30, 40] new_hist"

theorem percentile_accuracy_witness:
  "64 * \<bar>percentileNs (\<lambda>_. 0) (dbl 50) sample_hist - int (sort [40, 30, 20, 10] ! (rank (dbl 50) 4 - 1))\<bar>
     \<le> int (sort [40, 30, 20, 10] ! (rank (dbl 50) 4 - 1))"
proof -
  have "hist_rep sample_hist [40, 30, 20, 10]"
    using hist_rep_fold[OF _ hist_rep_new, of "[10, 20, 30, 40]"] by (simp add: sample_hist_def in_i64_def)
  moreover have "length [40, 30, 20, 10 :: nat] = 4" by simp
  ultimately show ?thesis
    using percentile_accuracy[of sample_hist "[40, 30, 20, 10]" "dbl 50" "\<lambda>_. 0"]
    by (simp only: dbl_eval) (simp add: dbl_eval)
qed

end
