(* ===== verification/Circuit_Breaker.thy ===== *)
theory Circuit_Breaker
  imports Prelude
begin

text \<open>
  The circuit breaker of \<^verbatim>\<open>include/trading/exec/circuit_breaker.hpp\<close>: it trips when the
  errors of the current window of messages reach a threshold, and only a window without an error
  untrips it. All calls come from the strategy thread, one at a time.
\<close>

section \<open>State and operations\<close>

record breaker =
  threshold :: u64
  windowMessages :: u64
  msgs :: u64
  errors :: u64
  tripped :: bool

definition new_breaker :: "u64 \<Rightarrow> u64 \<Rightarrow> breaker" where
  "new_breaker t w = \<lparr>threshold = t, windowMessages = w, msgs = 0, errors = 0, tripped = False\<rparr>"

definition recordMessage :: "breaker \<Rightarrow> breaker" where
  "recordMessage b =
     (if windowMessages b = 0 then b
      else let n = msgs b + 1; b' = b\<lparr>msgs := n\<rparr> in
        if n mod windowMessages b = 0
        then b'\<lparr>errors := 0, tripped := (if errors b = 0 then False else tripped b)\<rparr>
        else b')"

definition recordError :: "breaker \<Rightarrow> breaker" where
  "recordError b = (let e = errors b + 1; b' = b\<lparr>errors := e\<rparr> in
     if threshold b \<le> e then b'\<lparr>tripped := True\<rparr> else b')"

definition isTripped :: "breaker \<Rightarrow> bool" where
  "isTripped b = tripped b"

definition reset :: "breaker \<Rightarrow> breaker" where
  "reset b = b\<lparr>tripped := False, errors := 0\<rparr>"

section \<open>Sequences of calls\<close>

datatype breaker_call = Message | Failure

primrec breaker_step :: "breaker_call \<Rightarrow> breaker \<Rightarrow> breaker" where
  "breaker_step Message b = recordMessage b"
| "breaker_step Failure b = recordError b"

definition breaker_run :: "breaker_call list \<Rightarrow> breaker \<Rightarrow> breaker" where
  "breaker_run cs b = fold breaker_step cs b"

lemma breaker_run_simps [simp]:
  "breaker_run [] b = b" "breaker_run (c # cs) b = breaker_run cs (breaker_step c b)"
  by (simp_all add: breaker_run_def)

lemma breaker_run_append [simp]: "breaker_run (cs @ ds) b = breaker_run ds (breaker_run cs b)"
  by (simp add: breaker_run_def)

lemma step_config [simp]:
  "threshold (breaker_step c b) = threshold b" "windowMessages (breaker_step c b) = windowMessages b"
  by (cases c; simp add: recordMessage_def recordError_def Let_def)+

lemma run_config [simp]:
  "threshold (breaker_run cs b) = threshold b" "windowMessages (breaker_run cs b) = windowMessages b"
  by (induction cs arbitrary: b) simp_all

text \<open>The number of window ends among the next \<open>n\<close> messages.\<close>

definition window_ends :: "breaker \<Rightarrow> nat \<Rightarrow> nat" where
  "window_ends b n = (unat (msgs b) + n) div unat (windowMessages b) - unat (msgs b) div unat (windowMessages b)"

lemma window_ends_Suc:
  assumes "windowMessages b \<noteq> 0"
  shows "window_ends b (Suc n) = window_ends b n + (if (unat (msgs b) + Suc n) mod unat (windowMessages b) = 0 then 1 else 0)"
proof -
  define w m where "w = unat (windowMessages b)" and "m = unat (msgs b)"
  have w: "0 < w" using assms by (simp add: w_def unat_gt_0)
  have "m div w \<le> (m + n) div w" by (intro div_le_mono) simp
  then show ?thesis unfolding window_ends_def w_def[symmetric] m_def[symmetric]
    using w by (simp add: div_Suc)
qed

lemma message_fields:
  assumes "windowMessages b \<noteq> 0" "unat (msgs b) + 1 < 2 ^ 64"
  shows "unat (msgs (recordMessage b)) = unat (msgs b) + 1"
    "(msgs b + 1) mod windowMessages b = 0 \<longleftrightarrow> (unat (msgs b) + 1) mod unat (windowMessages b) = 0"
proof -
  have u: "unat (msgs b + 1) = unat (msgs b) + 1"
    using assms(2) by (rule unat_inc)
  then show "unat (msgs (recordMessage b)) = unat (msgs b) + 1"
    using assms(1) by (simp add: recordMessage_def Let_def)
  show "(msgs b + 1) mod windowMessages b = 0 \<longleftrightarrow> (unat (msgs b) + 1) mod unat (windowMessages b) = 0"
    using u by (simp add: unat_mod flip: unat_eq_0)
qed

text \<open>A run of messages: what it does depends only on the number of window ends in it.\<close>

lemma messages_run:
  assumes "windowMessages b \<noteq> 0" "unat (msgs b) + n < 2 ^ 64"
  shows "unat (msgs (breaker_run (replicate n Message) b)) = unat (msgs b) + n"
    and "errors (breaker_run (replicate n Message) b) = (if window_ends b n = 0 then errors b else 0)"
    and "tripped (breaker_run (replicate n Message) b) \<longleftrightarrow>
           tripped b \<and> (window_ends b n = 0 \<or> window_ends b n = 1 \<and> errors b \<noteq> 0)"
proof -
  have "unat (msgs (breaker_run (replicate n Message) b)) = unat (msgs b) + n \<and>
    errors (breaker_run (replicate n Message) b) = (if window_ends b n = 0 then errors b else 0) \<and>
    (tripped (breaker_run (replicate n Message) b) \<longleftrightarrow>
      tripped b \<and> (window_ends b n = 0 \<or> window_ends b n = 1 \<and> errors b \<noteq> 0))"
    using assms(2)
  proof (induction n)
    case (Suc n)
    define c where "c = breaker_run (replicate n Message) b"
    have ih: "unat (msgs c) = unat (msgs b) + n" "errors c = (if window_ends b n = 0 then errors b else 0)"
      "tripped c \<longleftrightarrow> tripped b \<and> (window_ends b n = 0 \<or> window_ends b n = 1 \<and> errors b \<noteq> 0)"
      using Suc by (simp_all add: c_def)
    have w: "windowMessages c = windowMessages b" by (simp add: c_def)
    note f = message_fields[of c, unfolded w ih(1), OF assms(1)]
    have r: "breaker_run (replicate (Suc n) Message) b = recordMessage c"
      by (simp only: replicate_Suc replicate_append_same[symmetric] breaker_run_append c_def) simp
    have lt: "unat (msgs b) + n + 1 < 2 ^ 64" using Suc.prems by simp
    show ?case unfolding r window_ends_Suc[OF assms(1)] using f[OF lt] ih w assms(1)
      by (auto simp: recordMessage_def Let_def)
  qed (simp add: window_ends_def)
  then show "unat (msgs (breaker_run (replicate n Message) b)) = unat (msgs b) + n"
    "errors (breaker_run (replicate n Message) b) = (if window_ends b n = 0 then errors b else 0)"
    "tripped (breaker_run (replicate n Message) b) \<longleftrightarrow>
      tripped b \<and> (window_ends b n = 0 \<or> window_ends b n = 1 \<and> errors b \<noteq> 0)" by auto
qed

lemma window_ends_two:
  assumes "windowMessages b \<noteq> 0" "2 * unat (windowMessages b) \<le> n" shows "2 \<le> window_ends b n"
proof -
  define w m where "w = unat (windowMessages b)" and "m = unat (msgs b)"
  have w: "0 < w" using assms by (simp add: w_def unat_gt_0)
  have "m div w + 2 = (m + 2 * w) div w" using w by simp
  also have "\<dots> \<le> (m + n) div w" using assms(2) by (intro div_le_mono) (simp add: w_def)
  finally show ?thesis by (simp add: window_ends_def w_def m_def)
qed

text \<open>Within one window, messages and failures in any order: the failures add up.\<close>

lemma run_within_window:
  assumes "windowMessages b \<noteq> 0" "window_ends b (count_list cs Message) = 0"
    "unat (msgs b) + count_list cs Message < 2 ^ 64" "unat (errors b) + count_list cs Failure < 2 ^ 64"
  shows "unat (msgs (breaker_run cs b)) = unat (msgs b) + count_list cs Message \<and>
    unat (errors (breaker_run cs b)) = unat (errors b) + count_list cs Failure \<and>
    (tripped (breaker_run cs b) \<longleftrightarrow> tripped b \<or>
      0 < count_list cs Failure \<and> unat (threshold b) \<le> unat (errors b) + count_list cs Failure)"
  using assms(2-4)
proof (induction cs rule: rev_induct)
  case (snoc c cs)
  define d where "d = breaker_run cs b"
  have cfg: "windowMessages d = windowMessages b" "threshold d = threshold b" by (simp_all add: d_def)
  show ?case
  proof (cases c)
    case Message
    have e: "window_ends b (count_list cs Message) = 0"
      "(unat (msgs b) + Suc (count_list cs Message)) mod unat (windowMessages b) \<noteq> 0"
      using snoc.prems(1) by (auto simp: Message window_ends_Suc[OF assms(1)] split: if_splits)
    then have ih: "unat (msgs d) = unat (msgs b) + count_list cs Message"
      "unat (errors d) = unat (errors b) + count_list cs Failure"
      "tripped d \<longleftrightarrow> tripped b \<or> 0 < count_list cs Failure \<and> unat (threshold b) \<le> unat (errors b) + count_list cs Failure"
      using snoc by (simp_all add: Message d_def)
    have lt: "unat (msgs b) + count_list cs Message + 1 < 2 ^ 64" using snoc.prems(2) by (simp add: Message)
    note f = message_fields[of d, unfolded cfg ih(1), OF assms(1) lt]
    have "recordMessage d = d\<lparr>msgs := msgs d + 1\<rparr>"
      using f(2) e(2) assms(1) by (simp add: recordMessage_def Let_def cfg)
    then show ?thesis using f(1) ih by (simp add: Message d_def[symmetric])
  next
    case Failure
    have ih: "unat (msgs d) = unat (msgs b) + count_list cs Message"
      "unat (errors d) = unat (errors b) + count_list cs Failure"
      "tripped d \<longleftrightarrow> tripped b \<or> 0 < count_list cs Failure \<and> unat (threshold b) \<le> unat (errors b) + count_list cs Failure"
      using snoc by (simp_all add: Failure d_def)
    have u: "unat (errors d + 1) = unat (errors b) + Suc (count_list cs Failure)"
      using ih(2) snoc.prems(3) unat_inc[of "errors d"] by (simp add: Failure)
    then have "threshold d \<le> errors d + 1 \<longleftrightarrow> unat (threshold b) \<le> unat (errors b) + Suc (count_list cs Failure)"
      by (simp add: word_le_nat_alt cfg)
    then show ?thesis using ih u by (auto simp: Failure d_def[symmetric] recordError_def Let_def)
  qed
qed simp

section \<open>Properties of the breaker\<close>

text \<open>
  C38. The breaker trips: when, starting with no error in the current window, at least
  \<open>threshold\<close> errors are recorded before the window ends, in any order with the messages,
  orders are blocked at the end; with fewer, the state of the breaker is as before.
\<close>

theorem breaker_trips:
  assumes "windowMessages b \<noteq> 0" "errors b = 0" "threshold b \<noteq> 0"
    "window_ends b (count_list cs Message) = 0"
    "unat (msgs b) + count_list cs Message < 2 ^ 64" "count_list cs Failure < 2 ^ 64"
  shows "isTripped (breaker_run cs b) \<longleftrightarrow> isTripped b \<or> unat (threshold b) \<le> count_list cs Failure"
  using run_within_window[OF assms(1,4,5)] assms(2,3,6) by (auto simp: isTripped_def unat_gt_0 simp flip: unat_gt_0)

theorem breaker_trips_witness:
  "isTripped (breaker_run [Message, Failure, Message, Failure] (new_breaker 2 10))"
  using breaker_trips[of "new_breaker 2 10" "[Message, Failure, Message, Failure]"]
  by (simp add: new_breaker_def window_ends_def)

text \<open>
  Only a clean window untrips: a call that untrips the breaker is a message that ends a
  window in which no error was recorded.
\<close>

theorem breaker_untrips_only_clean:
  assumes "isTripped b" "\<not> isTripped (breaker_step c b)"
  shows "c = Message \<and> errors b = 0 \<and> windowMessages b \<noteq> 0 \<and> (msgs b + 1) mod windowMessages b = 0"
  using assms by (cases c) (auto simp: isTripped_def recordMessage_def recordError_def Let_def split: if_splits)

theorem breaker_untrips_only_clean_witness:
  "errors (breaker_run [Failure, Message, Message, Message] (new_breaker 1 2)) = 0"
  using breaker_untrips_only_clean[of "breaker_run [Failure, Message, Message, Message] (new_breaker 1 2)" Message]
  by (simp add: new_breaker_def isTripped_def recordMessage_def recordError_def)

text \<open>
  C39. The breaker recovers: after any two windows' worth of messages without an error it is
  not tripped, whatever state it was in.
\<close>

theorem breaker_recovers:
  assumes "windowMessages b \<noteq> 0" "2 * unat (windowMessages b) \<le> n" "unat (msgs b) + n < 2 ^ 64"
  shows "\<not> isTripped (breaker_run (replicate n Message) b)"
  using messages_run(3)[OF assms(1,3)] window_ends_two[OF assms(1,2)] by (simp add: isTripped_def)

theorem breaker_recovers_witness:
  "\<not> isTripped (breaker_run (replicate 4 Message) (recordError (new_breaker 1 2)))"
  by (rule breaker_recovers) (simp_all add: new_breaker_def recordError_def Let_def)

end
