(* ===== verification/Orders.thy ===== *)
theory Orders
  imports Core_Types
begin

text \<open>
  Orders, execution reports and signals (\<^verbatim>\<open>include/trading/exec/order_types.hpp\<close>,
  \<^verbatim>\<open>include/trading/strategy/signal.hpp\<close>), and the contract of a component that keeps state per
  symbol and consumes execution reports: the risk manager and the PnL tracker both do.
\<close>

record NewOrder =
  o_id :: OrderId
  o_symbolId :: SymbolId
  o_side :: Side
  o_price :: Price
  o_qty :: Qty
  o_createdNs :: Timestamp

record ExecutionReport =
  r_id :: OrderId
  r_symbolId :: SymbolId
  r_side :: Side
  r_isFill :: bool
  r_execPrice :: Price
  r_execQty :: Qty
  r_completedNs :: Timestamp

datatype SignalAction = NoAction | Buy | Sell

record Signal =
  s_action :: SignalAction
  s_price :: Price
  s_qty :: Qty
  s_ts :: Timestamp

definition signal_none :: Signal where
  "signal_none = \<lparr>s_action = NoAction, s_price = Price 0, s_qty = Qty 0, s_ts = 0\<rparr>"

definition isActionable :: "Signal \<Rightarrow> bool" where
  "isActionable s \<longleftrightarrow> s_action s \<noteq> NoAction"

record StrategyParams =
  depth_levels :: nat
  smoothing_window :: nat
  entry_imbalance :: double
  take_profit_bps :: double
  stop_loss_bps :: double
  max_spread_bps :: double
  trade_fraction :: double
  cooldown_s :: double
  allow_short :: bool

definition default_params :: StrategyParams where
  "default_params = \<lparr>depth_levels = 5, smoothing_window = 5, entry_imbalance = dbl (30 / 100),
     take_profit_bps = dbl 8, stop_loss_bps = dbl 8, max_spread_bps = dbl 5,
     trade_fraction = dbl (10 / 100), cooldown_s = dbl 2, allow_short = True\<rparr>"

text \<open>The factor \<^verbatim>\<open>side == Side::Bid ? 1.0 : -1.0\<close>, and the signed quantity of a side.\<close>

definition side_sign :: "Side \<Rightarrow> double" where
  "side_sign s = (if s = Bid then 1 else - 1)"

lemma signed_qty:
  assumes "is_fin q"
  shows "is_fin (q * side_sign s)" "dval (q * side_sign s) = (if s = Bid then dval q else - dval q)"
  using mult_sign[OF assms] by (simp_all add: side_sign_def)

section \<open>Consumers of execution reports\<close>

definition sym :: "SymbolId \<Rightarrow> nat" where
  "sym i = unat i"

lemma sym_inj: "sym i = sym j \<longleftrightarrow> i = j"
  by (simp add: sym_def word_unat_eq_iff)

locale fill_sink =
  fixes on_fill :: "ExecutionReport \<Rightarrow> 's \<Rightarrow> 's"
    and view :: "'s \<Rightarrow> SymbolId \<Rightarrow> 'v"
  assumes not_fill: "\<not> r_isFill r \<Longrightarrow> on_fill r s = s"
    and bad_symbol: "MAX_SYMBOLS \<le> sym (r_symbolId r) \<Longrightarrow> on_fill r s = s"
    and other_symbol: "i \<noteq> r_symbolId r \<Longrightarrow> view (on_fill r s) i = view s i"
begin

text \<open>Only the fills of a symbol count for it, in their order.\<close>

lemma fold_other: "\<forall>r \<in> set rs. r_symbolId r \<noteq> i \<or> \<not> r_isFill r \<Longrightarrow> view (fold on_fill rs s) i = view s i"
proof (induction rs arbitrary: s)
  case (Cons r rs)
  have "view (on_fill r s) i = view s i" using Cons.prems not_fill[of r s] other_symbol[of i r s] by auto
  then show ?case using Cons by simp
qed simp

lemma fold_fills: "fold on_fill rs s = fold on_fill (filter (\<lambda>r. r_isFill r \<and> sym (r_symbolId r) < MAX_SYMBOLS) rs) s"
  by (induction rs arbitrary: s) (auto simp: not_fill bad_symbol not_less)

end

end
