(* ===== verification/Float_Error.thy ===== *)
theory Float_Error
  imports Core_Types
begin

text \<open>
  Relative error of sums, products and quotients of non-negative doubles. \<open>near k x y\<close> says
  that \<open>x\<close> and \<open>y\<close> differ by at most \<open>k\<close> roundings: each is at most the other times
  \<open>(1 + 2 ^ -52) ^ k\<close>. The relation is closed under the operations, so an error bound is
  obtained by counting operations.
\<close>

section \<open>Counting roundings\<close>

definition ee :: rat where
  "ee = 1 + 1 / 2 ^ 52"

definition near :: "nat \<Rightarrow> rat \<Rightarrow> rat \<Rightarrow> bool" where
  "near k x y \<longleftrightarrow> x \<le> y * ee ^ k \<and> y \<le> x * ee ^ k"

lemma ee_pos [simp]: "0 < ee" "0 \<le> ee" "1 \<le> ee" "0 < ee ^ k" "0 \<le> ee ^ k" "1 \<le> ee ^ k"
  by (simp_all add: ee_def)

lemma near_refl: "near 0 x x"
  by (simp add: near_def)

lemma near_nonneg: "near k x y \<Longrightarrow> 0 \<le> y \<Longrightarrow> 0 \<le> x"
  using mult_le_cancel_right_pos[of "ee ^ k" 0 x] by (simp add: near_def)

lemma near_trans: assumes "near k x y" "near l y z" shows "near (k + l) x z"
proof -
  have a: "x \<le> y * ee ^ k" "y \<le> x * ee ^ k" "y \<le> z * ee ^ l" "z \<le> y * ee ^ l"
    using assms by (auto simp: near_def)
  have "y * ee ^ k \<le> (z * ee ^ l) * ee ^ k" "y * ee ^ l \<le> (x * ee ^ k) * ee ^ l"
    using a(2,3) by (simp_all add: mult_right_mono)
  from order_trans[OF a(1) this(1)] order_trans[OF a(4) this(2)]
  show ?thesis by (simp add: near_def power_add ac_simps)
qed

lemma near_mono: assumes "near k x y" "k \<le> l" "0 \<le> x" "0 \<le> y" shows "near l x y"
proof -
  have "ee ^ k \<le> ee ^ l" using assms(2) by (intro power_increasing) simp_all
  then have "y * ee ^ k \<le> y * ee ^ l" "x * ee ^ k \<le> x * ee ^ l" using assms(3,4) by (auto intro: mult_left_mono)
  then show ?thesis using assms(1) by (auto simp: near_def)
qed

lemma near_add: "near k a b \<Longrightarrow> near k c d \<Longrightarrow> near k (a + c) (b + d)"
  by (simp add: near_def distrib_right)

lemma near_mult:
  assumes "near k a b" "near l c d" "0 \<le> b" "0 \<le> d" shows "near (k + l) (a * c) (b * d)"
proof -
  have n: "0 \<le> a" "0 \<le> c" using near_nonneg assms by blast+
  have "a * c \<le> (b * ee ^ k) * (d * ee ^ l)" "b * d \<le> (a * ee ^ k) * (c * ee ^ l)"
    using assms n by (auto simp: near_def intro!: mult_mono)
  then show ?thesis by (simp add: near_def power_add ac_simps)
qed

lemma near_inverse: assumes "near k a b" "0 < b" "0 < a" shows "near k (1 / a) (1 / b)"
  using assms by (simp add: near_def field_simps)

lemma near_divide:
  assumes "near k a b" "near l c d" "0 \<le> b" "0 < d" "0 < c" shows "near (k + l) (a / c) (b / d)"
  using near_mult[OF assms(1) near_inverse[OF assms(2,4,5)]] assms(3,4) by simp

text \<open>One rounding with the relative error bound of the format.\<close>

lemma near_round: assumes "\<bar>r - x\<bar> \<le> \<bar>x\<bar> / 2 ^ 53" "0 \<le> x" shows "near 1 r x"
proof -
  have "r \<le> x + x / 2 ^ 53" "x - x / 2 ^ 53 \<le> r" using assms by linarith+
  moreover have "x + x / 2 ^ 53 \<le> x * ee" "x \<le> (x - x / 2 ^ 53) * ee" using assms(2) by (simp_all add: ee_def field_simps)
  moreover have "(x - x / 2 ^ 53) * ee \<le> r * ee" using \<open>x - x / 2 ^ 53 \<le> r\<close> by (rule mult_right_mono) simp
  ultimately show ?thesis unfolding near_def power_one_right by (blast intro: order_trans)
qed

lemma power_small:
  assumes "0 \<le> d" "2 * of_nat n * d \<le> (1 :: rat)" shows "(1 + d) ^ n \<le> 1 + 2 * of_nat n * d"
  using assms(2)
proof (induction n)
  case (Suc n)
  have "2 * of_nat n * d \<le> 1" using Suc.prems assms(1) by (simp add: algebra_simps)
  from Suc.IH[OF this] have "(1 + d) ^ n * (1 + d) \<le> (1 + 2 * of_nat n * d) * (1 + d)"
    using assms(1) by (intro mult_right_mono) simp_all
  moreover have "2 * of_nat n * d * d \<le> 1 * d" using \<open>2 * of_nat n * d \<le> 1\<close> assms(1) by (intro mult_right_mono)
  ultimately show ?case by (simp add: algebra_simps)
qed simp

lemma ee_power_small: "ee ^ 32 \<le> 1 + 1 / 2 ^ 46" "ee ^ 64 \<le> 1 + 1 / 2 ^ 45" "ee ^ 128 \<le> 1 + 1 / 2 ^ 44"
  using power_small[of "1 / 2 ^ 52" 32, folded ee_def] power_small[of "1 / 2 ^ 52" 64, folded ee_def]
    power_small[of "1 / 2 ^ 52" 128, folded ee_def] by simp_all

lemma near_rnd: assumes "p2 (- 1022) \<le> q" shows "near 1 (rnd q) q"
proof -
  have q: "0 < q" using assms p2_pos[of "- 1022"] by (rule less_le_trans[rotated])
  have "\<bar>rnd q - q\<bar> \<le> \<bar>q\<bar> / 2 ^ 53" by (rule rnd_error_rel) (use assms q in \<open>simp only: abs_of_pos\<close>)
  then show ?thesis using q by (intro near_round) simp_all
qed

section \<open>Operations\<close>

lemma add_near:
  assumes "is_fin x" "is_fin y" "0 \<le> dval x" "0 \<le> dval y" "rep c" "dval x + dval y \<le> c"
  shows "is_fin (x + y)" "near 1 (dval (x + y)) (dval x + dval y)" "0 \<le> dval (x + y)"
proof -
  have "\<bar>dval x + dval y\<bar> \<le> c" using assms(3,4,6) by simp
  note b = add_bound[OF assms(1,2,5) this]
  show "is_fin (x + y)" by (rule b)
  show "near 1 (dval (x + y)) (dval x + dval y)"
    unfolding b(2) using rnd_sum_error[of "dval x" "dval y"] assms(3,4) by (intro near_round) simp_all
  show "0 \<le> dval (x + y)" using assms(3,4) by (simp add: b(2) rnd_nonneg)
qed

lemma diff_near:
  assumes "is_fin x" "is_fin y" "0 \<le> dval y" "dval y \<le> dval x"
  shows "is_fin (x - y)" "near 1 (dval (x - y)) (dval x - dval y)" "0 \<le> dval (x - y)"
proof -
  have "\<bar>dval x - dval y\<bar> \<le> \<bar>dval x\<bar>" "rep \<bar>dval x\<bar>" using assms(3,4) by simp_all
  note b = diff_bound[OF assms(1,2) this(2,1)]
  show "is_fin (x - y)" by (rule b)
  show "near 1 (dval (x - y)) (dval x - dval y)"
    unfolding b(2) using rnd_sum_error[of "dval x" "- dval y"] assms(4) by (intro near_round) (simp_all add: rnd_minus)
  show "0 \<le> dval (x - y)" using assms(4) by (simp add: b(2) rnd_nonneg)
qed

lemma mult_near:
  assumes "is_fin x" "is_fin y" "p2 (- 1022) \<le> dval x * dval y" "rep c" "dval x * dval y \<le> c"
  shows "is_fin (x * y)" "near 1 (dval (x * y)) (dval x * dval y)"
proof -
  have p: "0 < dval x * dval y" using assms(3) p2_pos[of "- 1022"] by linarith
  then have "\<bar>dval x * dval y\<bar> \<le> c" using assms(5) by simp
  note b = mult_bound[OF assms(1,2,4) this]
  show "is_fin (x * y)" by (rule b)
  show "near 1 (dval (x * y)) (dval x * dval y)"
    unfolding b(2) using assms(3) by (rule near_rnd)
qed

lemma divide_near:
  assumes "is_fin x" "is_fin y" "0 < dval y" "p2 (- 1022) \<le> dval x / dval y" "rep c" "dval x / dval y \<le> c"
  shows "is_fin (x / y)" "near 1 (dval (x / y)) (dval x / dval y)"
proof -
  have p: "0 < dval x / dval y" using assms(4) p2_pos[of "- 1022"] by linarith
  then have "\<bar>dval x / dval y\<bar> \<le> c" "dval y \<noteq> 0" using assms(3,6) by simp_all
  note b = divide_bound[OF assms(1,2) this(2) assms(5) this(1)]
  show "is_fin (x / y)" by (rule b)
  show "near 1 (dval (x / y)) (dval x / dval y)"
    unfolding b(2) using assms(4) by (rule near_rnd)
qed

text \<open>A loop that adds up non-negative doubles loses at most one rounding per term.\<close>

lemma sum_near:
  assumes "is_fin a" "0 \<le> dval a" "\<forall>x \<in> set xs. is_fin x \<and> 0 \<le> dval x" "rep c"
    "(dval a + sum_list (map dval xs)) * ee ^ length xs \<le> c"
  shows "is_fin (foldl (+) a xs) \<and> 0 \<le> dval (foldl (+) a xs) \<and>
    near (length xs) (dval (foldl (+) a xs)) (dval a + sum_list (map dval xs))"
  using assms(1-3,5)
proof (induction xs arbitrary: a)
  case (Cons x xs)
  define s where "s = sum_list (map dval xs)"
  have s: "0 \<le> s" unfolding s_def using Cons.prems(3) by (intro sum_list_nonneg) auto
  have x: "is_fin x" "0 \<le> dval x" using Cons.prems(3) by simp_all
  have "dval a + dval x \<le> (dval a + dval x + s) * ee ^ length (x # xs)"
    using mult_mono[of "dval a + dval x" "dval a + dval x + s" 1 "ee ^ length (x # xs)"] s x(2) Cons.prems(2) ee_pos(6)[of "length (x # xs)"] by simp
  also have "\<dots> \<le> c" using Cons.prems(4) by (simp add: s_def add.assoc)
  finally have "dval a + dval x \<le> c" .
  note n = add_near[OF Cons.prems(1) x(1) Cons.prems(2) x(2) assms(4) this]
  have near: "near 1 (dval (a + x) + s) (dval a + dval x + s)"
    by (rule near_add[OF n(2) near_mono[OF near_refl]]) (use s in simp_all)
  then have "(dval (a + x) + s) * ee ^ length xs \<le> (dval a + dval x + s) * ee * ee ^ length xs"
    by (intro mult_right_mono) (simp_all add: near_def)
  also have "\<dots> \<le> c" using Cons.prems(4) by (simp add: s_def algebra_simps)
  finally have ih: "is_fin (foldl (+) (a + x) xs) \<and> 0 \<le> dval (foldl (+) (a + x) xs) \<and>
      near (length xs) (dval (foldl (+) (a + x) xs)) (dval (a + x) + s)"
    unfolding s_def using Cons.prems(3) by (intro Cons.IH n) auto
  with near_trans[OF _ near, of "length xs"] show ?case by (simp add: s_def add.assoc)
qed (simp add: near_refl)

section \<open>A range without over- and underflow\<close>

text \<open>
  Sizes and prices between \<open>tiny\<close> and \<open>big\<close>: their products and quotients, and sums of a few
  thousand of them, are far from the limits of the format.
\<close>

definition big :: rat where "big = p2 400"

definition tiny :: rat where "tiny = p2 (- 400)"

lemma rep_p2: "- 1074 \<le> e \<Longrightarrow> e < 1024 \<Longrightarrow> rep (p2 e)"
  using rnd_exact[of 1 e] p2_less_iff[of e 1024] by (simp add: rep_def dbl_limit_def)

lemma big_props: "0 < tiny" "0 < big" "rep (2 * big)" "rep (64 * big * big)" "p2 (- 1022) \<le> tiny * tiny / 4"
proof -
  show "0 < tiny" "0 < big" by (simp_all add: tiny_def big_def)
  have "2 * big = p2 401" using p2_add[of 1 400] by (simp add: big_def)
  then show "rep (2 * big)" by (simp only: rep_p2)
  have "64 * big * big = p2 806" using p2_add[of 6 800] p2_add[of 400 400] by (simp add: big_def)
  then show "rep (64 * big * big)" by (simp only: rep_p2)
  have "tiny * tiny / 4 = p2 (- 802)" using p2_diff[of "- 800" 2] p2_add[of "- 400" "- 400"] by (simp add: tiny_def)
  then show "p2 (- 1022) \<le> tiny * tiny / 4" by (simp only: p2_mono)
qed

definition normal :: "double \<Rightarrow> bool" where
  "normal x \<longleftrightarrow> is_fin x \<and> tiny \<le> dval x \<and> dval x \<le> big"

lemma normal_pos: "normal x \<Longrightarrow> is_fin x \<and> 0 < dval x"
  using big_props(1) by (auto simp: normal_def intro: less_le_trans)

lemma big_ge: "1 \<le> big" "tiny \<le> 1" "p2 (- 1022) \<le> tiny / 2" "rep (2 * big * big)"
proof -
  show "1 \<le> big" "tiny \<le> 1" using p2_mono[of 0 400] p2_mono[of "- 400" 0] by (simp_all add: big_def tiny_def)
  have "tiny / 2 = p2 (- 401)" using p2_diff[of "- 400" 1] by (simp add: tiny_def)
  then show "p2 (- 1022) \<le> tiny / 2" by (simp only: p2_mono)
  have "2 * big * big = p2 801" using p2_add[of 1 800] p2_add[of 400 400] by (simp add: big_def)
  then show "rep (2 * big * big)" by (simp only: rep_p2)
qed

lemma normal_mult:
  assumes "normal x" "normal y"
  shows "is_fin (x * y)" "near 1 (dval (x * y)) (dval x * dval y)" "0 < dval x * dval y" "dval x * dval y \<le> big * big"
    "0 \<le> dval (x * y)"
proof -
  have b: "tiny \<le> dval x" "tiny \<le> dval y" "dval x \<le> big" "dval y \<le> big" "is_fin x" "is_fin y"
    using assms by (auto simp: normal_def)
  show p: "0 < dval x * dval y" using normal_pos assms by simp
  have "tiny * tiny \<le> dval x * dval y" using b big_props(1) by (intro mult_mono) auto
  moreover have "p2 (- 1022) \<le> tiny * tiny" using big_props(1,5) by (auto intro: order_trans)
  ultimately have lo: "p2 (- 1022) \<le> dval x * dval y" by linarith
  show hi: "dval x * dval y \<le> big * big" using b big_props(1,2) by (intro mult_mono) auto
  have "big * big \<le> 2 * big * big" by simp
  with hi have hi2: "dval x * dval y \<le> 2 * big * big" by linarith
  note m = mult_near[OF b(5,6) lo big_ge(4) hi2]
  show "is_fin (x * y)" "near 1 (dval (x * y)) (dval x * dval y)" by (fact m)+
  then show "0 \<le> dval (x * y)" using near_nonneg p by (meson less_imp_le)
qed

text \<open>Sums of lists of near values, and the weighted mean.\<close>

lemma near_sum_list: "\<forall>x \<in> set xs. near k (f x) (g x) \<Longrightarrow> near k (sum_list (map f xs)) (sum_list (map g xs))"
  by (induction xs) (auto intro: near_add simp: near_def[of k 0 0])

lemma sum_list_bound: "\<forall>x \<in> set xs. f x \<le> (c :: rat) \<Longrightarrow> sum_list (map f xs) \<le> of_nat (length xs) * c"
  by (induction xs) (auto simp: algebra_simps intro: add_mono)

lemma weighted_mean:
  fixes lo hi :: rat
  assumes "\<forall>x \<in> set xs. 0 \<le> f x \<and> lo \<le> p x \<and> p x \<le> hi"
  shows "lo * sum_list (map f xs) \<le> sum_list (map (\<lambda>x. f x * p x) xs)" "sum_list (map (\<lambda>x. f x * p x) xs) \<le> hi * sum_list (map f xs)"
proof -
  have "lo * f x \<le> f x * p x" "f x * p x \<le> hi * f x" if "x \<in> set xs" for x
    using assms that by (simp_all add: mult.commute[of _ "f x"] mult_left_mono)
  then show "lo * sum_list (map f xs) \<le> sum_list (map (\<lambda>x. f x * p x) xs)"
    "sum_list (map (\<lambda>x. f x * p x) xs) \<le> hi * sum_list (map f xs)"
    unfolding sum_list_const_mult[symmetric] by (intro sum_list_mono; simp)+
qed

lemma ee_power_two: "k \<le> 128 \<Longrightarrow> ee ^ k \<le> 2"
  using power_increasing[of k 128 ee] ee_pos(3) ee_power_small(3) by simp

lemma near_pos: "near k x y \<Longrightarrow> 0 < y \<Longrightarrow> 0 < x"
proof -
  assume a: "near k x y" "0 < y"
  then have "0 < x * ee ^ k" by (simp add: near_def less_le_trans)
  then show ?thesis using ee_pos(1) by (auto simp: zero_less_mult_iff)
qed

text \<open>The sum of up to 32 amounts, as a loop adds them up.\<close>

lemma amounts_near:
  assumes "xs \<noteq> []" "length xs \<le> 32" "\<forall>x \<in> set xs. is_fin x \<and> 0 < dval x \<and> dval x \<le> 2 * big * big"
  shows "is_fin (foldl (+) 0 xs)" "near 32 (dval (foldl (+) 0 xs)) (sum_list (map dval xs))" "0 < sum_list (map dval xs)"
proof -
  define s where "s = sum_list (map dval xs)"
  show s0: "0 < sum_list (map dval xs)"
  proof (cases xs)
    case (Cons x ys)
    have "0 \<le> sum_list (map dval ys)" using assms(3) Cons by (intro sum_list_nonneg) (auto simp: less_imp_le)
    then show ?thesis using assms(3) Cons by (simp add: add_pos_nonneg)
  qed (use assms(1) in simp)
  have "128 * big * big = p2 807" using p2_add[of 7 800] p2_add[of 400 400] by (simp add: big_def)
  then have r: "rep (128 * big * big)" by (simp only: rep_p2)
  have "s \<le> of_nat (length xs) * (2 * big * big)" unfolding s_def using assms(3) by (intro sum_list_bound) blast
  also have "\<dots> \<le> 32 * (2 * big * big)" using assms(2) big_props(2) by (intro mult_right_mono) simp_all
  finally have "s * ee ^ length xs \<le> (32 * (2 * big * big)) * 2"
    using ee_power_two[of "length xs"] assms(2) s0 big_props(2) by (intro mult_mono) (simp_all add: s_def)
  then have b: "(dval 0 + sum_list (map dval xs)) * ee ^ length xs \<le> 128 * big * big" by (simp add: s_def mult.assoc)
  have "\<forall>x \<in> set xs. is_fin x \<and> 0 \<le> dval x" using assms(3) less_imp_le by blast
  from sum_near[OF is_fin_0 _ this r b]
  have n: "is_fin (foldl (+) 0 xs)" "0 \<le> dval (foldl (+) 0 xs)" "near (length xs) (dval (foldl (+) 0 xs)) (sum_list (map dval xs))"
    by simp_all
  show "is_fin (foldl (+) 0 xs)" by (rule n)
  show "near 32 (dval (foldl (+) 0 xs)) (sum_list (map dval xs))" using near_mono[OF n(3) assms(2) n(2)] s0 by simp
qed

text \<open>
  The volume-weighted mean of up to 32 fills as the code computes it, the quotient of two running
  sums: it is within 66 roundings of the bounds of the prices.
\<close>

lemma average_near:
  fixes xs :: "(double \<times> double) list"
  assumes "xs \<noteq> []" "length xs \<le> 32" "\<forall>x \<in> set xs. normal (fst x) \<and> normal (snd x) \<and> lo \<le> dval (snd x) \<and> dval (snd x) \<le> hi"
    "tiny \<le> lo" "hi \<le> big"
  defines "F \<equiv> foldl (+) 0 (map fst xs)" and "C \<equiv> foldl (+) 0 (map (\<lambda>(f, p). f * p) xs)"
  shows "is_fin (C / F)" "lo \<le> dval (C / F) * ee ^ 66" "dval (C / F) \<le> hi * ee ^ 66"
proof -
  let ?f = "\<lambda>x. dval (fst x)" and ?p = "\<lambda>x. dval (snd x)"
  define s m where "s = sum_list (map ?f xs)" and "m = sum_list (map (\<lambda>x. ?f x * ?p x) xs)"
  have big: "big * 1 \<le> 2 * big * big" using big_ge(1) big_props(2) by (intro mult_mono) simp_all
  have fp: "0 < ?f x" "is_fin (fst x)" "?f x \<le> 2 * big * big" if "x \<in> set xs" for x
    using assms(3) that normal_pos big by (fastforce simp: normal_def)+
  have pr: "is_fin (fst x * snd x) \<and> near 1 (dval (fst x * snd x)) (?f x * ?p x) \<and> 0 < dval (fst x * snd x) \<and> dval (fst x * snd x) \<le> 2 * big * big"
    if "x \<in> set xs" for x
  proof -
    note n = normal_mult[of "fst x" "snd x"]
    have "dval (fst x * snd x) \<le> ?f x * ?p x * ee" using n(2) assms(3) that by (simp add: near_def)
    also have "\<dots> \<le> big * big * 2" using n(3,4) assms(3) that by (rule_tac mult_mono) (simp_all add: ee_def less_imp_le)
    finally show ?thesis using n assms(3) that near_pos by auto
  qed
  have F: "is_fin F" "near 32 (dval F) s" "0 < s"
    using amounts_near[of "map fst xs"] assms(1,2) fp by (auto simp: F_def s_def comp_def)
  have pm: "map (\<lambda>(f, p). f * p) xs = map (\<lambda>x. fst x * snd x) xs" by (simp add: case_prod_beta)
  have C: "is_fin C" "near 32 (dval C) (sum_list (map (\<lambda>x. dval (fst x * snd x)) xs))" "0 < sum_list (map (\<lambda>x. dval (fst x * snd x)) xs)"
    using amounts_near[of "map (\<lambda>x. fst x * snd x) xs"] assms(1,2) pr by (auto simp: C_def pm comp_def)
  have mm: "near 1 (sum_list (map (\<lambda>x. dval (fst x * snd x)) xs)) m" unfolding m_def using pr by (intro near_sum_list) blast
  have A: "lo \<le> m / s" "m / s \<le> hi"
    using weighted_mean[of xs ?f lo ?p hi] assms(3) fp F(3) by (auto simp: m_def s_def field_simps less_imp_le)
  have F0: "0 < dval F" using near_pos[OF F(2,3)] .
  have "0 < m / s" using A(1) assms(4) big_props(1) by linarith
  then have m0: "0 \<le> m" using F(3) by (simp add: zero_less_divide_iff)
  have "near 33 (dval C) m" using near_trans[OF C(2) mm] by simp
  from near_divide[OF this F(2) m0 F(3) F0] have q: "near 65 (dval C / dval F) (m / s)" by simp
  have c0: "0 \<le> dval C / dval F" using near_pos[OF q \<open>0 < m / s\<close>] by simp
  have "lo \<le> dval C / dval F * ee ^ 65" using q A(1) by (simp add: near_def)
  also have "\<dots> \<le> dval C / dval F * 2" using ee_power_two[of 65] c0 by (intro mult_left_mono) simp_all
  finally have "tiny / 2 \<le> dval C / dval F" using assms(4) by simp
  with big_ge(3) have lo: "p2 (- 1022) \<le> dval C / dval F" by (rule order_trans)
  have "dval C / dval F \<le> m / s * ee ^ 65" using q by (simp add: near_def)
  also have "\<dots> \<le> big * 2" using A assms(4,5) big_props(1) ee_power_two[of 65] by (intro mult_mono) simp_all
  finally have hi: "dval C / dval F \<le> 2 * big" by simp
  note d = divide_near[OF C(1) F(1) F0 lo big_props(3) hi]
  show "is_fin (C / F)" by (rule d)
  have nr: "dval (C / F) \<le> m / s * ee ^ 66" "m / s \<le> dval (C / F) * ee ^ 66" using near_trans[OF d(2) q] unfolding near_def by simp_all
  show "lo \<le> dval (C / F) * ee ^ 66" using A(1) nr(2) by (rule order_trans)
  have "m / s * ee ^ 66 \<le> hi * ee ^ 66" using A(2) by (rule mult_right_mono) simp
  with nr(1) show "dval (C / F) \<le> hi * ee ^ 66" by (rule order_trans)
qed

section \<open>The tolerance 1e-12\<close>

lemma pico_val:
  defines "x \<equiv> dbl (1 / 10 ^ 12)"
  shows "is_fin x" "0 < dval x" "tiny \<le> dval x" "dval x \<le> 1 / 10 ^ 12 * ee" "dval x < 2 / 10 ^ 12"
proof -
  have n: "p2 (- 1022) \<le> 1 / 10 ^ 12" using p2_mono[of "- 1022" "- 40"] by (simp add: power_int_minus field_simps)
  have r: "near 1 (rnd (1 / 10 ^ 12)) (1 / 10 ^ 12)" using n by (rule near_rnd)
  have "\<bar>rnd (1 / 10 ^ 12)\<bar> \<le> 1" by (rule rnd_bound) simp_all
  then have b: "\<bar>rnd (1 / 10 ^ 12)\<bar> < dbl_limit" by (rule le_less_trans) (simp add: dbl_limit_def)
  have v: "dval x = rnd (1 / 10 ^ 12)" unfolding x_def using b by (rule dval_dbl)
  show "is_fin x" unfolding x_def is_fin_dbl by (rule b)
  show up: "dval x \<le> 1 / 10 ^ 12 * ee" using r by (simp add: v near_def)
  have "tiny \<le> p2 (- 41)" unfolding tiny_def by (rule p2_mono) simp
  also have "\<dots> \<le> 1 / 10 ^ 12 / 2" by (simp add: power_int_minus field_simps)
  also have "\<dots> \<le> rnd (1 / 10 ^ 12)" using r by (simp add: near_def ee_def field_simps)
  finally show t: "tiny \<le> dval x" by (simp add: v)
  then show "0 < dval x" using big_props(1) by linarith
  have "1 / 10 ^ 12 * ee < 2 / 10 ^ 12" by (simp add: ee_def)
  with up show "dval x < 2 / 10 ^ 12" by (rule le_less_trans)
qed

end
