(* ===== verification/Risk_Manager.thy ===== *)
theory Risk_Manager
  imports Orders Float_Error
begin

text \<open>
  Pre-trade risk (\<^verbatim>\<open>include/trading/exec/risk_manager.hpp\<close>): a position limit and, when it is
  configured, a cash limit per symbol. The properties are about the double arithmetic itself: they
  use only that rounding is monotone.
\<close>

section \<open>State and operations\<close>

record risk =
  positions :: "double list"
  maxPositions :: "double list"
  rk_cash :: "double list"
  rk_tick :: double
  cashEnabled :: bool

definition new_risk :: risk where
  "new_risk = \<lparr>positions = replicate MAX_SYMBOLS 0, maxPositions = replicate MAX_SYMBOLS 0,
     rk_cash = replicate MAX_SYMBOLS 0, rk_tick = 0, cashEnabled = False\<rparr>"

definition configure :: "SymbolId \<Rightarrow> double \<Rightarrow> double \<Rightarrow> double \<Rightarrow> risk \<Rightarrow> risk" where
  "configure i maxPosition initialCash tickSize k =
     (if MAX_SYMBOLS \<le> sym i then k
      else let k' = k\<lparr>maxPositions := (maxPositions k)[sym i := maxPosition]\<rparr> in
        if 0 \<le> initialCash
        then k'\<lparr>rk_cash := (rk_cash k)[sym i := initialCash], cashEnabled := True, rk_tick := tickSize\<rparr>
        else k')"

definition approve :: "NewOrder \<Rightarrow> risk \<Rightarrow> bool" where
  "approve ord k =
     (if MAX_SYMBOLS \<le> sym (o_symbolId ord) then False
      else let i = sym (o_symbolId ord);
               delta = qvalue (o_qty ord) * side_sign (o_side ord);
               projected = positions k ! i + delta;
               maxPos = maxPositions k ! i in
        if maxPos < projected \<or> projected < - maxPos then False
        else if cashEnabled k \<and> o_side ord = Bid \<and>
                rk_cash k ! i < qvalue (o_qty ord) * toDouble (o_price ord) (rk_tick k) then False
        else True)"

definition onFill :: "ExecutionReport \<Rightarrow> risk \<Rightarrow> risk" where
  "onFill r k =
     (if \<not> r_isFill r \<or> MAX_SYMBOLS \<le> sym (r_symbolId r) then k
      else let i = sym (r_symbolId r);
               signedQty = qvalue (r_execQty r) * side_sign (r_side r);
               k' = k\<lparr>positions := (positions k)[i := positions k ! i + signedQty]\<rparr> in
        if cashEnabled k
        then k'\<lparr>rk_cash := (rk_cash k)[i := rk_cash k ! i - signedQty * toDouble (r_execPrice r) (rk_tick k)]\<rparr>
        else k')"

definition position :: "SymbolId \<Rightarrow> risk \<Rightarrow> double" where
  "position i k = (if sym i < MAX_SYMBOLS then positions k ! sym i else 0)"

definition cash :: "SymbolId \<Rightarrow> risk \<Rightarrow> double" where
  "cash i k = (if sym i < MAX_SYMBOLS then rk_cash k ! sym i else 0)"

section \<open>Well-formedness and isolation\<close>

definition risk_wf :: "risk \<Rightarrow> bool" where
  "risk_wf k \<longleftrightarrow> length (positions k) = MAX_SYMBOLS \<and> length (maxPositions k) = MAX_SYMBOLS \<and> length (rk_cash k) = MAX_SYMBOLS"

lemma risk_wf_ops:
  "risk_wf new_risk" "risk_wf k \<Longrightarrow> risk_wf (configure i m c t k)" "risk_wf k \<Longrightarrow> risk_wf (onFill r k)"
  by (simp_all add: risk_wf_def new_risk_def configure_def onFill_def Let_def)

interpretation rk: fill_sink onFill "\<lambda>k i. (position i k, cash i k)"
  by unfold_locales (auto simp: onFill_def position_def cash_def Let_def sym_inj)

lemma onFill_limits [simp]:
  "maxPositions (onFill r k) = maxPositions k" "rk_tick (onFill r k) = rk_tick k" "cashEnabled (onFill r k) = cashEnabled k"
  by (simp_all add: onFill_def Let_def)

section \<open>The position limit\<close>

definition limit :: "SymbolId \<Rightarrow> risk \<Rightarrow> double" where
  "limit i k = (if sym i < MAX_SYMBOLS then maxPositions k ! sym i else 0)"

definition within_limit :: "SymbolId \<Rightarrow> risk \<Rightarrow> bool" where
  "within_limit i k \<longleftrightarrow> is_fin (position i k) \<and> is_fin (limit i k) \<and> \<bar>dval (position i k)\<bar> \<le> dval (limit i k)"

text \<open>\<open>fill_of ord r\<close>: the report fills the order, with at most its quantity.\<close>

definition fill_of :: "NewOrder \<Rightarrow> ExecutionReport \<Rightarrow> bool" where
  "fill_of ord r \<longleftrightarrow> r_symbolId r = o_symbolId ord \<and> r_side r = o_side ord \<and>
     is_fin (qvalue (o_qty ord)) \<and> is_fin (qvalue (r_execQty r)) \<and>
     0 \<le> dval (qvalue (r_execQty r)) \<and> dval (qvalue (r_execQty r)) \<le> dval (qvalue (o_qty ord))"

lemma approve_projected:
  assumes "approve ord k" "is_fin (position (o_symbolId ord) k)" "is_fin (limit (o_symbolId ord) k)" "is_fin (qvalue (o_qty ord))"
  defines "d \<equiv> qvalue (o_qty ord) * side_sign (o_side ord)"
  shows "is_fin (position (o_symbolId ord) k + d)"
    "\<bar>dval (position (o_symbolId ord) k + d)\<bar> \<le> dval (limit (o_symbolId ord) k)"
proof -
  let ?i = "o_symbolId ord"
  have s: "sym ?i < MAX_SYMBOLS" using assms(1) by (simp add: approve_def split: if_splits)
  define x where "x = position ?i k + d"
  have a: "\<not> limit ?i k < x" "\<not> x < - limit ?i k"
    using assms(1) s by (auto simp: approve_def Let_def x_def position_def limit_def d_def split: if_splits)
  have n: "\<not> is_nan x" unfolding x_def d_def using assms(2) signed_qty(1)[OF assms(4)] by (rule fin_not_nan)
  then have "x \<le> limit ?i k" "- limit ?i k \<le> x" using a assms(3) by (simp_all add: d_not_less)
  then show f: "is_fin (position ?i k + d)" using is_fin_between[of "- limit ?i k" "limit ?i k" x] assms(3) by (simp add: x_def)
  then show "\<bar>dval (position ?i k + d)\<bar> \<le> dval (limit ?i k)"
    using \<open>x \<le> limit ?i k\<close> \<open>- limit ?i k \<le> x\<close> assms(3) by (simp add: x_def less_eq_fin abs_le_iff)
qed

lemma position_onFill:
  assumes "risk_wf k" "r_isFill r" "sym (r_symbolId r) < MAX_SYMBOLS"
  shows "position (r_symbolId r) (onFill r k) = position (r_symbolId r) k + qvalue (r_execQty r) * side_sign (r_side r)"
    "cashEnabled k \<Longrightarrow> cash (r_symbolId r) (onFill r k) =
       cash (r_symbolId r) k - qvalue (r_execQty r) * side_sign (r_side r) * toDouble (r_execPrice r) (rk_tick k)"
  using assms by (simp_all add: onFill_def position_def cash_def Let_def risk_wf_def)

lemma limit_onFill [simp]: "limit i (onFill r k) = limit i k"
  by (simp add: limit_def)

lemma within_limit_fill:
  assumes "risk_wf k" "within_limit (o_symbolId ord) k" "approve ord k" "fill_of ord r"
  shows "within_limit (o_symbolId ord) (onFill r k)"
proof (cases "r_isFill r")
  case True
  let ?i = "o_symbolId ord" and ?q = "qvalue (o_qty ord) * side_sign (o_side ord)"
    and ?e = "qvalue (r_execQty r) * side_sign (r_side r)"
  have w: "is_fin (position ?i k)" "is_fin (limit ?i k)" "\<bar>dval (position ?i k)\<bar> \<le> dval (limit ?i k)"
    using assms(2) by (simp_all add: within_limit_def)
  have f: "r_symbolId r = ?i" "r_side r = o_side ord" "is_fin (qvalue (o_qty ord))" "is_fin (qvalue (r_execQty r))"
    "0 \<le> dval (qvalue (r_execQty r))" "dval (qvalue (r_execQty r)) \<le> dval (qvalue (o_qty ord))"
    using assms(4) by (simp_all add: fill_of_def)
  have s: "sym (r_symbolId r) < MAX_SYMBOLS" using assms(3) f(1) by (simp add: approve_def split: if_splits)
  note p = approve_projected[OF assms(3) w(1,2) f(3)]
  have e: "0 \<le> dval ?e \<and> dval ?e \<le> dval ?q \<or> dval ?q \<le> dval ?e \<and> dval ?e \<le> 0"
    using signed_qty(2)[OF f(3)] signed_qty(2)[OF f(4)] f(2,5,6) by auto
  note b = add_between[OF w(1) signed_qty(1)[OF f(4)] signed_qty(1)[OF f(3)] p(1) e]
  have "\<bar>dval (position ?i k + ?e)\<bar> \<le> dval (limit ?i k)"
    using b(2,3) p(2) w(3) by (auto simp: abs_le_iff min_def max_def split: if_splits)
  then show ?thesis using b(1) w(2) position_onFill(1)[OF assms(1) True s] f(1) by (simp add: within_limit_def)
next
  case False
  then show ?thesis using assms(2) rk.not_fill[of r k] by simp
qed

lemma cash_after_buy:
  assumes "risk_wf k" "approve ord k" "fill_of ord r" "o_side ord = Bid" "cashEnabled k" "r_isFill r"
    "is_fin (cash (o_symbolId ord) k)" "is_fin (toDouble (o_price ord) (rk_tick k))"
    "is_fin (toDouble (r_execPrice r) (rk_tick k))"
    "0 \<le> dval (toDouble (r_execPrice r) (rk_tick k))"
    "dval (toDouble (r_execPrice r) (rk_tick k)) \<le> dval (toDouble (o_price ord) (rk_tick k))"
  shows "is_fin (cash (o_symbolId ord) (onFill r k))" "0 \<le> dval (cash (o_symbolId ord) (onFill r k))"
proof -
  let ?i = "o_symbolId ord" and ?q = "qvalue (o_qty ord)" and ?p = "toDouble (o_price ord) (rk_tick k)"
    and ?x = "qvalue (r_execQty r)" and ?y = "toDouble (r_execPrice r) (rk_tick k)"
  have f: "r_symbolId r = ?i" "r_side r = Bid" "is_fin ?q" "is_fin ?x" "0 \<le> dval ?x" "dval ?x \<le> dval ?q"
    using assms(3,4) by (simp_all add: fill_of_def)
  have s: "sym ?i < MAX_SYMBOLS" and "\<not> cash ?i k < ?q * ?p"
    using assms(2,4,5) by (auto simp: approve_def cash_def Let_def split: if_splits)
  then have le: "?q * ?p \<le> cash ?i k" using fin_not_nan(3)[OF f(3) assms(8)] assms(7) by (simp add: d_not_less)
  have "0 \<le> dval ?q * dval ?p" using f(5,6) assms(10,11) by simp
  then have fin: "is_fin (?q * ?p)"
    using mult_overflow[OF f(3) assms(8,7)] \<open>\<not> cash ?i k < ?q * ?p\<close> by blast
  have c: "dval (?q * ?p) \<le> dval (cash ?i k)" using le fin assms(7) by (simp add: less_eq_fin)
  have x1: "is_fin (?x * 1)" "dval (?x * 1) = dval ?x" using mult_sign[OF f(4)] by simp_all
  define v where "v = ?x * 1 * ?y"
  have v: "is_fin v" "0 \<le> dval v" "dval v \<le> dval (cash ?i k)"
    using mult_mono_d[OF x1(1) assms(9) f(3) assms(8) fin] x1(2) f(5,6) assms(10,11) c by (simp_all add: v_def)
  then have d: "is_fin (cash ?i k - v)" "dval (cash ?i k - v) = rnd (dval (cash ?i k) - dval v)"
    using diff_bound[OF assms(7) v(1), of "\<bar>dval (cash ?i k)\<bar>"] by simp_all
  have "cash ?i (onFill r k) = cash ?i k - v"
    using position_onFill(2)[OF assms(1,6)] s f(1,2) assms(5) by (simp add: v_def side_sign_def)
  then show "is_fin (cash ?i (onFill r k))" "0 \<le> dval (cash ?i (onFill r k))"
    using d v(3) by (simp_all add: rnd_nonneg)
qed

section \<open>The limit under rounded fills\<close>

lemma rel_step: "r \<le> z + z / 2 ^ 53 \<Longrightarrow> z \<le> lm * (1 + 1 / 2 ^ 41) \<Longrightarrow> 0 \<le> lm \<Longrightarrow> r \<le> lm * (1 + 1 / 2 ^ 40)" for r z lm :: rat
  by (simp add: field_simps)

lemma rel_down: "z \<le> lm + \<bar>z\<bar> / 2 ^ 53 \<Longrightarrow> 0 \<le> lm \<Longrightarrow> z \<le> lm * (1 + 1 / 2 ^ 52)" for z lm :: rat
  by (cases "0 \<le> z") (simp_all add: field_simps)

lemma rel_sum: "e \<le> q * (1 + 1 / 2 ^ 45) \<Longrightarrow> p + q \<le> lm * (1 + 1 / 2 ^ 52) \<Longrightarrow> - p \<le> lm * (1 + 1 / 2 ^ 40) \<Longrightarrow> 0 \<le> lm \<Longrightarrow>
   p + e \<le> lm * (1 + 1 / 2 ^ 41)" for e q p lm :: rat
  by (simp add: field_simps)

lemma limit_step_up:
  assumes "rnd p = p" "rnd q = q" "rnd e = e" "0 \<le> e" "e \<le> q * (1 + 1 / 2 ^ 45)" "\<bar>rnd (p + q)\<bar> \<le> lm" "\<bar>p\<bar> \<le> lm * (1 + 1 / 2 ^ 40)"
  shows "\<bar>rnd (p + e)\<bar> \<le> lm * (1 + 1 / 2 ^ 40)"
proof -
  have l: "0 \<le> lm" using assms(6) by linarith
  have "\<bar>rnd (p + q) - (p + q)\<bar> \<le> \<bar>p + q\<bar> / 2 ^ 53" by (rule rnd_sum_error[OF assms(1,2)])
  then have "p + q \<le> lm + \<bar>p + q\<bar> / 2 ^ 53" using assms(6) by linarith
  from rel_sum[OF assms(5) rel_down[OF this l] _ l] have pe: "p + e \<le> lm * (1 + 1 / 2 ^ 41)" using abs_le_D2[OF assms(7)] by blast
  have r: "rnd (p + e) - (p + e) \<le> \<bar>p + e\<bar> / 2 ^ 53" by (rule abs_le_D1[OF rnd_sum_error[OF assms(1,3)]])
  have "rnd (p + e) \<le> lm * (1 + 1 / 2 ^ 40)"
  proof (cases "0 \<le> p + e")
    case True
    then have "rnd (p + e) \<le> (p + e) + (p + e) / 2 ^ 53" using r unfolding abs_of_nonneg[OF True] by linarith
    then show ?thesis by (rule rel_step[OF _ pe l])
  next
    case False
    then have "rnd (p + e) \<le> 0" by (intro fl.nonpos) simp
    also have "0 \<le> lm * (1 + 1 / 2 ^ 40)" using l by simp
    finally show ?thesis .
  qed
  moreover have "p \<le> rnd (p + e)" using rnd_mono[of p "p + e"] assms(1,4) by simp
  ultimately show ?thesis using abs_le_D2[OF assms(7)] by (intro abs_leI) linarith+
qed

lemma limit_step:
  assumes "rnd p = p" "rnd q = q" "rnd e = e" "0 \<le> e" "e \<le> q * (1 + 1 / 2 ^ 45)" "\<bar>rnd (p + sg * q)\<bar> \<le> lm" "\<bar>p\<bar> \<le> lm * (1 + 1 / 2 ^ 40)" "sg = 1 \<or> sg = - 1"
  shows "\<bar>rnd (p + sg * e)\<bar> \<le> lm * (1 + 1 / 2 ^ 40)"
proof (cases "sg = 1")
  case False
  then have s: "sg = - 1" using assms(8) by simp
  have "\<bar>rnd (- p + q)\<bar> \<le> lm" using assms(6) rnd_minus[of "p - q"] by (simp add: s)
  then have "\<bar>rnd (- p + e)\<bar> \<le> lm * (1 + 1 / 2 ^ 40)"
    using limit_step_up[of "- p" q e lm] assms(1-5,7) by (simp add: rnd_minus)
  then show ?thesis using rnd_minus[of "p - e"] by (simp add: s)
qed (use limit_step_up[OF assms(1-5)] assms(6,7) in simp)

text \<open>A position within its limit up to one part in \<open>2 ^ 40\<close>: the fills of an order sum up in rounded steps.\<close>

definition near_limit :: "SymbolId \<Rightarrow> risk \<Rightarrow> bool" where
  "near_limit i k \<longleftrightarrow> is_fin (position i k) \<and> is_fin (limit i k) \<and> dval (limit i k) \<le> big \<and>
     \<bar>dval (position i k)\<bar> \<le> dval (limit i k) * (1 + 1 / 2 ^ 40)"

text \<open>\<open>rounded_fill_of ord r\<close>: the report fills the order up to the rounding of the simulator.\<close>

definition rounded_fill_of :: "NewOrder \<Rightarrow> ExecutionReport \<Rightarrow> bool" where
  "rounded_fill_of ord r \<longleftrightarrow> r_symbolId r = o_symbolId ord \<and> r_side r = o_side ord \<and>
     is_fin (qvalue (o_qty ord)) \<and> is_fin (qvalue (r_execQty r)) \<and> 0 \<le> dval (qvalue (r_execQty r)) \<and>
     dval (qvalue (r_execQty r)) \<le> dval (qvalue (o_qty ord)) * (1 + 1 / 2 ^ 45)"

lemma near_limit_fill:
  assumes "risk_wf k" "near_limit (o_symbolId ord) k" "approve ord k" "is_fin (qvalue (o_qty ord))"
    "r_symbolId r = o_symbolId ord" "r_side r = o_side ord" "is_fin (qvalue (r_execQty r))" "0 \<le> dval (qvalue (r_execQty r))"
    "dval (qvalue (r_execQty r)) \<le> dval (qvalue (o_qty ord)) * (1 + 1 / 2 ^ 45)"
  shows "near_limit (o_symbolId ord) (onFill r k)"
proof (cases "r_isFill r")
  case True
  let ?i = "o_symbolId ord"
  define p q e lm sg where "p = dval (position ?i k)" and "q = dval (qvalue (o_qty ord))" and "e = dval (qvalue (r_execQty r))"
    and "lm = dval (limit ?i k)" and "sg = (if o_side ord = Bid then 1 else - 1 :: rat)"
  have n: "is_fin (position ?i k)" "is_fin (limit ?i k)" "lm \<le> big" "\<bar>p\<bar> \<le> lm * (1 + 1 / 2 ^ 40)"
    using assms(2) by (simp_all add: near_limit_def lm_def p_def)
  note fq = assms(4)
  have s: "sym (r_symbolId r) < MAX_SYMBOLS" using assms(3,5) by (simp add: approve_def split: if_splits)
  note sq = signed_qty(1)[OF fq, of "o_side ord"] signed_qty(2)[OF fq, of "o_side ord"]
  note se = signed_qty(1)[OF assms(7), of "o_side ord"] signed_qty(2)[OF assms(7), of "o_side ord"]
  note ap = approve_projected[OF assms(3) n(1,2) fq]
  have dq: "dval (qvalue (o_qty ord) * side_sign (o_side ord)) = sg * q" and de: "dval (qvalue (r_execQty r) * side_sign (o_side ord)) = sg * e"
    using sq(2) se(2) by (simp_all add: sg_def q_def e_def)
  have "\<bar>rnd (p + sg * q)\<bar> \<le> lm" using ap(2) dval_add[OF n(1) sq(1) ap(1)] by (simp add: dq p_def lm_def)
  then have b: "\<bar>rnd (p + sg * e)\<bar> \<le> lm * (1 + 1 / 2 ^ 40)"
    using n(4) assms(8,9) by (intro limit_step[of p q e]) (auto simp: p_def q_def e_def sg_def)
  have "lm * (1 + 1 / 2 ^ 40) \<le> 2 * big" using n(3) big_props(2) by (simp add: field_simps)
  also have "\<dots> < dbl_limit" using big_props(2,3) by (simp add: rep_def)
  finally have "\<bar>rnd (p + sg * e)\<bar> < dbl_limit" using b by linarith
  then have f: "is_fin (position ?i k + qvalue (r_execQty r) * side_sign (o_side ord))"
    using n(1) se(1) by (simp add: is_fin_add_iff de p_def)
  have "position ?i (onFill r k) = position ?i k + qvalue (r_execQty r) * side_sign (o_side ord)"
    using position_onFill(1)[OF assms(1) True s] assms(5,6) by simp
  then show ?thesis using f b n dval_add[OF n(1) se(1) f] by (simp add: near_limit_def de p_def lm_def)
next
  case False
  then show ?thesis using assms(2) rk.not_fill[of r k] by simp
qed

section \<open>Properties of the risk manager\<close>

text \<open>One order and its execution report: the report is booked only if the order was approved.\<close>

definition risk_step :: "NewOrder \<times> ExecutionReport \<Rightarrow> risk \<Rightarrow> risk" where
  "risk_step x k = (if approve (fst x) k then onFill (snd x) k else k)"

lemma risk_step_inv:
  assumes "risk_wf k" "\<forall>i. within_limit i k" "fill_of ord r"
  shows "risk_wf (risk_step (ord, r) k)" "within_limit i (risk_step (ord, r) k)"
proof -
  show "risk_wf (risk_step (ord, r) k)" using assms(1) by (simp add: risk_step_def risk_wf_ops)
  show "within_limit i (risk_step (ord, r) k)"
  proof (cases "approve ord k \<and> i \<noteq> o_symbolId ord")
    case True
    then have "position i (onFill r k) = position i k"
      using rk.other_symbol[of i r k] assms(3) by (simp add: fill_of_def)
    then show ?thesis using assms(2) True by (simp add: risk_step_def within_limit_def)
  next
    case False
    then show ?thesis using within_limit_fill[OF assms(1) _ _ assms(3)] assms(2) by (auto simp: risk_step_def)
  qed
qed

lemma risk_step_near:
  assumes "risk_wf k" "near_limit i k" "rounded_fill_of ord r"
  shows "risk_wf (risk_step (ord, r) k)" "near_limit i (risk_step (ord, r) k)"
proof -
  show "risk_wf (risk_step (ord, r) k)" using assms(1) by (simp add: risk_step_def risk_wf_ops)
  show "near_limit i (risk_step (ord, r) k)"
  proof (cases "approve ord k \<and> i \<noteq> o_symbolId ord")
    case True
    then have "position i (onFill r k) = position i k"
      using rk.other_symbol[of i r k] assms(3) by (simp add: rounded_fill_of_def)
    then show ?thesis using assms(2) True by (simp add: risk_step_def near_limit_def)
  next
    case False
    then show ?thesis using near_limit_fill[OF assms(1)] assms(2,3) by (auto simp: risk_step_def rounded_fill_of_def)
  qed
qed

lemma fold_within_limit:
  assumes "risk_wf k" "\<forall>i. within_limit i k" "\<forall>(ord, r) \<in> set xs. fill_of ord r"
  shows "within_limit i (fold risk_step xs k)"
  using assms
proof (induction xs arbitrary: k)
  case (Cons x xs)
  obtain ord r where x: "x = (ord, r)" by (cases x)
  have f: "fill_of ord r" using Cons.prems(3) x by simp
  show ?case using Cons.IH[OF risk_step_inv(1)[OF Cons.prems(1,2) f]] risk_step_inv(2)[OF Cons.prems(1,2) f] Cons.prems(3)
    by (simp add: x)
qed simp

lemma fold_near_limit:
  assumes "risk_wf k" "near_limit i k" "\<forall>(ord, r) \<in> set xs. rounded_fill_of ord r"
  shows "near_limit i (fold risk_step xs k) \<and> limit i (fold risk_step xs k) = limit i k"
  using assms
proof (induction xs arbitrary: k)
  case (Cons x xs)
  obtain ord r where x: "x = (ord, r)" by (cases x)
  have f: "rounded_fill_of ord r" using Cons.prems(3) x by simp
  have "limit i (risk_step x k) = limit i k" by (simp add: risk_step_def)
  then show ?case using Cons.IH[OF risk_step_near[OF Cons.prems(1,2) f]] Cons.prems(3) by (simp add: x)
qed simp

text \<open>
  C10. The position limit in the arithmetic of doubles, for every sequence of orders of which the
  approved ones are executed, from a state in which every position is within its limit. If each
  report fills at most the quantity of its order, every position stays finite and within its limit
  exactly, with no tolerance for rounding. If the reports exceed the quantities by the rounding
  of the simulator, one part in \<open>2 ^ 45\<close>, every position stays finite and exceeds a limit of at
  most \<open>2 ^ 400\<close> by no more than one part in \<open>2 ^ 40\<close>, however long the sequence.
\<close>

theorem position_limit_invariant:
  assumes "risk_wf k" "\<forall>i. within_limit i k"
  shows "((\<forall>(ord, r) \<in> set xs. fill_of ord r) \<longrightarrow> within_limit i (fold risk_step xs k)) \<and>
    ((\<forall>(ord, r) \<in> set xs. rounded_fill_of ord r) \<and> dval (limit i k) \<le> 2 ^ 400 \<longrightarrow>
       is_fin (position i (fold risk_step xs k)) \<and>
       \<bar>dval (position i (fold risk_step xs k))\<bar> \<le> dval (limit i k) * (1 + 1 / 2 ^ 40))"
proof -
  have "near_limit i k" if "dval (limit i k) \<le> 2 ^ 400"
  proof -
    have w: "is_fin (position i k)" "is_fin (limit i k)" "\<bar>dval (position i k)\<bar> \<le> dval (limit i k)"
      using assms(2) by (simp_all add: within_limit_def)
    then have "0 \<le> dval (limit i k)" by linarith
    then have "dval (limit i k) \<le> dval (limit i k) * (1 + 1 / 2 ^ 40)" by (simp add: field_simps)
    with w that show ?thesis by (simp add: near_limit_def big_def)
  qed
  then show ?thesis using fold_within_limit[OF assms] fold_near_limit[OF assms(1), of i xs] by (auto simp: near_limit_def)
qed

definition sample_risk :: risk where
  "sample_risk = configure 0 (dbl 5) (dbl 10000) (dbl 2) new_risk"

definition sample_order :: NewOrder where
  "sample_order = \<lparr>o_id = 1, o_symbolId = 0, o_side = Bid, o_price = Price 3, o_qty = Qty (dbl 4), o_createdNs = 0\<rparr>"

definition sample_report :: ExecutionReport where
  "sample_report = \<lparr>r_id = 1, r_symbolId = 0, r_side = Bid, r_isFill = True, r_execPrice = Price 3,
     r_execQty = Qty (dbl 4), r_completedNs = 0\<rparr>"

lemmas sample_defs = sample_risk_def sample_order_def sample_report_def configure_def new_risk_def sym_def MAX_SYMBOLS_def

lemma sample_facts:
  "risk_wf sample_risk" "fill_of sample_order sample_report" "approve sample_order sample_risk"
  by (simp_all add: sample_defs risk_wf_def fill_of_def approve_def Let_def dbl_eval side_sign_def toDouble_def
    dbl_mult[of _ 1, simplified] dbl_add[of 0, simplified])

definition over_report :: ExecutionReport where
  "over_report = sample_report\<lparr>r_execQty := Qty (dbl (4 + 1 / 2 ^ 50))\<rparr>"

lemma rep_over: "rep (4 + 1 / 2 ^ 50)"
proof -
  have "of_int (2 ^ 52 + 1) * p2 (- 50) = (4 + 1 / 2 ^ 50 :: rat)" by (simp add: power_int_minus)
  then show ?thesis using rnd_exact[of "2 ^ 52 + 1" "- 50"] by (simp add: rep_def dbl_limit_def)
qed

theorem position_limit_invariant_witness:
  "within_limit 0 (fold risk_step [(sample_order, sample_report), (sample_order, sample_report)] sample_risk) \<and>
   \<not> fill_of sample_order over_report \<and>
   \<bar>dval (position 0 (fold risk_step [(sample_order, over_report), (sample_order, over_report)] sample_risk))\<bar> \<le> 5 * (1 + 1 / 2 ^ 40)"
proof -
  have w: "\<forall>i. within_limit i sample_risk"
    by (auto simp: within_limit_def position_def limit_def sample_defs Let_def dbl_eval nth_list_update)
  have l: "dval (limit 0 sample_risk) = 5" by (simp add: limit_def sample_defs Let_def dbl_eval)
  have r: "rounded_fill_of sample_order over_report" "\<not> fill_of sample_order over_report"
    using rep_over by (simp_all add: rounded_fill_of_def fill_of_def over_report_def sample_defs dbl_eval dval_rep)
  show ?thesis
    using position_limit_invariant[OF sample_facts(1) w, of "[(sample_order, sample_report), (sample_order, sample_report)]" 0]
      position_limit_invariant[OF sample_facts(1) w, of "[(sample_order, over_report), (sample_order, over_report)]" 0] l r sample_facts(2)
    by simp
qed

text \<open>
  C34. The cash check is enough for a purchase: when an approved buy order is filled for at most its
  quantity at a price between 0 and its limit, the cash of the symbol does not become negative.
\<close>

theorem cash_stays_nonnegative:
  assumes "risk_wf k" "approve ord k" "fill_of ord r" "o_side ord = Bid" "cashEnabled k" "r_isFill r"
    "is_fin (cash (o_symbolId ord) k)" "is_fin (toDouble (o_price ord) (rk_tick k))"
    "is_fin (toDouble (r_execPrice r) (rk_tick k))"
    "0 \<le> dval (toDouble (r_execPrice r) (rk_tick k))"
    "dval (toDouble (r_execPrice r) (rk_tick k)) \<le> dval (toDouble (o_price ord) (rk_tick k))"
  shows "0 \<le> cash (o_symbolId ord) (onFill r k)"
  using cash_after_buy[OF assms] by (simp add: less_eq_fin)

theorem cash_stays_nonnegative_witness: "0 \<le> cash 0 (onFill sample_report sample_risk)"
  using cash_stays_nonnegative[OF sample_facts(1,3,2)]
  by (simp add: sample_defs Let_def dbl_eval toDouble_def cash_def)

text \<open>
  What the limits do not cover: the comparisons are false for NaN, so an order whose quantity
  is NaN is approved for every symbol, whatever the limits are.
\<close>

theorem approve_nan_quantity:
  assumes "is_nan (qvalue (o_qty ord))" "sym (o_symbolId ord) < MAX_SYMBOLS"
  shows "approve ord k"
proof -
  have m: "is_nan x \<Longrightarrow> is_nan (x * y)" "is_nan y \<Longrightarrow> is_nan (x + y)" for x y :: double
    by (transfer; simp; case_tac x; simp)+
  have "\<not> x < y" if "is_nan x \<or> is_nan y" for x y :: double using that d_less_nan by blast
  then show ?thesis using assms m by (simp add: approve_def Let_def)
qed

theorem approve_nan_quantity_witness: "approve (sample_order\<lparr>o_qty := Qty d_nan\<rparr>) sample_risk"
  by (rule approve_nan_quantity) (simp_all add: sample_defs d_nan.rep_eq is_nan.rep_eq)

end
