(* ===== verification/Execution_Engine.thy ===== *)
theory Execution_Engine
  imports Book_Views Orders Float_Error
begin

text \<open>
  The fill simulator of \<^verbatim>\<open>include/trading/exec/execution_engine.hpp\<close>: it walks the opposing side
  of the book, takes each level that crosses the limit, and reports the filled quantity and the
  average price. The walk is shown to produce a list of fills of which the report gives the sum
  and the mean, up to the rounding of the sums.
\<close>

section \<open>The simulator\<close>

definition crosses :: "Side \<Rightarrow> double \<Rightarrow> double \<Rightarrow> bool" where
  "crosses side lvlPx limitPx = (if side = Bid then lvlPx \<le> limitPx else limitPx \<le> lvlPx)"

definition FILL_EPS :: double where
  "FILL_EPS = dbl (1 / 10 ^ 12)"

text \<open>The loop, with the state \<open>remaining\<close>, \<open>filled\<close>, \<open>cost\<close>; it returns the last two.\<close>

fun fill_loop :: "Side \<Rightarrow> double \<Rightarrow> double \<Rightarrow> PriceLevel list \<Rightarrow> double \<Rightarrow> double \<Rightarrow> double \<Rightarrow> double \<times> double" where
  "fill_loop side limitPx tickSize [] remaining filled cost = (filled, cost)"
| "fill_loop side limitPx tickSize (l # ls) remaining filled cost =
     (let lvlPx = toDouble (pl_price l) tickSize;
          lvlSize = qvalue (pl_qty l) in
      if \<not> crosses side lvlPx limitPx then (filled, cost)
      else let fillSize = (if remaining < lvlSize then remaining else lvlSize);
               remaining' = remaining - fillSize;
               filled' = filled + fillSize;
               cost' = cost + fillSize * lvlPx in
        if remaining' \<le> FILL_EPS then (filled', cost')
        else fill_loop side limitPx tickSize ls remaining' filled' cost')"

definition simulate :: "(double \<Rightarrow> int) \<Rightarrow> nat \<Rightarrow> NewOrder \<Rightarrow> book \<Rightarrow> double \<Rightarrow> Timestamp \<Rightarrow> ExecutionReport" where
  "simulate oor cap order b tickSize now =
     (let lvls = depth cap (opposite (o_side order)) MAX_BOOK_WALK b;
          limitPx = toDouble (o_price order) tickSize;
          (filled, cost) = fill_loop (o_side order) limitPx tickSize lvls (qvalue (o_qty order)) 0 0
      in \<lparr>r_id = o_id order, r_symbolId = o_symbolId order, r_side = o_side order,
          r_isFill = (0 < filled),
          r_execPrice = (if 0 < filled then fromDouble oor (cost / filled) tickSize else o_price order),
          r_execQty = Qty filled, r_completedNs = now\<rparr>)"

section \<open>The list of fills\<close>

fun fills :: "Side \<Rightarrow> double \<Rightarrow> double \<Rightarrow> PriceLevel list \<Rightarrow> double \<Rightarrow> (double \<times> double) list" where
  "fills side limitPx tickSize [] remaining = []"
| "fills side limitPx tickSize (l # ls) remaining =
     (let lvlPx = toDouble (pl_price l) tickSize; lvlSize = qvalue (pl_qty l) in
      if \<not> crosses side lvlPx limitPx then []
      else let f = (if remaining < lvlSize then remaining else lvlSize) in
        (f, lvlPx) # (if remaining - f \<le> FILL_EPS then [] else fills side limitPx tickSize ls (remaining - f)))"

lemma fill_loop_fills:
  "fill_loop side limitPx tickSize ls remaining filled cost =
     (let fs = fills side limitPx tickSize ls remaining
      in (foldl (+) filled (map fst fs), foldl (+) cost (map (\<lambda>(f, p). f * p) fs)))"
  by (induction ls arbitrary: remaining filled cost) (simp_all add: Let_def)

lemma length_fills: "length (fills side limitPx tickSize ls remaining) \<le> length ls"
  by (induction ls arbitrary: remaining) (auto simp: Let_def le_SucI)

text \<open>The fills are at the prices of the first levels, all of which cross the limit.\<close>

lemma fills_prices:
  "map snd (fills side limitPx tickSize ls remaining) =
     map (\<lambda>l. toDouble (pl_price l) tickSize) (take (length (fills side limitPx tickSize ls remaining)) ls)"
  by (induction ls arbitrary: remaining) (simp_all add: Let_def)

lemma fills_cross: "(f, p) \<in> set (fills side limitPx tickSize ls remaining) \<Longrightarrow> crosses side p limitPx"
  by (induction ls arbitrary: remaining) (auto simp: Let_def split: if_splits)

lemmas FILL_EPS_val = pico_val(1,3,4)[folded FILL_EPS_def]

text \<open>The first fill of a walk: if more than the tolerance is left over, it is the whole level.\<close>

lemma fill_first:
  assumes "is_fin rem" "0 < dval rem" "is_fin z" "0 < dval z"
  defines "f \<equiv> (if rem < z then rem else z)"
  shows "is_fin f" "0 < dval f" "is_fin (rem - f)" "0 \<le> dval (rem - f)"
    "\<not> rem - f \<le> FILL_EPS \<Longrightarrow> 0 < dval (rem - f) \<and> f = z"
    "near k x (dval (rem - f)) \<Longrightarrow> near (Suc k) (dval f + x) (dval rem)"
proof -
  show f: "is_fin f" "0 < dval f" using assms(1-4) by (auto simp: f_def)
  have "dval f \<le> dval rem" using assms(1,3) by (auto simp: f_def less_fin)
  note d = diff_near[OF assms(1) f(1) less_imp_le[OF f(2)] this]
  show "is_fin (rem - f)" "0 \<le> dval (rem - f)" by (fact d)+
  show "0 < dval (rem - f) \<and> f = z" if "\<not> rem - f \<le> FILL_EPS"
  proof
    show p: "0 < dval (rem - f)" using that d(1) FILL_EPS_val(1,2) big_props(1) by (simp add: less_eq_fin)
    have "dval (rem - rem) \<le> 0" using diff_near(2)[OF assms(1,1)] assms(2) by (simp add: near_def)
    then show "f = z" using p by (auto simp: f_def split: if_splits)
  qed
  assume "near k x (dval (rem - f))"
  from near_trans[OF this d(2)] have "near (Suc k) x (dval rem - dval f)" by simp
  moreover have "near (Suc k) (dval f) (dval f)" using f(2) by (intro near_mono[OF near_refl]) simp_all
  ultimately have "near (Suc k) (dval f + x) (dval f + (dval rem - dval f))" by (intro near_add)
  then show "near (Suc k) (dval f + x) (dval rem)" by simp
qed

lemma fills_Cons:
  "fills side lp k (l # ls) rem =
     (let f = (if rem < size_of l then rem else size_of l) in
      if crosses side (toDouble (pl_price l) k) lp
      then (f, toDouble (pl_price l) k) # (if rem - f \<le> FILL_EPS then [] else fills side lp k ls (rem - f)) else [])"
  by (simp add: Let_def size_of_def)

abbreviation filled_sum :: "(double \<times> double) list \<Rightarrow> rat" where
  "filled_sum fs \<equiv> sum_list (map (\<lambda>x. dval (fst x)) fs)"

text \<open>
  Conservation: with the sizes and the remaining quantity in the normal range, every fill is a
  positive finite double, and the fills and what is left over add up to the order's quantity, up
  to one rounding per level.
\<close>

lemma fills_conserve:
  assumes "is_fin rem" "0 < dval rem" "\<forall>l \<in> set ls. is_fin (size_of l) \<and> 0 < dval (size_of l)"
  shows "(\<forall>(f, p) \<in> set (fills side lp k ls rem). is_fin f \<and> 0 < dval f) \<and>
    (\<exists>left. 0 \<le> left \<and> near (length (fills side lp k ls rem)) (filled_sum (fills side lp k ls rem) + left) (dval rem))"
  using assms
proof (induction ls arbitrary: rem)
  case Nil
  then show ?case by (auto intro!: exI[of _ "dval rem"] near_refl)
next
  case (Cons l ls)
  define f where "f = (if rem < size_of l then rem else size_of l)"
  note f = fill_first[of rem "size_of l", folded f_def]
  define fs where "fs = (if rem - f \<le> FILL_EPS then [] else fills side lp k ls (rem - f))"
  have ih: "(\<forall>(f, p) \<in> set fs. is_fin f \<and> 0 < dval f) \<and> (\<exists>left. 0 \<le> left \<and> near (length fs) (filled_sum fs + left) (dval (rem - f)))"
  proof (cases "rem - f \<le> FILL_EPS")
    case True
    then show ?thesis using f(4) Cons.prems by (auto simp: fs_def intro!: exI[of _ "dval (rem - f)"] near_refl)
  next
    case False
    then show ?thesis using Cons.IH[of "rem - f"] Cons.prems f(3,5) by (simp add: fs_def)
  qed
  then obtain left where "0 \<le> left" "near (length fs) (filled_sum fs + left) (dval (rem - f))" by blast
  then have "\<exists>left \<ge> 0. near (Suc (length fs)) (dval f + filled_sum fs + left) (dval rem)"
    using f(6)[of "length fs" "filled_sum fs + left"] Cons.prems by (auto simp: add.assoc)
  moreover have "\<exists>left \<ge> 0. near 0 left (dval rem)" using Cons.prems(2) by (auto intro!: exI[of _ "dval rem"] near_refl)
  moreover have "is_fin f \<and> 0 < dval f" using f(1,2) Cons.prems by simp
  ultimately show ?case unfolding fills_Cons Let_def f_def[symmetric] fs_def[symmetric] using ih by auto
qed

lemma ee_power_le: "k \<le> l \<Longrightarrow> ee ^ k \<le> ee ^ l"
  by (intro power_increasing) simp_all

lemma filled_near:
  fixes side :: Side and limitPx tickSize :: double
  assumes "is_fin q" "0 < dval q" "dval q \<le> big" "\<forall>l \<in> set ls. is_fin (size_of l) \<and> 0 < dval (size_of l)" "length ls \<le> 32"
  defines "fs \<equiv> fills side limitPx tickSize ls q"
  defines "s \<equiv> sum_list (map (\<lambda>x. dval (fst x)) fs)"
  shows "is_fin (foldl (+) 0 (map fst fs))" "near 32 (dval (foldl (+) 0 (map fst fs))) s"
    "0 \<le> s" "s \<le> dval q * ee ^ 32" "dval (foldl (+) 0 (map fst fs)) \<le> dval q * (1 + 1 / 2 ^ 45)"
    "0 < foldl (+) 0 (map fst fs) \<longleftrightarrow> fs \<noteq> []"
proof -
  have n: "length fs \<le> 32" using length_fills[of side limitPx tickSize ls q] assms(5) by (simp add: fs_def)
  have "(\<forall>(f, p) \<in> set fs. is_fin f \<and> 0 < dval f) \<and> (\<exists>left \<ge> 0. near (length fs) (s + left) (dval q))"
    unfolding s_def fs_def using fills_conserve[OF assms(1,2,4)] by blast
  then obtain left where pos: "\<forall>(f, p) \<in> set fs. is_fin f \<and> 0 < dval f" and left: "0 \<le> left" "near (length fs) (s + left) (dval q)"
    by blast
  show s0: "0 \<le> s" unfolding s_def using pos by (intro sum_list_nonneg) auto
  have "s + left \<le> dval q * ee ^ length fs" using left(2) by (simp add: near_def)
  also have "\<dots> \<le> dval q * ee ^ 32" using assms(2) ee_power_le[OF n] by (intro mult_left_mono) simp_all
  finally show sq: "s \<le> dval q * ee ^ 32" using left(1) by simp
  have "ee ^ 32 * ee ^ 32 = ee ^ 64" by (simp flip: power_add)
  then have e64: "ee ^ 32 * ee ^ 32 \<le> 1 + 1 / 2 ^ 45" using ee_power_small(2) by simp
  have up: "s * ee ^ 32 \<le> dval q * (1 + 1 / 2 ^ 45)"
  proof -
    have "s * ee ^ 32 \<le> dval q * ee ^ 32 * ee ^ 32" using sq by (rule mult_right_mono) simp
    also have "\<dots> \<le> dval q * (1 + 1 / 2 ^ 45)"
      using mult_left_mono[OF e64, of "dval q"] assms(2) by (simp add: mult.assoc)
    finally show ?thesis .
  qed
  have m: "s * ee ^ length fs \<le> s * ee ^ 32" using s0 ee_power_le[OF n] by (intro mult_left_mono)
  have "dval q * (1 + 1 / 2 ^ 45) \<le> 2 * big" using assms(2,3) by simp
  then have "(dval 0 + sum_list (map dval (map fst fs))) * ee ^ length (map fst fs) \<le> 2 * big"
    using m up by (simp add: s_def comp_def)
  moreover have "\<forall>x \<in> set (map fst fs). is_fin x \<and> 0 \<le> dval x" using pos by auto
  ultimately have sn: "is_fin (foldl (+) 0 (map fst fs))" "0 \<le> dval (foldl (+) 0 (map fst fs))"
    "near (length fs) (dval (foldl (+) 0 (map fst fs))) s"
    using sum_near[of 0 "map fst fs" "2 * big"] big_props(3) by (simp_all add: s_def comp_def)
  show "is_fin (foldl (+) 0 (map fst fs))" by (rule sn)
  show nr: "near 32 (dval (foldl (+) 0 (map fst fs))) s" using near_mono[OF sn(3) n sn(2) s0] .
  show "dval (foldl (+) 0 (map fst fs)) \<le> dval q * (1 + 1 / 2 ^ 45)" using nr up by (simp add: near_def)
  show "0 < foldl (+) 0 (map fst fs) \<longleftrightarrow> fs \<noteq> []"
  proof (cases fs)
    case (Cons x xs)
    have "0 < dval (fst x)" "\<forall>y \<in> set xs. 0 \<le> dval (fst y)" using pos Cons by (auto simp: less_imp_le split: prod.splits)
    then have "0 < s" unfolding s_def Cons using sum_list_nonneg[of "map (\<lambda>x. dval (fst x)) xs"] by fastforce
    then have "0 < dval (foldl (+) 0 (map fst fs)) * ee ^ 32" using nr unfolding near_def by (rule_tac less_le_trans) auto
    then have "0 < dval (foldl (+) 0 (map fst fs))" by (simp add: zero_less_mult_iff)
    then show ?thesis using sn(1) Cons by (simp add: less_fin del: foldl_Cons)
  qed simp
qed

section \<open>The average price\<close>

lemma fills_normal:
  assumes "normal rem" "\<forall>l \<in> set ls. normal (size_of l)"
  shows "\<forall>(f, p) \<in> set (fills side limitPx tickSize ls rem). normal f"
  using assms
proof (induction ls arbitrary: rem)
  case (Cons l ls)
  define f where "f = (if rem < size_of l then rem else size_of l)"
  have f: "normal f" using Cons.prems by (auto simp: f_def)
  have r: "is_fin rem" "0 < dval rem" "dval rem \<le> big" "is_fin f" "0 < dval f" "dval f \<le> dval rem"
    using Cons.prems normal_pos f less_fin[of rem "size_of l"] by (auto simp: normal_def f_def)
  have "normal (rem - f)" if "\<not> rem - f \<le> FILL_EPS"
  proof -
    have d: "is_fin (rem - f)" "dval (rem - f) = rnd (dval rem - dval f)"
      using diff_bound[OF r(1,4), of "dval rem"] r by simp_all
    have "dval (rem - f) \<le> dval rem" using d(2) r fl.upper[of "dval rem" "dval rem - dval f"] by simp
    moreover have "tiny \<le> dval (rem - f)" using that d(1) FILL_EPS_val(1,2) by (simp add: less_eq_fin)
    ultimately show ?thesis using d(1) r(3) by (simp add: normal_def)
  qed
  then show ?case using Cons.IH[of "rem - f"] Cons.prems(2) f by (auto simp: Let_def f_def size_of_def)
qed simp

text \<open>Prices and tick sizes for which the mean rounds to a tick between the extreme levels.\<close>

definition px_ok :: "double \<Rightarrow> Price \<Rightarrow> bool" where
  "px_ok tickSize p \<longleftrightarrow> is_fin tickSize \<and> p2 (- 100) \<le> dval tickSize \<and> dval tickSize \<le> p2 100 \<and> 1 \<le> ticks p \<and> ticks p \<le> 2 ^ 40"

lemma px_ok_props:
  assumes "px_ok k p"
  shows "tick_ok k" "\<bar>ticks p\<bar> \<le> 2 ^ 50" "0 < dval k" "1 \<le> (of_int (ticks p) :: rat)" "(of_int (ticks p) :: rat) \<le> 2 ^ 40"
    "near 1 (dval (toDouble p k)) (of_int (ticks p) * dval k)" "normal (toDouble p k)"
proof -
  have a: "is_fin k" "p2 (- 100) \<le> dval k" "dval k \<le> p2 100" "1 \<le> ticks p" "ticks p \<le> 2 ^ 40"
    using assms by (auto simp: px_ok_def)
  show ok: "tick_ok k" unfolding tick_ok_def using a(1-3) p2_mono[of "- 900" "- 100"] p2_mono[of 100 900] by (auto intro: order_trans)
  show b: "\<bar>ticks p\<bar> \<le> 2 ^ 50" using a(4,5) by simp
  show k: "0 < dval k" using tick_ok_pos[OF ok] .
  have "(of_int 1 :: rat) \<le> of_int (ticks p)" "(of_int (ticks p) :: rat) \<le> of_int (2 ^ 40)"
    using a(4,5) by (simp_all only: of_int_le_iff)
  then show t: "1 \<le> (of_int (ticks p) :: rat)" "(of_int (ticks p) :: rat) \<le> 2 ^ 40" by simp_all
  let ?x = "of_int (ticks p) * dval k"
  have "1 * p2 (- 100) \<le> ?x" using t(1) a(2) by (intro mult_mono) auto
  then have lo: "p2 (- 100) \<le> ?x" by simp
  have "?x \<le> 2 ^ 40 * p2 100" using t a(3) k by (intro mult_mono) auto
  also have "\<dots> = p2 140" using p2_add[of 40 100] by simp
  finally have hi: "?x \<le> p2 140" .
  note d = toDouble_fin[OF b ok]
  show n: "near 1 (dval (toDouble p k)) ?x"
    unfolding d(2) by (rule near_rnd) (rule order_trans[OF p2_mono lo], simp)
  have "rnd (p2 (- 100)) = p2 (- 100)" "rnd (p2 140) = p2 140" using rep_p2[of "- 100"] rep_p2[of 140] by (simp_all add: rep_def)
  then have "p2 (- 100) \<le> dval (toDouble p k)" "dval (toDouble p k) \<le> p2 140"
    unfolding d(2) using lo hi fl.lower fl.upper by blast+
  moreover have "tiny \<le> p2 (- 100)" "p2 140 \<le> big" unfolding tiny_def big_def by (intro p2_mono; simp)+
  ultimately show "normal (toDouble p k)" using d(1) unfolding normal_def by (blast intro: order_trans)
qed

lemma round_away_between:
  assumes "of_int lo - 1 / 4 \<le> x" "x \<le> of_int hi + 1 / 4" "0 \<le> x"
  shows "lo \<le> round_away x" "round_away x \<le> hi"
proof -
  have "lo \<le> \<lfloor>x + 1 / 2\<rfloor>" using assms(1) by (simp add: le_floor_iff)
  moreover have "\<lfloor>x + 1 / 2\<rfloor> \<le> hi" using assms(2) unfolding floor_le_iff by linarith
  ultimately show "lo \<le> round_away x" "round_away x \<le> hi" using assms(3) by (simp_all add: round_away_def)
qed

text \<open>The mean in ticks.\<close>

lemma mean_tick_between:
  assumes "px_ok k lo" "px_ok k hi" "is_fin a" "dval (toDouble lo k) \<le> dval a * ee ^ 66" "dval a \<le> dval (toDouble hi k) * ee ^ 66"
  shows "ticks lo \<le> ticks (fromDouble oor a k)" "ticks (fromDouble oor a k) \<le> ticks hi"
proof -
  note l = px_ok_props[OF assms(1)] and h = px_ok_props[OF assms(2)]
  let ?k = "dval k" and ?l = "of_int (ticks lo) :: rat" and ?h = "of_int (ticks hi) :: rat"
  have e67: "ee ^ 67 = ee ^ 66 * ee" "ee ^ 68 = ee ^ 67 * ee" using power_add[of ee 66 1] power_add[of ee 67 1] by simp_all
  have e68: "ee ^ 68 \<le> 1 + 1 / 2 ^ 44" using ee_power_le[of 68 128] ee_power_small(3) by simp
  have "?l * ?k \<le> dval (toDouble lo k) * ee" using l(6) by (simp add: near_def)
  also have "\<dots> \<le> dval a * ee ^ 66 * ee" using assms(4) by (rule mult_right_mono) simp
  finally have lk: "?l \<le> dval a / ?k * ee ^ 67" using l(3) by (simp add: field_simps e67)
  have "dval a \<le> ?h * ?k * ee * ee ^ 66"
    by (rule order_trans[OF assms(5)], rule mult_right_mono) (use h(6) in \<open>simp_all add: near_def\<close>)
  then have hk: "dval a / ?k \<le> ?h * ee ^ 67" using l(3) by (simp add: field_simps e67)
  define y where "y = dval a / ?k"
  have e67b: "ee ^ 67 \<le> 2" using ee_power_le[of 67 128] ee_power_small(3) by simp
  have y0: "0 \<le> y"
  proof (rule ccontr)
    assume "\<not> 0 \<le> y"
    then have "y * ee ^ 67 < 0" by (simp add: mult_less_0_iff)
    with lk l(4) show False by (simp add: y_def)
  qed
  have y1: "1 / 2 \<le> y" using lk l(4) mult_left_mono[OF e67b y0] by (simp add: y_def)
  have "?h * ee ^ 67 \<le> 2 ^ 40 * 2" using h(4,5) e67b by (intro mult_mono) auto
  then have y2: "y \<le> 2 ^ 41" using hk by (simp add: y_def)
  have "p2 (- 1022) \<le> 1 / 2" by simp
  then have "p2 (- 1022) \<le> dval a / dval k" by (rule order_trans) (use y1 in \<open>simp add: y_def\<close>)
  moreover have "rep (2 ^ 41)" using rep_of_int[of "2 ^ 41"] by simp
  ultimately have d: "is_fin (a / k)" "near 1 (dval (a / k)) y"
    using divide_near[OF assms(3) _ l(3), of "2 ^ 41"] l(1) y2 by (auto simp: y_def tick_ok_def)
  define x where "x = dval (a / k)"
  have x: "x \<le> y * ee" "y \<le> x * ee" using d(2) by (simp_all add: near_def x_def)
  have x0: "0 \<le> x" using near_nonneg[OF d(2) y0] by (simp add: x_def)
  have "y * ee \<le> ?h * ee ^ 67 * ee" using hk unfolding y_def by (rule mult_right_mono) simp
  with x(1) have "x \<le> ?h * ee ^ 67 * ee" by (rule order_trans)
  also have "\<dots> \<le> ?h * (1 + 1 / 2 ^ 44)" unfolding mult.assoc e67(2)[symmetric] using e68 h(4) by (intro mult_left_mono) auto
  also have "\<dots> \<le> ?h + 1 / 4" using h(5) by (simp add: field_simps)
  finally have up: "x \<le> ?h + 1 / 4" .
  have "y * ee ^ 67 \<le> x * ee * ee ^ 67" using x(2) by (rule mult_right_mono) simp
  with lk have "?l \<le> x * ee * ee ^ 67" unfolding y_def by (rule order_trans)
  also have "\<dots> = x * ee ^ 68" by (simp add: e67)
  also have "\<dots> \<le> x * (1 + 1 / 2 ^ 44)" using e68 x0 by (rule mult_left_mono)
  also have "\<dots> \<le> x + 1 / 4" using up h(5) by (simp add: field_simps)
  finally have dn: "?l - 1 / 4 \<le> x" by simp
  note r = round_away_between[OF dn up x0]
  have "in_i64 (round_away x)" using r l(2) h(2) by (auto simp: in_i64_def abs_le_iff)
  then have "ticks (fromDouble oor a k) = round_away x" using d(1) by (simp add: fromDouble_def llround_def x_def)
  then show "ticks lo \<le> ticks (fromDouble oor a k)" "ticks (fromDouble oor a k) \<le> ticks hi" using r by simp_all
qed

lemma toDouble_inj:
  assumes "px_ok k p" "px_ok k q" "dval (toDouble p k) = dval (toDouble q k)" shows "p = q"
proof -
  note a = px_ok_props[OF assms(1)] and b = px_ok_props[OF assms(2)]
  have "dval (toDouble p k) \<noteq> 0" "dval (toDouble q k) \<noteq> 0" "is_fin (toDouble p k)" "is_fin (toDouble q k)"
    using normal_pos[OF a(7)] normal_pos[OF b(7)] by auto
  then have "toDouble p k = toDouble q k" using assms(3) dbl_dval by metis
  moreover have "fromDouble (\<lambda>_. 0) (toDouble p k) k = p" "fromDouble (\<lambda>_. 0) (toDouble q k) k = q"
    by (rule fromDouble_toDouble[OF a(2,1)], rule fromDouble_toDouble[OF b(2,1)])
  ultimately show ?thesis by metis
qed

lemma toDouble_less_iff:
  assumes "px_ok k p" "px_ok k q" shows "toDouble p k \<le> toDouble q k \<longleftrightarrow> p \<le> q"
proof
  note a = px_ok_props[OF assms(1)] and b = px_ok_props[OF assms(2)]
  show "p \<le> q \<Longrightarrow> toDouble p k \<le> toDouble q k" by (rule toDouble_mono[OF a(2) b(2) a(1)])
  assume le: "toDouble p k \<le> toDouble q k"
  show "p \<le> q"
  proof (rule ccontr)
    assume n: "\<not> p \<le> q"
    then have "toDouble q k \<le> toDouble p k" by (intro toDouble_mono[OF b(2) a(2) a(1)]) simp
    with le have "dval (toDouble p k) = dval (toDouble q k)"
      unfolding less_eq_fin[OF toDouble_fin(1)[OF a(2,1)] toDouble_fin(1)[OF b(2,1)]]
        less_eq_fin[OF toDouble_fin(1)[OF b(2,1)] toDouble_fin(1)[OF a(2,1)]] by (rule antisym)
    from toDouble_inj[OF assms this] n show False by simp
  qed
qed

lemma exec_price_between:
  fixes side :: Side and limitPx :: double
  assumes "normal q" "\<forall>l \<in> set ls. normal (size_of l) \<and> px_ok k (pl_price l)" "length ls \<le> 32"
    "px_ok k lo" "px_ok k hi"
  defines "fs \<equiv> fills side limitPx k ls q"
  assumes ne: "fs \<noteq> []" and range: "\<forall>l \<in> set (take (length fs) ls). lo \<le> pl_price l \<and> pl_price l \<le> hi"
  defines "a \<equiv> foldl (+) 0 (map (\<lambda>(f, p). f * p) fs) / foldl (+) 0 (map fst fs)"
  shows "lo \<le> fromDouble oor a k" "fromDouble oor a k \<le> hi"
proof -
  have n: "length fs \<le> 32" using length_fills[of side limitPx k ls q] assms(3) by (simp add: fs_def)
  have all: "\<forall>x \<in> set fs. normal (fst x) \<and> normal (snd x) \<and> dval (toDouble lo k) \<le> dval (snd x) \<and> dval (snd x) \<le> dval (toDouble hi k)"
  proof
    fix x assume x: "x \<in> set fs"
    have "snd x \<in> set (map snd fs)" using x by simp
    then obtain l where l: "l \<in> set (take (length fs) ls)" "snd x = toDouble (pl_price l) k"
      unfolding fs_def fills_prices[of side limitPx k ls q] by auto
    have ok: "px_ok k (pl_price l)" "lo \<le> pl_price l" "pl_price l \<le> hi" using l(1) assms(2) range in_set_takeD by fast+
    have fin: "is_fin (toDouble lo k)" "is_fin (toDouble hi k)" "is_fin (toDouble (pl_price l) k)"
      using px_ok_props(7) assms(4,5) ok(1) normal_pos by blast+
    have "toDouble lo k \<le> toDouble (pl_price l) k" "toDouble (pl_price l) k \<le> toDouble hi k"
      using ok toDouble_less_iff assms(4,5) by auto
    moreover have "normal (fst x)" using fills_normal[OF assms(1), of ls side limitPx k] assms(2) x by (auto simp: fs_def)
    ultimately show "normal (fst x) \<and> normal (snd x) \<and> dval (toDouble lo k) \<le> dval (snd x) \<and> dval (snd x) \<le> dval (toDouble hi k)"
      using fin l(2) px_ok_props(7)[OF ok(1)] by (simp add: less_eq_fin)
  qed
  have b: "tiny \<le> dval (toDouble lo k)" "dval (toDouble hi k) \<le> big"
    using px_ok_props(7)[OF assms(4)] px_ok_props(7)[OF assms(5)] by (simp_all add: normal_def)
  from mean_tick_between[OF assms(4,5) average_near[OF ne n all b, folded a_def]] show "lo \<le> fromDouble oor a k" "fromDouble oor a k \<le> hi"
    by (simp_all add: less_eq_Price_def)
qed

section \<open>The execution report\<close>

text \<open>\<open>no_worse side p q\<close>: trading at \<open>p\<close> is at least as good for the side as trading at \<open>q\<close>.\<close>

definition no_worse :: "Side \<Rightarrow> Price \<Rightarrow> Price \<Rightarrow> bool" where
  "no_worse side p q = (if side = Bid then p \<le> q else q \<le> p)"

definition walkable :: "double \<Rightarrow> PriceLevel list \<Rightarrow> bool" where
  "walkable k ls \<longleftrightarrow> (\<forall>l \<in> set ls. normal (size_of l) \<and> px_ok k (pl_price l))"

lemma crosses_no_worse: "px_ok k p \<Longrightarrow> px_ok k q \<Longrightarrow> crosses side (toDouble p k) (toDouble q k) \<longleftrightarrow> no_worse side p q"
  by (simp add: crosses_def no_worse_def toDouble_less_iff)

lemma fills_Nil_iff:
  "fills side limitPx k ls q = [] \<longleftrightarrow> (case ls of [] \<Rightarrow> True | l # _ \<Rightarrow> \<not> crosses side (toDouble (pl_price l) k) limitPx)"
  by (cases ls) (simp_all add: Let_def)

lemma fills_levels_no_worse:
  assumes "walkable k ls" "px_ok k lmt" "l \<in> set (take (length (fills side (toDouble lmt k) k ls q)) ls)"
  shows "no_worse side (pl_price l) lmt"
proof -
  let ?fs = "fills side (toDouble lmt k) k ls q"
  have "toDouble (pl_price l) k \<in> set (map snd ?fs)" using assms(3) unfolding fills_prices[of side _ k ls q] by simp
  then obtain f where "(f, toDouble (pl_price l) k) \<in> set ?fs" by auto
  moreover have "px_ok k (pl_price l)" using assms(1,3) in_set_takeD by (fastforce simp: walkable_def)
  ultimately show ?thesis using fills_cross crosses_no_worse[OF _ assms(2)] by blast
qed

lemma better_no_worse: "better (opposite side) (tick_of a) (tick_of b) \<Longrightarrow> no_worse side (pl_price a) (pl_price b)"
  by (cases side) (simp_all add: better_def opposite_def no_worse_def tick_of_def less_eq_Price_def)

lemma no_worse_refl: "no_worse side p p"
  by (simp add: no_worse_def)

definition order_fills :: "nat \<Rightarrow> NewOrder \<Rightarrow> book \<Rightarrow> double \<Rightarrow> (double \<times> double) list" where
  "order_fills cap ord b k = fills (o_side ord) (toDouble (o_price ord) k) k
     (depth cap (opposite (o_side ord)) MAX_BOOK_WALK b) (qvalue (o_qty ord))"

lemma simulate_fields:
  "r_isFill (simulate oor cap ord b k now) = (0 < foldl (+) 0 (map fst (order_fills cap ord b k)))"
  "r_execQty (simulate oor cap ord b k now) = Qty (foldl (+) 0 (map fst (order_fills cap ord b k)))"
  "r_isFill (simulate oor cap ord b k now) \<Longrightarrow> r_execPrice (simulate oor cap ord b k now) =
    fromDouble oor (foldl (+) 0 (map (\<lambda>(f, p). f * p) (order_fills cap ord b k)) / foldl (+) 0 (map fst (order_fills cap ord b k))) k"
  "r_symbolId (simulate oor cap ord b k now) = o_symbolId ord" "r_side (simulate oor cap ord b k now) = o_side ord"
  by (simp_all add: simulate_def fill_loop_fills Let_def order_fills_def)

lemma depth_top:
  assumes "book_ok cap b"
  shows "topOfBook cap s b = (case depth cap s MAX_BOOK_WALK b of [] \<Rightarrow> None | l # _ \<Rightarrow> Some l)"
  using bk.top_hd[OF assms, of MAX_BOOK_WALK s] by (simp add: MAX_BOOK_WALK_def)

lemma depth_walk_length: "length (depth cap s MAX_BOOK_WALK b) \<le> 32"
  using bk.walk_len[of cap s MAX_BOOK_WALK b] by (simp add: MAX_BOOK_WALK_def)

lemma walkable_sizes: "walkable k ls \<Longrightarrow> \<forall>l \<in> set ls. is_fin (size_of l) \<and> 0 < dval (size_of l)"
  using normal_pos by (auto simp: walkable_def)

lemma simulate_qty_fin:
  fixes oor :: "double \<Rightarrow> int" and now :: Timestamp
  assumes "walkable k (depth cap (opposite (o_side ord)) MAX_BOOK_WALK b)"
    "is_fin (qvalue (o_qty ord))" "0 < dval (qvalue (o_qty ord))" "dval (qvalue (o_qty ord)) \<le> big"
  defines "q \<equiv> qvalue (r_execQty (simulate oor cap ord b k now))"
  shows "is_fin q" "0 \<le> dval q" "dval q \<le> dval (qvalue (o_qty ord)) * (1 + 1 / 2 ^ 45)"
    "r_isFill (simulate oor cap ord b k now) \<longleftrightarrow> order_fills cap ord b k \<noteq> []"
proof -
  note f = filled_near[OF assms(2-4) walkable_sizes[OF assms(1)] depth_walk_length,
      where side = "o_side ord" and limitPx = "toDouble (o_price ord) k" and tickSize = k, folded order_fills_def]
  have q: "q = foldl (+) 0 (map fst (order_fills cap ord b k))" by (simp add: q_def simulate_fields(2))
  show "is_fin q" "dval q \<le> dval (qvalue (o_qty ord)) * (1 + 1 / 2 ^ 45)" unfolding q by (fact f)+
  show "0 \<le> dval q" unfolding q by (rule near_nonneg[OF f(2,3)])
  show "r_isFill (simulate oor cap ord b k now) \<longleftrightarrow> order_fills cap ord b k \<noteq> []"
    unfolding simulate_fields(1) by (fact f(6))
qed

lemma simulate_qty:
  fixes oor :: "double \<Rightarrow> int" and now :: Timestamp
  assumes "walkable k (depth cap (opposite (o_side ord)) MAX_BOOK_WALK b)" "normal (qvalue (o_qty ord))"
  defines "q \<equiv> qvalue (r_execQty (simulate oor cap ord b k now))"
  shows "is_fin q" "0 \<le> dval q" "dval q \<le> dval (qvalue (o_qty ord)) * (1 + 1 / 2 ^ 45)"
    "r_isFill (simulate oor cap ord b k now) \<longleftrightarrow> order_fills cap ord b k \<noteq> []"
proof -
  have "is_fin (qvalue (o_qty ord))" "0 < dval (qvalue (o_qty ord))" "dval (qvalue (o_qty ord)) \<le> big"
    using assms(2) normal_pos by (auto simp: normal_def)
  from simulate_qty_fin[OF assms(1) this, of oor now, folded q_def]
  show "is_fin q" "0 \<le> dval q" "dval q \<le> dval (qvalue (o_qty ord)) * (1 + 1 / 2 ^ 45)"
    "r_isFill (simulate oor cap ord b k now) \<longleftrightarrow> order_fills cap ord b k \<noteq> []" .
qed

lemma simulate_isFill:
  assumes "book_ok cap b" "walkable k (depth cap (opposite (o_side ord)) MAX_BOOK_WALK b)"
    "normal (qvalue (o_qty ord))" "px_ok k (o_price ord)"
  shows "r_isFill (simulate oor cap ord b k now) \<longleftrightarrow>
    (\<exists>l. topOfBook cap (opposite (o_side ord)) b = Some l \<and> no_worse (o_side ord) (pl_price l) (o_price ord))"
proof (cases "depth cap (opposite (o_side ord)) MAX_BOOK_WALK b")
  case (Cons l ls)
  then have "px_ok k (pl_price l)" using assms(2) by (simp add: walkable_def)
  from crosses_no_worse[OF this assms(4)] show ?thesis
    using Cons unfolding simulate_qty(4)[OF assms(2,3)] depth_top[OF assms(1)] order_fills_def fills_Nil_iff by simp
qed (simp add: simulate_qty(4)[OF assms(2,3)] depth_top[OF assms(1)] order_fills_def fills_Nil_iff)

lemma simulate_price:
  assumes "book_ok cap b" "walkable k (depth cap (opposite (o_side ord)) MAX_BOOK_WALK b)"
    "normal (qvalue (o_qty ord))" "px_ok k (o_price ord)"
    "r_isFill (simulate oor cap ord b k now)" "topOfBook cap (opposite (o_side ord)) b = Some tp"
  shows "no_worse (o_side ord) (pl_price tp) (r_execPrice (simulate oor cap ord b k now))"
    "no_worse (o_side ord) (r_execPrice (simulate oor cap ord b k now)) (o_price ord)"
proof -
  define ls where "ls = depth cap (opposite (o_side ord)) MAX_BOOK_WALK b"
  obtain ls' where ls: "ls = tp # ls'" using assms(6) unfolding depth_top[OF assms(1)] by (auto simp: ls_def split: list.splits)
  have ne: "order_fills cap ord b k \<noteq> []" using assms(5) simulate_qty(4)[OF assms(2,3)] by blast
  have w: "walkable k ls" using assms(2) by (simp add: ls_def)
  have top: "px_ok k (pl_price tp)" using w by (simp add: ls walkable_def)
  have r: "no_worse (o_side ord) (pl_price tp) (pl_price l) \<and> no_worse (o_side ord) (pl_price l) (o_price ord)"
    if l: "l \<in> set (take (length (order_fills cap ord b k)) ls)" for l
  proof
    have "l \<in> set ls" using l by (rule in_set_takeD)
    then have "l = tp \<or> better (opposite (o_side ord)) (tick_of tp) (tick_of l)"
      using bk.top_best[OF assms(1,6)] by (simp add: ls_def)
    then show "no_worse (o_side ord) (pl_price tp) (pl_price l)" using better_no_worse no_worse_refl by blast
    show "no_worse (o_side ord) (pl_price l) (o_price ord)"
      using fills_levels_no_worse[OF w assms(4)] l by (simp add: order_fills_def ls_def)
  qed
  have fs: "order_fills cap ord b k = fills (o_side ord) (toDouble (o_price ord) k) k ls (qvalue (o_qty ord))"
    by (simp add: order_fills_def ls_def)
  have n: "length ls \<le> 32" unfolding ls_def by (rule depth_walk_length)
  note e = exec_price_between[OF assms(3) w[unfolded walkable_def] n,
      where side = "o_side ord" and limitPx = "toDouble (o_price ord) k", folded fs]
  have x: "r_execPrice (simulate oor cap ord b k now) = fromDouble oor (foldl (+) 0 (map (\<lambda>(f, p). f * p) (order_fills cap ord b k)) /
      foldl (+) 0 (map fst (order_fills cap ord b k))) k" using assms(5) by (rule simulate_fields(3))
  show "no_worse (o_side ord) (pl_price tp) (r_execPrice (simulate oor cap ord b k now))"
    "no_worse (o_side ord) (r_execPrice (simulate oor cap ord b k now)) (o_price ord)"
    using e[OF top assms(4) ne] e[OF assms(4) top ne] r unfolding x no_worse_def by (auto split: if_splits)
qed

section \<open>Properties of the simulator\<close>

text \<open>
  C11. When an order fills, and at what price: the report is a fill exactly when the best opposing
  level is at the limit or better, and then the average price in ticks lies between the best
  opposing level and the limit of the order, although it is computed in doubles.
\<close>

theorem simulate_price_within_limit:
  fixes oor :: "double \<Rightarrow> int" and now :: Timestamp
  assumes "book_ok cap b" "walkable k (depth cap (opposite (o_side ord)) MAX_BOOK_WALK b)"
    "normal (qvalue (o_qty ord))" "px_ok k (o_price ord)"
  defines "r \<equiv> simulate oor cap ord b k now"
  shows "(r_isFill r \<longleftrightarrow>
      (\<exists>l. topOfBook cap (opposite (o_side ord)) b = Some l \<and> no_worse (o_side ord) (pl_price l) (o_price ord)))
    \<and> (\<forall>l. r_isFill r \<and> topOfBook cap (opposite (o_side ord)) b = Some l \<longrightarrow>
         no_worse (o_side ord) (pl_price l) (r_execPrice r) \<and> no_worse (o_side ord) (r_execPrice r) (o_price ord))"
  unfolding r_def using simulate_isFill[OF assms(1-4), of oor now] simulate_price[OF assms(1-4), of oor now] by blast

definition sample_buy :: NewOrder where
  "sample_buy = \<lparr>o_id = 1, o_symbolId = 0, o_side = Bid, o_price = Price 1010, o_qty = Qty 1, o_createdNs = 0\<rparr>"

lemma small_normal: assumes "rep q" "1 \<le> q" "q \<le> 2 ^ 40" shows "normal (dbl q)"
proof -
  have "2 ^ 40 \<le> big" using p2_mono[of 40 400] by (simp add: big_def)
  then show ?thesis using assms big_ge(2) by (simp add: normal_def)
qed

lemma px_ok_unit: "1 \<le> t \<Longrightarrow> t \<le> 2 ^ 40 \<Longrightarrow> px_ok 1 (Price t)"
  using p2_mono[of "- 100" 0] p2_mono[of 0 100] by (simp add: px_ok_def)

lemma sample_walk: "depth 64 Ask MAX_BOOK_WALK (two_level_book 3 40) = [\<lparr>pl_price = Price 1008, pl_qty = Qty (dbl 2)\<rparr>]"
  by code_simp

lemma sample_buy_ok:
  "book_ok 64 (two_level_book 3 40)" "walkable 1 (depth 64 (opposite (o_side sample_buy)) MAX_BOOK_WALK (two_level_book 3 40))"
  "normal (qvalue (o_qty sample_buy))" "px_ok 1 (o_price sample_buy)"
  using two_level_book_ok[of 3 40] small_normal[of 2] small_normal[of 1] px_ok_unit[of 1008] px_ok_unit[of 1010]
  by (simp_all add: sample_buy_def opposite_def sample_walk walkable_def size_of_def)

theorem simulate_price_within_limit_witness:
  "r_isFill (simulate (\<lambda>_. 0) 64 sample_buy (two_level_book 3 40) 1 0) \<and>
   r_execPrice (simulate (\<lambda>_. 0) 64 sample_buy (two_level_book 3 40) 1 0) \<le> Price 1010"
proof -
  have t: "topOfBook 64 (opposite (o_side sample_buy)) (two_level_book 3 40) = Some \<lparr>pl_price = Price 1008, pl_qty = Qty (dbl 2)\<rparr>"
    using depth_top[OF sample_buy_ok(1), of Ask] by (simp add: sample_walk sample_buy_def opposite_def)
  then show ?thesis
    using simulate_price_within_limit[OF sample_buy_ok, of "\<lambda>_. 0" 0]
    by (simp add: sample_buy_def no_worse_def less_eq_Price_def)
qed

text \<open>
  C33. How much fills: the reported quantity is a finite double that is not negative and exceeds
  the quantity of the order by at most one part in \<open>2 ^ 45\<close>, the rounding of up to 32 additions.
\<close>

theorem simulate_quantity_bound:
  assumes "walkable k (depth cap (opposite (o_side ord)) MAX_BOOK_WALK b)" "normal (qvalue (o_qty ord))"
  shows "is_fin (qvalue (r_execQty (simulate oor cap ord b k now)))
    \<and> 0 \<le> dval (qvalue (r_execQty (simulate oor cap ord b k now)))
    \<and> dval (qvalue (r_execQty (simulate oor cap ord b k now))) \<le> dval (qvalue (o_qty ord)) * (1 + 1 / 2 ^ 45)"
  using simulate_qty(1-3)[OF assms, of oor now] by blast

theorem simulate_quantity_bound_witness:
  "is_fin (qvalue (r_execQty (simulate (\<lambda>_. 0) 64 sample_buy (two_level_book 3 40) 1 0)))"
  using simulate_quantity_bound[OF sample_buy_ok(2,3), of "\<lambda>_. 0" 0] by blast

end
