(* ===== verification/Market_Events.thy ===== *)
theory Market_Events
  imports Spsc_Queue Hdr_Histogram Core_Types "HOL-Library.Sublist"
begin

text \<open>
  The network side of the runtime: the parsed messages of
  \<^verbatim>\<open>include/trading/md/coinbase_messages.hpp\<close>, the counters of \<^verbatim>\<open>include/trading/core/metrics.hpp\<close>,
  the events that cross the queue (\<^verbatim>\<open>MarketEvent\<close> of \<^verbatim>\<open>include/trading/core/runtime.hpp\<close>) and
  \<^verbatim>\<open>Runtime::onCoinbaseMessage\<close> of \<^verbatim>\<open>src/core/runtime.cpp\<close>, which turns a message into events.
  The strategy thread pops events while the network thread pushes: what it does before the
  \<open>k\<close>-th attempt to push, and before the final reading of the size, is the argument \<open>env k\<close>.
\<close>

section \<open>Messages, metrics and events\<close>

datatype CoinbaseMsgType = MsgUnknown | MsgSubscriptions | MsgSnapshot | MsgL2Update | MsgHeartbeat | MsgError

record CoinbasePriceLevel =
  lv_price :: double
  lv_qty :: double

record CoinbaseChange =
  ch_side :: Side
  ch_price :: double
  ch_qty :: double

record CoinbaseMessage =
  m_type :: CoinbaseMsgType
  m_product_id :: string
  m_bids :: "CoinbasePriceLevel list"
  m_asks :: "CoinbasePriceLevel list"
  m_changes :: "CoinbaseChange list"
  m_sequence :: u64
  m_error_message :: string

record Metrics =
  wireToParse :: hist
  parseToBook :: hist
  bookToSignal :: hist
  signalToOrder :: hist
  orderToFill :: hist
  tickToSignal :: hist
  queueDepth :: hist
  msgsReceived :: u64
  parseErrors :: u64
  reconnects :: u64
  heartbeatsRecv :: u64
  signalsGenerated :: u64
  ordersSent :: u64
  ordersApproved :: u64
  ordersRejected :: u64
  fillCount :: u64
  partialFills :: u64
  circuitBlocked :: u64
  queueFullDrops :: u64
  preSnapshotDrops :: u64

definition new_metrics :: Metrics where
  "new_metrics = \<lparr>wireToParse = new_hist, parseToBook = new_hist, bookToSignal = new_hist, signalToOrder = new_hist,
     orderToFill = new_hist, tickToSignal = new_hist, queueDepth = new_hist, msgsReceived = 0, parseErrors = 0, reconnects = 0,
     heartbeatsRecv = 0, signalsGenerated = 0, ordersSent = 0, ordersApproved = 0, ordersRejected = 0, fillCount = 0,
     partialFills = 0, circuitBlocked = 0, queueFullDrops = 0, preSnapshotDrops = 0\<rparr>"

text \<open>
  The tagged union of an event; the arrays with their element counts are lists, of at most
  \<open>SNAP_LEVELS\<close> levels and \<open>L2_CHANGES\<close> changes.
\<close>

definition SNAP_LEVELS :: nat where "SNAP_LEVELS = 64"

definition L2_CHANGES :: nat where "L2_CHANGES = 128"

datatype EventBody =
    Snapshot "PriceLevel list" "PriceLevel list"
  | L2Update "CoinbaseChange list"
  | Heartbeat

record MarketEvent =
  recvNs :: Timestamp
  body :: EventBody

definition new_event :: MarketEvent where
  "new_event = \<lparr>recvNs = 0, body = Heartbeat\<rparr>"

section \<open>From messages to events\<close>

definition snap_levels :: "(double \<Rightarrow> int) \<Rightarrow> double \<Rightarrow> CoinbasePriceLevel list \<Rightarrow> PriceLevel list" where
  "snap_levels oor tick ls =
     map (\<lambda>l. \<lparr>pl_price = fromDouble oor (lv_price l) tick, pl_qty = Qty (lv_qty l)\<rparr>) (take (min (length ls) SNAP_LEVELS) ls)"

text \<open>
  The loop over the changes: full chunks are pushed, the last one is left to the caller. The state
  is the number of attempts so far, the queue and the count of drops.
\<close>

function l2_loop :: "nat \<Rightarrow> (nat \<Rightarrow> MarketEvent spsc \<Rightarrow> MarketEvent spsc) \<Rightarrow> Timestamp \<Rightarrow> CoinbaseChange list \<Rightarrow>
    nat \<Rightarrow> MarketEvent spsc \<Rightarrow> u64 \<Rightarrow> MarketEvent \<times> nat \<times> MarketEvent spsc \<times> u64" where
  "l2_loop qcap env ts changes k q drops =
     (let n = min (length changes) L2_CHANGES;
          ev = \<lparr>recvNs = ts, body = L2Update (take n changes)\<rparr> in
      if length changes \<le> n then (ev, k, q, drops)
      else let (pushed, q') = try_push qcap ev (env k q)
           in l2_loop qcap env ts (drop n changes) (k + 1) q' (if pushed then drops else drops + 1))"
  by pat_completeness auto
termination
  by (relation "measure (\<lambda>(qcap, env, ts, changes, k, q, drops). length changes)") (auto simp: L2_CHANGES_def)

text \<open>The retries of a snapshot that did not fit: at most \<open>n\<close> more attempts.\<close>

fun retry_push :: "nat \<Rightarrow> (nat \<Rightarrow> MarketEvent spsc \<Rightarrow> MarketEvent spsc) \<Rightarrow> MarketEvent \<Rightarrow> nat \<Rightarrow> nat \<Rightarrow> MarketEvent spsc \<Rightarrow>
    bool \<times> MarketEvent spsc" where
  "retry_push qcap env ev 0 k q = (False, q)"
| "retry_push qcap env ev (Suc n) k q =
     (case try_push qcap ev (env k q) of (True, q') \<Rightarrow> (True, q') | (False, q') \<Rightarrow> retry_push qcap env ev n (k + 1) q')"

definition SNAPSHOT_RETRIES :: nat where "SNAPSHOT_RETRIES = 200"

definition push_event :: "nat \<Rightarrow> (nat \<Rightarrow> MarketEvent spsc \<Rightarrow> MarketEvent spsc) \<Rightarrow> MarketEvent \<Rightarrow> nat \<Rightarrow>
    MarketEvent spsc \<times> Metrics \<Rightarrow> MarketEvent spsc \<times> Metrics" where
  "push_event qcap env ev k s =
     (let m = (snd s)\<lparr>msgsReceived := msgsReceived (snd s) + 1\<rparr>;
          (pushed0, q0) = try_push qcap ev (env k (fst s));
          (pushed, q) = (if \<not> pushed0 \<and> (case body ev of Snapshot _ _ \<Rightarrow> True | _ \<Rightarrow> False)
                         then retry_push qcap env ev SNAPSHOT_RETRIES (k + 1) q0 else (pushed0, q0));
          m' = (if \<not> pushed then m\<lparr>queueFullDrops := queueFullDrops m + 1\<rparr> else m);
          q' = env (k + SNAPSHOT_RETRIES + 1) q
      in (q', m'\<lparr>queueDepth := recordNs (int (spsc_size q')) (queueDepth m')\<rparr>))"

definition onCoinbaseMessage :: "(double \<Rightarrow> int) \<Rightarrow> nat \<Rightarrow> (nat \<Rightarrow> MarketEvent spsc \<Rightarrow> MarketEvent spsc) \<Rightarrow> double \<Rightarrow>
    Timestamp \<Rightarrow> CoinbaseMessage \<Rightarrow> Timestamp \<Rightarrow> MarketEvent spsc \<times> Metrics \<Rightarrow> MarketEvent spsc \<times> Metrics" where
  "onCoinbaseMessage oor qcap env tick parseDone msg recvTs s =
     (let m = (snd s)\<lparr>wireToParse := recordNs (wrap64 (parseDone - recvTs)) (wireToParse (snd s))\<rparr> in
      case m_type msg of
        MsgSnapshot \<Rightarrow>
          push_event qcap env \<lparr>recvNs = recvTs, body = Snapshot (snap_levels oor tick (m_bids msg)) (snap_levels oor tick (m_asks msg))\<rparr>
            0 (fst s, m)
      | MsgL2Update \<Rightarrow>
          (case l2_loop qcap env recvTs (m_changes msg) 0 (fst s) (queueFullDrops m) of
             (ev, k, q, drops) \<Rightarrow> push_event qcap env ev k (q, m\<lparr>queueFullDrops := drops\<rparr>))
      | MsgHeartbeat \<Rightarrow>
          push_event qcap env \<lparr>recvNs = recvTs, body = Heartbeat\<rparr> 0 (fst s, m\<lparr>heartbeatsRecv := heartbeatsRecv m + 1\<rparr>)
      | _ \<Rightarrow> (fst s, m\<lparr>msgsReceived := msgsReceived m + 1\<rparr>))"

section \<open>Every event is enqueued in order or counted as dropped\<close>

definition pops_only :: "nat \<Rightarrow> (nat \<Rightarrow> 'a spsc \<Rightarrow> 'a spsc) \<Rightarrow> bool" where
  "pops_only qcap env \<longleftrightarrow> (\<forall>k q. spsc_inv qcap q \<longrightarrow>
     spsc_inv qcap (env k q) \<and> (\<exists>n. spsc_contents qcap (env k q) = drop n (spsc_contents qcap q)))"

text \<open>
  \<open>handed qcap q es q' d\<close>: of the events \<open>es\<close> all but \<open>d\<close> were appended to the queue in their order,
  all of them if there was room, while others may have been popped.
\<close>

definition handed :: "nat \<Rightarrow> 'a spsc \<Rightarrow> 'a list \<Rightarrow> 'a spsc \<Rightarrow> nat \<Rightarrow> bool" where
  "handed qcap q es q' d \<longleftrightarrow> spsc_inv qcap q' \<and>
     (\<exists>acc n. subseq acc es \<and> length es = length acc + d \<and> spsc_contents qcap q' = drop n (spsc_contents qcap q @ acc)) \<and>
     (length (spsc_contents qcap q) + length es \<le> qcap \<longrightarrow> d = 0)"

lemma handedI:
  assumes "spsc_inv qcap q'" "subseq acc es" "length es = length acc + d" "spsc_contents qcap q' = drop n (spsc_contents qcap q @ acc)"
    "length (spsc_contents qcap q) + length es \<le> qcap \<Longrightarrow> d = 0"
  shows "handed qcap q es q' d"
  using assms unfolding handed_def by blast

lemma handedE:
  assumes "handed qcap q es q' d"
  obtains acc n where "subseq acc es" "length es = length acc + d" "spsc_contents qcap q' = drop n (spsc_contents qcap q @ acc)"
    "length (spsc_contents qcap q) + length es \<le> qcap \<longrightarrow> d = 0" "spsc_inv qcap q'"
  using assms unfolding handed_def by blast

lemma drop_drop_append: "\<exists>k. drop m (drop n xs @ ys) = drop k (xs @ ys)"
proof -
  have "drop n xs = drop (min n (length xs)) xs" by (simp add: min_def)
  also have "\<dots> @ ys = drop (min n (length xs)) (xs @ ys)" by simp
  finally have "drop m (drop n xs @ ys) = drop (m + min n (length xs)) (xs @ ys)" by simp
  then show ?thesis by blast
qed

lemma handed_trans:
  assumes "handed qcap q es q1 d" "handed qcap q1 fs q2 e" shows "handed qcap q (es @ fs) q2 (d + e)"
proof -
  obtain a n where a: "subseq a es" "length es = length a + d" "spsc_contents qcap q1 = drop n (spsc_contents qcap q @ a)"
    "length (spsc_contents qcap q) + length es \<le> qcap \<longrightarrow> d = 0"
    using assms(1) by (auto simp: handed_def)
  obtain b m where b: "subseq b fs" "length fs = length b + e" "spsc_contents qcap q2 = drop m (spsc_contents qcap q1 @ b)"
    "length (spsc_contents qcap q1) + length fs \<le> qcap \<longrightarrow> e = 0"
    using assms(2) by (auto simp: handed_def)
  obtain k where k: "spsc_contents qcap q2 = drop k (spsc_contents qcap q @ a @ b)"
    using drop_drop_append[of m n "spsc_contents qcap q @ a" b] a(3) b(3) by auto
  have "length (spsc_contents qcap q1) \<le> length (spsc_contents qcap q) + length es" using a(2,3) by simp
  then have r: "d + e = 0" if "length (spsc_contents qcap q) + length (es @ fs) \<le> qcap" using that a(4) b(4) by simp
  have i: "spsc_inv qcap q2" using assms(2) by (simp add: handed_def)
  show ?thesis
    by (rule handedI[OF i _ _ k r]) (use a(1,2) b(1,2) in \<open>simp_all add: list_emb_append_mono\<close>)
qed

lemma handed_env: assumes "pops_only qcap env" "spsc_inv qcap q" shows "handed qcap q [] (env k q) 0"
  using assms unfolding pops_only_def handed_def by (metis append_Nil2 list.size(3) add_0 subseq_order.order_refl)

lemma handed_attempt:
  assumes "pops_only qcap env" "spsc_inv qcap q" "try_push qcap ev (env k q) = (got, q')"
  shows "handed qcap q [ev] q' (if got then 0 else 1)"
proof -
  let ?q = "env k q"
  have i: "spsc_inv qcap ?q" using assms(1,2) by (simp add: pops_only_def)
  have "handed qcap ?q [ev] q' (if got then 0 else 1)"
  proof (cases "length (spsc_contents qcap ?q) < qcap")
    case True
    then have "got" "spsc_contents qcap q' = drop 0 (spsc_contents qcap ?q @ [ev])" "spsc_inv qcap q'"
      using spsc.push_ok[OF i True, of ev] spsc.inv_push[OF i, of ev] assms(3) by simp_all
    then show ?thesis unfolding handed_def by fastforce
  next
    case False
    then have "length (spsc_contents qcap ?q) = qcap" using spsc.bounded[OF i] by simp
    then have "\<not> got" "q' = ?q" using spsc.push_full[OF i, of ev] assms(3) by simp_all
    moreover have "\<exists>n. spsc_contents qcap ?q = drop n (spsc_contents qcap ?q @ [])" by (rule exI[of _ 0]) simp
    ultimately show ?thesis using i False unfolding handed_def by force
  qed
  from handed_trans[OF handed_env[OF assms(1,2)] this] show ?thesis by simp
qed

lemma handed_retry:
  assumes "pops_only qcap env" "spsc_inv qcap q" "retry_push qcap env ev n k q = (got, q')"
  shows "handed qcap q [ev] q' (if got then 0 else 1) \<or> n = 0 \<and> \<not> got \<and> q' = q"
  using assms(2,3)
proof (induction n arbitrary: k q)
  case (Suc n)
  obtain g q1 where p: "try_push qcap ev (env k q) = (g, q1)" by fastforce
  note a = handed_attempt[OF assms(1) Suc.prems(1) p]
  show ?case
  proof (cases g)
    case True
    then show ?thesis using Suc.prems(2) a p by simp
  next
    case False
    then have r: "retry_push qcap env ev n (k + 1) q1 = (got, q')" using Suc.prems(2) p by simp
    have "spsc_inv qcap q1" using a by (simp add: handed_def)
    moreover have "q1 = env k q" using p False by (simp add: try_push_def split: if_splits)
    then have "handed qcap q [] q1 0" using handed_env[OF assms(1) Suc.prems(1)] by simp
    ultimately show ?thesis
      using Suc.IH[OF _ r] handed_trans[of qcap q "[]" q1 0 "[ev]" q' "if got then 0 else 1"] a False by auto
  qed
qed simp

text \<open>The chunks of a list of changes, and the events of a message.\<close>

function chunks :: "'a list \<Rightarrow> 'a list list" where
  "chunks xs = (if length xs \<le> L2_CHANGES then [xs] else take L2_CHANGES xs # chunks (drop L2_CHANGES xs))"
  by pat_completeness auto
termination by (relation "measure length") (auto simp: L2_CHANGES_def)

declare chunks.simps [simp del]

lemma chunks_neq [simp]: "chunks xs \<noteq> []"
  by (simp add: chunks.simps)

lemma chunks_concat: "concat (chunks xs) = xs \<and> (\<forall>c \<in> set (chunks xs). length c \<le> L2_CHANGES)"
proof (induction xs rule: chunks.induct)
  case (1 xs)
  then show ?case by (cases "length xs \<le> L2_CHANGES") (simp_all add: chunks.simps[of xs])
qed

definition l2_event :: "Timestamp \<Rightarrow> CoinbaseChange list \<Rightarrow> MarketEvent" where
  "l2_event ts cs = \<lparr>recvNs = ts, body = L2Update cs\<rparr>"

definition events_of :: "(double \<Rightarrow> int) \<Rightarrow> double \<Rightarrow> CoinbaseMessage \<Rightarrow> Timestamp \<Rightarrow> MarketEvent list" where
  "events_of oor tick msg ts = (case m_type msg of
     MsgSnapshot \<Rightarrow> [\<lparr>recvNs = ts, body = Snapshot (snap_levels oor tick (m_bids msg)) (snap_levels oor tick (m_asks msg))\<rparr>]
   | MsgL2Update \<Rightarrow> map (l2_event ts) (chunks (m_changes msg))
   | MsgHeartbeat \<Rightarrow> [\<lparr>recvNs = ts, body = Heartbeat\<rparr>]
   | _ \<Rightarrow> [])"

lemma handed_refl: "spsc_inv qcap q \<Longrightarrow> handed qcap q [] q 0"
  by (rule handedI[where acc = "[]" and n = 0]) simp_all

declare l2_loop.simps [simp del]

lemma l2_loop_handed:
  assumes "pops_only qcap env" "spsc_inv qcap q" "l2_loop qcap env ts cs k q drops = (ev, k', q', drops')"
  shows "ev = l2_event ts (last (chunks cs))"
    "\<exists>d. handed qcap q (map (l2_event ts) (butlast (chunks cs))) q' d \<and> drops' = drops + of_nat d"
proof -
  have "ev = l2_event ts (last (chunks cs)) \<and> (\<exists>d. handed qcap q (map (l2_event ts) (butlast (chunks cs))) q' d \<and> drops' = drops + of_nat d)"
    using assms(2,3)
  proof (induction cs arbitrary: k q drops rule: chunks.induct)
    case (1 cs)
    show ?case
    proof (cases "length cs \<le> L2_CHANGES")
      case True
      then have "ev = l2_event ts cs \<and> q' = q \<and> drops' = drops"
        using "1.prems"(2) by (simp add: l2_event_def Let_def l2_loop.simps[of qcap env ts cs k q drops])
      then show ?thesis using True handed_refl[OF "1.prems"(1)] by (auto simp: chunks.simps[of cs] intro!: exI[of _ 0])
    next
      case False
      let ?e = "l2_event ts (take L2_CHANGES cs)"
      obtain g q1 where p: "try_push qcap ?e (env k q) = (g, q1)" by fastforce
      define dr where "dr = (if g then drops else drops + 1)"
      have r: "l2_loop qcap env ts (drop L2_CHANGES cs) (k + 1) q1 dr = (ev, k', q', drops')"
        using "1.prems"(2) False p by (simp add: l2_event_def Let_def min_def dr_def l2_loop.simps[of qcap env ts cs k q drops])
      have h: "handed qcap q [?e] q1 (if g then 0 else 1)" by (rule handed_attempt[OF assms(1) "1.prems"(1) p])
      then have i: "spsc_inv qcap q1" by (simp add: handed_def)
      from "1.IH"[OF False i r] obtain d where d: "ev = l2_event ts (last (chunks (drop L2_CHANGES cs)))"
        "handed qcap q1 (map (l2_event ts) (butlast (chunks (drop L2_CHANGES cs)))) q' d" "drops' = dr + of_nat d" by blast
      have "handed qcap q ([?e] @ map (l2_event ts) (butlast (chunks (drop L2_CHANGES cs)))) q' ((if g then 0 else 1) + d)"
        by (rule handed_trans[OF h d(2)])
      moreover have "drops' = drops + of_nat ((if g then 0 else 1) + d)" using d(3) by (simp add: dr_def)
      ultimately show ?thesis using d(1) False by (intro conjI exI[of _ "(if g then 0 else 1) + d"]) (simp_all add: chunks.simps[of cs])
    qed
  qed
  then show "ev = l2_event ts (last (chunks cs))"
    "\<exists>d. handed qcap q (map (l2_event ts) (butlast (chunks cs))) q' d \<and> drops' = drops + of_nat d" by blast+
qed

lemma push_event_handed:
  assumes "pops_only qcap env" "spsc_inv qcap q" "push_event qcap env ev k (q, m) = (q', m')"
  shows "\<exists>d. handed qcap q [ev] q' d \<and> queueFullDrops m' = queueFullDrops m + of_nat d \<and> msgsReceived m' = msgsReceived m + 1"
proof -
  obtain g0 q0 where p: "try_push qcap ev (env k q) = (g0, q0)" by fastforce
  note h0 = handed_attempt[OF assms(1,2) p]
  then have i0: "spsc_inv qcap q0" by (simp add: handed_def)
  define s where "s \<longleftrightarrow> (case body ev of Snapshot _ _ \<Rightarrow> True | _ \<Rightarrow> False)"
  obtain g q1 where r: "(if \<not> g0 \<and> s then retry_push qcap env ev SNAPSHOT_RETRIES (k + 1) q0 else (g0, q0)) = (g, q1)" by fastforce
  have h: "handed qcap q [ev] q1 (if g then 0 else 1)"
  proof (cases "\<not> g0 \<and> s")
    case True
    then have "q0 = env k q" using p by (simp add: try_push_def split: if_splits)
    then have "handed qcap q [] q0 0" using handed_env[OF assms(1,2)] by simp
    moreover have "handed qcap q0 [ev] q1 (if g then 0 else 1)"
      using handed_retry[OF assms(1) i0, of ev SNAPSHOT_RETRIES "k + 1" g q1] r True by (simp add: SNAPSHOT_RETRIES_def)
    ultimately show ?thesis using handed_trans by fastforce
  qed (use r h0 in auto)
  then have i: "spsc_inv qcap q1" by (simp add: handed_def)
  have q': "q' = env (k + SNAPSHOT_RETRIES + 1) q1"
    "queueFullDrops m' = queueFullDrops m + of_nat (if g then 0 else 1)" "msgsReceived m' = msgsReceived m + 1"
    using assms(3) p r by (auto simp: push_event_def Let_def s_def split: if_splits)
  have "handed qcap q ([ev] @ []) q' ((if g then 0 else 1) + 0)" unfolding q'(1) by (rule handed_trans[OF h handed_env[OF assms(1) i]])
  then show ?thesis using q'(2,3) by (metis append_Nil2 add_0_right)
qed

lemma message_handed:
  assumes "pops_only qcap env" "spsc_inv qcap q" "onCoinbaseMessage oor qcap env tick pd msg ts (q, m) = (q', m')"
  shows "\<exists>d. handed qcap q (events_of oor tick msg ts) q' d \<and> queueFullDrops m' = queueFullDrops m + of_nat d \<and>
    msgsReceived m' = msgsReceived m + 1"
proof -
  note push = push_event_handed[OF assms(1)]
  define m0 where "m0 = m\<lparr>wireToParse := recordNs (wrap64 (pd - ts)) (wireToParse m)\<rparr>"
  have m0: "queueFullDrops m0 = queueFullDrops m" "msgsReceived m0 = msgsReceived m" by (simp_all add: m0_def)
  have skip: ?thesis if "events_of oor tick msg ts = []" "(q', m') = (q, m0\<lparr>msgsReceived := msgsReceived m0 + 1\<rparr>)"
    using that handed_refl[OF assms(2)] m0 by (intro exI[of _ 0]) simp
  show ?thesis
  proof (cases "m_type msg")
    case MsgL2Update
    obtain ev k q1 dr where l: "l2_loop qcap env ts (m_changes msg) 0 q (queueFullDrops m0) = (ev, k, q1, dr)" by (rule prod_cases4)
    from l2_loop_handed[OF assms(1,2) l] obtain d where d: "ev = l2_event ts (last (chunks (m_changes msg)))"
      "handed qcap q (map (l2_event ts) (butlast (chunks (m_changes msg)))) q1 d" "dr = queueFullDrops m0 + of_nat d" by blast
    have "push_event qcap env ev k (q1, m0\<lparr>queueFullDrops := dr\<rparr>) = (q', m')"
      using assms(3) MsgL2Update l by (simp add: onCoinbaseMessage_def m0_def)
    from push[OF _ this] d(2) obtain e where e: "handed qcap q1 [ev] q' e" "queueFullDrops m' = dr + of_nat e" "msgsReceived m' = msgsReceived m + 1"
      by (auto simp: handed_def m0)
    have "map (l2_event ts) (butlast (chunks (m_changes msg))) @ [ev] = events_of oor tick msg ts"
      using MsgL2Update append_butlast_last_id[of "map (l2_event ts) (chunks (m_changes msg))"]
      by (simp add: events_of_def d(1) map_butlast last_map)
    then have "handed qcap q (events_of oor tick msg ts) q' (d + e)" using handed_trans[OF d(2) e(1)] by simp
    then show ?thesis using d(3) e(2,3) m0 by (intro exI[of _ "d + e"]) simp
  next
    case MsgSnapshot
    show ?thesis
      using push[OF assms(2), of _ 0 m0 q' m'] assms(3) MsgSnapshot m0 by (simp add: onCoinbaseMessage_def events_of_def m0_def)
  next
    case MsgHeartbeat
    show ?thesis
      using push[OF assms(2), of _ 0 "m0\<lparr>heartbeatsRecv := heartbeatsRecv m0 + 1\<rparr>" q' m'] assms(3) MsgHeartbeat m0
      by (simp add: onCoinbaseMessage_def events_of_def m0_def)
  qed (use skip assms(3) in \<open>auto simp: onCoinbaseMessage_def events_of_def m0_def\<close>)
qed

section \<open>Properties of the network side\<close>

text \<open>
  C12. No market data disappears silently between the network thread and the queue. A message stands
  for a list of events: a snapshot or a heartbeat for one, a batch of changes for chunks of at
  most 128 whose concatenation is the batch, in order. However the strategy thread pops meanwhile,
  every event is either appended to the queue in order or counted in \<open>queueFullDrops\<close>; none is dropped
  when the queue has room for all of them.
\<close>

theorem message_enqueued_or_counted:
  assumes "pops_only qcap env" "spsc_inv qcap q" "onCoinbaseMessage oor qcap env tick pd msg ts (q, m) = (q', m')"
  shows "\<exists>acc n. subseq acc (events_of oor tick msg ts) \<and> spsc_inv qcap q' \<and>
    spsc_contents qcap q' = drop n (spsc_contents qcap q @ acc) \<and>
    queueFullDrops m' = queueFullDrops m + of_nat (length (events_of oor tick msg ts) - length acc) \<and>
    msgsReceived m' = msgsReceived m + 1 \<and>
    (length (spsc_contents qcap q) + length (events_of oor tick msg ts) \<le> qcap \<longrightarrow> acc = events_of oor tick msg ts) \<and>
    (m_type msg = MsgL2Update \<longrightarrow>
       concat (map (\<lambda>e. case body e of L2Update cs \<Rightarrow> cs | _ \<Rightarrow> []) (events_of oor tick msg ts)) = m_changes msg)"
proof -
  let ?es = "events_of oor tick msg ts"
  from message_handed[OF assms] obtain d where d: "handed qcap q ?es q' d" "queueFullDrops m' = queueFullDrops m + of_nat d"
    "msgsReceived m' = msgsReceived m + 1" by (elim exE conjE)
  from d(1) obtain acc n where a: "subseq acc ?es" "length ?es = length acc + d" "spsc_contents qcap q' = drop n (spsc_contents qcap q @ acc)"
    "length (spsc_contents qcap q) + length ?es \<le> qcap \<longrightarrow> d = 0" "spsc_inv qcap q'" by (rule handedE)
  show ?thesis
  proof (intro exI conjI impI)
    show "subseq acc ?es" by (rule a(1))
    show "spsc_inv qcap q'" by (rule a(5))
    show "spsc_contents qcap q' = drop n (spsc_contents qcap q @ acc)" by (rule a(3))
    show "queueFullDrops m' = queueFullDrops m + of_nat (length ?es - length acc)" "msgsReceived m' = msgsReceived m + 1"
      using a(2) d(2,3) by simp_all
    show "acc = ?es" if "length (spsc_contents qcap q) + length ?es \<le> qcap"
      by (rule subseq_same_length[OF a(1)]) (use that a(2,4) in simp)
    show "concat (map (\<lambda>e. case body e of L2Update cs \<Rightarrow> cs | _ \<Rightarrow> []) ?es) = m_changes msg" if "m_type msg = MsgL2Update"
    proof -
      have "map ((\<lambda>e. case body e of L2Update cs \<Rightarrow> cs | _ \<Rightarrow> []) \<circ> l2_event ts) xs = xs" for xs by (induction xs) (simp_all add: l2_event_def)
      then show ?thesis using that chunks_concat[of "m_changes msg"] by (simp add: events_of_def)
    qed
  qed
qed

definition sample_batch :: CoinbaseMessage where
  "sample_batch = \<lparr>m_type = MsgL2Update, m_product_id = ''BTC-USD'', m_bids = [], m_asks = [],
     m_changes = [\<lparr>ch_side = Bid, ch_price = 1, ch_qty = 1\<rparr>], m_sequence = 0, m_error_message = []\<rparr>"

lemma new_metrics_drops [simp]: "queueFullDrops new_metrics = 0"
  by (simp add: new_metrics_def)

lemma idle_pops_only: "pops_only qcap (\<lambda>k q. q)"
  by (auto simp: pops_only_def intro: exI[of _ 0])

theorem message_enqueued_or_counted_witness:
  "queueFullDrops (snd (onCoinbaseMessage (\<lambda>_. 0) 4 (\<lambda>k q. q) 1 0 sample_batch 0 (spsc_new 4 new_event, new_metrics))) = 0"
proof -
  let ?r = "onCoinbaseMessage (\<lambda>_. 0) 4 (\<lambda>k q. q) 1 0 sample_batch 0 (spsc_new 4 new_event, new_metrics)"
  have q: "spsc_inv 4 (spsc_new 4 new_event)" "spsc_contents 4 (spsc_new 4 new_event) = []"
    using spsc_new_inv[OF queue_cap_4, of new_event] by simp_all
  have e: "length (events_of (\<lambda>_. 0) 1 sample_batch 0) = 1"
    by (simp add: events_of_def sample_batch_def chunks.simps L2_CHANGES_def)
  obtain q' m' where r: "?r = (q', m')" by fastforce
  from message_enqueued_or_counted[OF idle_pops_only q(1) r] e q(2) show ?thesis by (auto simp: r)
qed

lemma retry_succeeds:
  assumes "pops_only qcap env" "spsc_inv qcap q" "i < n" "\<forall>q. spsc_inv qcap q \<longrightarrow> length (spsc_contents qcap (env (k + i) q)) < qcap"
  shows "fst (retry_push qcap env ev n k q)"
  using assms(2-4)
proof (induction n arbitrary: k q i)
  case (Suc n)
  obtain g q1 where p: "try_push qcap ev (env k q) = (g, q1)" by fastforce
  have i: "spsc_inv qcap (env k q)" using assms(1) Suc.prems(1) by (simp add: pops_only_def)
  show ?case
  proof (cases g)
    case False
    have "i \<noteq> 0" using False spsc.push_ok[OF i, of ev] Suc.prems(1,3) p by (intro notI) simp
    then obtain j where j: "i = Suc j" by (cases i) auto
    have "spsc_inv qcap q1" using spsc.inv_push[OF i, of ev] p by simp
    then show ?thesis using Suc.IH[of q1 j "k + 1"] Suc.prems(2,3) False p j by simp
  qed (simp add: p)
qed simp

text \<open>
  A snapshot survives a full queue: when the strategy thread makes room before one of the 201
  attempts, the snapshot is enqueued as the youngest event pushed, and no drop is counted.
\<close>

theorem snapshot_retried:
  assumes "pops_only qcap env" "spsc_inv qcap q" "m_type msg = MsgSnapshot" "i \<le> SNAPSHOT_RETRIES"
    "\<forall>q. spsc_inv qcap q \<longrightarrow> length (spsc_contents qcap (env i q)) < qcap"
    "onCoinbaseMessage oor qcap env tick pd msg ts (q, m) = (q', m')"
  shows "queueFullDrops m' = queueFullDrops m"
proof -
  define ev where "ev = \<lparr>recvNs = ts, body = Snapshot (snap_levels oor tick (m_bids msg)) (snap_levels oor tick (m_asks msg))\<rparr>"
  obtain g q0 where p: "try_push qcap ev (env 0 q) = (g, q0)" by fastforce
  have i: "spsc_inv qcap (env 0 q)" using assms(1,2) by (simp add: pops_only_def)
  have i0: "spsc_inv qcap q0" using spsc.inv_push[OF i, of ev] p by simp
  have r: "fst (retry_push qcap env ev SNAPSHOT_RETRIES 1 q0)" if "\<not> g"
  proof -
    have "i \<noteq> 0" using that spsc.push_ok[OF i, of ev] assms(2,5) p by (intro notI) simp
    then show ?thesis using retry_succeeds[OF assms(1) i0, of "i - 1" SNAPSHOT_RETRIES 1 ev] assms(4,5) by simp
  qed
  then show ?thesis
    using assms(3,6) p r by (auto simp: onCoinbaseMessage_def push_event_def ev_def[symmetric] Let_def split: if_splits prod.splits) (auto simp: ev_def)
qed

definition drain :: "'a spsc \<Rightarrow> 'a spsc" where
  "drain q = q\<lparr>tail := head q\<rparr>"

lemma drain_empty: "spsc_contents qcap (drain q) = []"
  by (simp add: spsc_empty_iff drain_def)

lemma drain_pops_only: "pops_only qcap (\<lambda>k. drain)"
proof -
  have "[] = drop (length (spsc_contents qcap q)) (spsc_contents qcap q)" for q :: "'a spsc" by simp
  then show ?thesis unfolding pops_only_def drain_empty by (auto simp: spsc_inv_def drain_def spsc_size_def)
qed

theorem snapshot_retried_witness:
  "queueFullDrops (snd (onCoinbaseMessage (\<lambda>_. 0) 4 (\<lambda>k. drain) 1 0 (sample_batch\<lparr>m_type := MsgSnapshot\<rparr>) 0
     (spsc_new 4 new_event, new_metrics))) = 0"
proof -
  let ?r = "onCoinbaseMessage (\<lambda>_. 0) 4 (\<lambda>k. drain) 1 0 (sample_batch\<lparr>m_type := MsgSnapshot\<rparr>) 0 (spsc_new 4 new_event, new_metrics)"
  have q: "spsc_inv 4 (spsc_new 4 new_event)" using spsc_new_inv[OF queue_cap_4, of new_event] by simp
  obtain q' m' where r: "?r = (q', m')" by fastforce
  from snapshot_retried[OF drain_pops_only q _ _ _ r, of 0] show ?thesis by (simp add: r drain_empty)
qed

end
