(* ===== verification/Order_Sizer.thy ===== *)
theory Order_Sizer
  imports Execution_Engine
begin

text \<open>
  The order sizer of \<^verbatim>\<open>include/trading/strategy/order_sizer.hpp\<close>: it walks the opposing side of
  the book until the target quantity is reached and sets the limit at the last level it touched.
  The properties relate it to the fill simulator, which walks the same levels: an order sized from
  a book fills against that book.
\<close>

section \<open>The sizer\<close>

text \<open>The loop, with the state \<open>accSize\<close>, \<open>limitPx\<close>.\<close>

fun size_loop :: "double \<Rightarrow> double \<Rightarrow> PriceLevel list \<Rightarrow> double \<Rightarrow> double \<Rightarrow> double \<times> double" where
  "size_loop tickSize targetQty [] accSize limitPx = (accSize, limitPx)"
| "size_loop tickSize targetQty (l # ls) accSize limitPx =
     (let px = toDouble (pl_price l) tickSize;
          fill = std_min (targetQty - accSize) (qvalue (pl_qty l)) in
      if fill \<le> 0 then (accSize, limitPx)
      else let accSize' = accSize + fill in
        if targetQty \<le> accSize' then (accSize', px)
        else size_loop tickSize targetQty ls accSize' px)"

definition computeOrder :: "(double \<Rightarrow> int) \<Rightarrow> nat \<Rightarrow> book \<Rightarrow> double \<Rightarrow> Side \<Rightarrow> double \<Rightarrow> Signal" where
  "computeOrder oor cap b tickSize side targetQty =
     (if targetQty \<le> 0 then signal_none
      else let liquidity = (if side = Bid then Ask else Bid);
               lvls = depth cap liquidity MAX_BOOK_WALK b in
        if length lvls = 0 then signal_none
        else let (accSize, limitPx) = size_loop tickSize targetQty lvls 0 0 in
          if accSize \<le> 0 then signal_none
          else \<lparr>s_action = (if side = Bid then Buy else Sell), s_price = fromDouble oor limitPx tickSize,
                s_qty = Qty accSize, s_ts = 0\<rparr>)"

section \<open>The walk\<close>

text \<open>What the walk takes of each level.\<close>

fun takes :: "double \<Rightarrow> PriceLevel list \<Rightarrow> double \<Rightarrow> double list" where
  "takes targetQty [] accSize = []"
| "takes targetQty (l # ls) accSize =
     (let fill = std_min (targetQty - accSize) (size_of l) in
      if fill \<le> 0 then []
      else fill # (if targetQty \<le> accSize + fill then [] else takes targetQty ls (accSize + fill)))"

lemma size_loop_takes:
  "size_loop k target ls acc lim0 =
     (let ts = takes target ls acc
      in (foldl (+) acc ts, if ts = [] then lim0 else toDouble (pl_price (ls ! (length ts - 1))) k))"
proof (induction ls arbitrary: acc lim0)
  case (Cons l ls)
  define f where "f = std_min (target - acc) (size_of l)"
  show ?case
  proof (cases "f \<le> 0 \<or> target \<le> acc + f")
    case True
    then show ?thesis by (auto simp: Let_def f_def size_of_def)
  next
    case False
    then show ?thesis using Cons.IH[of "acc + f" "toDouble (pl_price l) k"]
      by (auto simp: Let_def f_def[symmetric] size_of_def[symmetric])
  qed
qed simp

lemma length_takes: "length (takes target ls acc) \<le> length ls"
  by (induction ls arbitrary: acc) (auto simp: Let_def)

text \<open>
  While the target is not reached the walk takes a positive amount of every level, at most its
  size, and the total exceeds the target by at most two roundings.
\<close>

lemma take_one:
  assumes "is_fin tg" "dval tg * 2 \<le> big" "is_fin acc" "0 \<le> dval acc" "dval acc < dval tg" "is_fin z" "0 < dval z"
  defines "f \<equiv> std_min (tg - acc) z"
  shows "is_fin f" "0 < dval f" "dval f \<le> dval z" "is_fin (acc + f)" "dval acc + dval f \<le> dval tg * ee"
    "near 1 (dval (acc + f)) (dval acc + dval f)" "dval (acc + f) \<le> dval tg * ee ^ 2"
proof -
  note d = diff_near[OF assms(1,3,4) less_imp_le[OF assms(5)]]
  have "dval tg - dval acc \<le> dval (tg - acc) * ee" using d(2) by (simp add: near_def)
  then have "0 < dval (tg - acc) * ee" using assms(5) by linarith
  then have dp: "0 < dval (tg - acc)" using ee_pos(1) by (simp add: zero_less_mult_iff)
  have fv: "is_fin f" "dval f = min (dval (tg - acc)) (dval z)" using std_min_fin[OF d(1) assms(6)] by (simp_all add: f_def)
  show "is_fin f" "0 < dval f" "dval f \<le> dval z" using fv dp assms(7) by simp_all
  have "dval f \<le> (dval tg - dval acc) * ee" using fv(2) d(2) by (auto simp: near_def min_le_iff_disj)
  moreover have "dval acc \<le> dval acc * ee" using assms(4) mult_left_mono[OF ee_pos(3) assms(4)] by simp
  ultimately show s: "dval acc + dval f \<le> dval tg * ee" by (simp add: algebra_simps)
  have "dval tg * ee \<le> dval tg * 2" using assms(4,5) by (intro mult_left_mono) (simp_all add: ee_def)
  also have "\<dots> \<le> 2 * big" using assms(2) big_props(2) by linarith
  finally have "dval acc + dval f \<le> 2 * big" using s by linarith
  note a = add_near[OF assms(3) fv(1) assms(4) less_imp_le[OF \<open>0 < dval f\<close>] big_props(3) this]
  show "is_fin (acc + f)" "near 1 (dval (acc + f)) (dval acc + dval f)" by (fact a)+
  have "dval (acc + f) \<le> (dval acc + dval f) * ee" using a(2) by (simp add: near_def)
  also have "\<dots> \<le> dval tg * ee * ee" using s by (rule mult_right_mono) simp
  finally show "dval (acc + f) \<le> dval tg * ee ^ 2" by (simp add: power2_eq_square mult.assoc)
qed

lemma takes_props:
  assumes "is_fin tg" "dval tg * 2 \<le> big" "is_fin acc" "0 \<le> dval acc" "dval acc < dval tg"
    "\<forall>l \<in> set ls. is_fin (size_of l) \<and> 0 < dval (size_of l)" "ls \<noteq> []"
  shows "takes tg ls acc \<noteq> []" "is_fin (foldl (+) acc (takes tg ls acc))"
    "dval (foldl (+) acc (takes tg ls acc)) \<le> dval tg * ee ^ 2"
    "near (length (takes tg ls acc)) (dval (foldl (+) acc (takes tg ls acc))) (dval acc + sum_list (map dval (takes tg ls acc)))"
    "\<forall>i < length (takes tg ls acc). is_fin (takes tg ls acc ! i) \<and> 0 < dval (takes tg ls acc ! i) \<and> dval (takes tg ls acc ! i) \<le> dval (size_of (ls ! i))"
proof -
  have "takes tg ls acc \<noteq> [] \<and> is_fin (foldl (+) acc (takes tg ls acc)) \<and>
    dval (foldl (+) acc (takes tg ls acc)) \<le> dval tg * ee ^ 2 \<and>
    near (length (takes tg ls acc)) (dval (foldl (+) acc (takes tg ls acc))) (dval acc + sum_list (map dval (takes tg ls acc))) \<and>
    (\<forall>i < length (takes tg ls acc). is_fin (takes tg ls acc ! i) \<and> 0 < dval (takes tg ls acc ! i) \<and> dval (takes tg ls acc ! i) \<le> dval (size_of (ls ! i)))"
    using assms(3-7)
  proof (induction ls arbitrary: acc)
    case (Cons l ls)
    have z: "is_fin (size_of l)" "0 < dval (size_of l)" using Cons.prems(4) by simp_all
    define f where "f = std_min (tg - acc) (size_of l)"
    note f = take_one[OF assms(1,2) Cons.prems(1-3) z, folded f_def]
    have pos: "\<not> f \<le> 0" using f(1,2) by (simp add: less_eq_fin)
    show ?case
    proof (cases "tg \<le> acc + f \<or> ls = []")
      case True
      then have "takes tg (l # ls) acc = [f]" using pos by (auto simp: Let_def f_def)
      then show ?thesis using f by simp
    next
      case False
      define ts where "ts = takes tg ls (acc + f)"
      have t: "takes tg (l # ls) acc = f # ts" using pos False by (simp add: Let_def f_def ts_def)
      have "dval (acc + f) < dval tg" using False f(4) assms(1) by (simp add: less_eq_fin)
      moreover have a0: "0 \<le> dval (acc + f)" using near_nonneg[OF f(6)] f(2) Cons.prems(2) by simp
      ultimately have ih: "is_fin (foldl (+) (acc + f) ts)" "dval (foldl (+) (acc + f) ts) \<le> dval tg * ee ^ 2"
        "near (length ts) (dval (foldl (+) (acc + f) ts)) (dval (acc + f) + sum_list (map dval ts))"
        "\<forall>i < length ts. is_fin (ts ! i) \<and> 0 < dval (ts ! i) \<and> dval (ts ! i) \<le> dval (size_of (ls ! i))"
        using Cons.IH[of "acc + f"] Cons.prems(4) f(4) False by (simp_all add: ts_def)
      have s0: "0 \<le> sum_list (map dval ts)" using ih(4) by (intro sum_list_nonneg) (auto simp: in_set_conv_nth less_imp_le)
      have "near 1 (sum_list (map dval ts)) (sum_list (map dval ts))" using s0 by (intro near_mono[OF near_refl]) simp_all
      from near_trans[OF ih(3) near_add[OF f(6) this]]
      have "near (length (f # ts)) (dval (foldl (+) (acc + f) ts)) (dval acc + sum_list (map dval (f # ts)))"
        by (simp add: add.assoc)
      moreover have "\<forall>i < length (f # ts). is_fin ((f # ts) ! i) \<and> 0 < dval ((f # ts) ! i) \<and> dval ((f # ts) ! i) \<le> dval (size_of ((l # ls) ! i))"
        using ih(4) f(1-3) by (auto simp: less_Suc_eq_0_disj)
      ultimately show ?thesis unfolding t using ih(1,2) by simp
    qed
  qed simp
  then show "takes tg ls acc \<noteq> []" "is_fin (foldl (+) acc (takes tg ls acc))"
    "dval (foldl (+) acc (takes tg ls acc)) \<le> dval tg * ee ^ 2"
    "near (length (takes tg ls acc)) (dval (foldl (+) acc (takes tg ls acc))) (dval acc + sum_list (map dval (takes tg ls acc)))"
    "\<forall>i < length (takes tg ls acc). is_fin (takes tg ls acc ! i) \<and> 0 < dval (takes tg ls acc ! i) \<and> dval (takes tg ls acc ! i) \<le> dval (size_of (ls ! i))"
    by blast+
qed

text \<open>The walk takes enough: it reaches the target up to two roundings, or takes the whole of every level.\<close>

lemma takes_enough:
  assumes "is_fin tg" "dval tg * 2 \<le> big" "is_fin acc" "0 \<le> dval acc" "dval acc < dval tg"
    "\<forall>l \<in> set ls. is_fin (size_of l) \<and> 0 < dval (size_of l)"
  shows "dval acc \<le> dval (foldl (+) acc (takes tg ls acc)) \<and>
    (dval tg \<le> dval (foldl (+) acc (takes tg ls acc)) * ee ^ 2 \<or> takes tg ls acc = map size_of ls)"
  using assms(3-6)
proof (induction ls arbitrary: acc)
  case (Cons l ls)
  have z: "is_fin (size_of l)" "0 < dval (size_of l)" using Cons.prems(4) by simp_all
  define f ts where "f = std_min (tg - acc) (size_of l)" and "ts = takes tg (l # ls) acc"
  note f = take_one[OF assms(1,2) Cons.prems(1-3) z, folded f_def]
  have pos: "\<not> f \<le> 0" using f(1,2) by (simp add: less_eq_fin)
  have up: "dval acc \<le> dval (acc + f)"
    using rnd_mono[of "dval acc" "dval acc + dval f"] f(2) dval_add[OF Cons.prems(1) f(1,4)] by simp
  have ih: "dval (acc + f) \<le> dval (foldl (+) (acc + f) (takes tg ls (acc + f))) \<and>
      (dval tg \<le> dval (foldl (+) (acc + f) (takes tg ls (acc + f))) * ee ^ 2 \<or> takes tg ls (acc + f) = map size_of ls)" if "\<not> tg \<le> acc + f"
    using Cons.IH[of "acc + f"] Cons.prems that f(4) up assms(1) by (simp add: less_eq_fin)
  have ts: "ts = f # (if tg \<le> acc + f then [] else takes tg ls (acc + f))" using pos by (simp add: ts_def f_def Let_def)
  have mono: "dval (acc + f) \<le> dval (foldl (+) acc ts)" using ih by (simp add: ts)
  have grow: "dval tg \<le> dval (foldl (+) acc ts) * ee ^ 2" if "dval tg \<le> dval (acc + f) * ee ^ 2"
    using that mult_right_mono[OF mono, of "ee ^ 2"] by simp
  have "dval tg \<le> dval (foldl (+) acc ts) * ee ^ 2 \<or> ts = map size_of (l # ls)"
  proof (cases "f = tg - acc")
    case True
    have "dval tg - dval acc \<le> dval f * ee"
      using diff_near(2)[OF assms(1) Cons.prems(1,2) less_imp_le[OF Cons.prems(3)]] by (simp add: near_def True)
    moreover have "dval acc \<le> dval acc * ee" using mult_left_mono[OF ee_pos(3) Cons.prems(2)] by simp
    ultimately have "dval tg \<le> (dval acc + dval f) * ee" by (simp add: algebra_simps)
    also have "\<dots> \<le> dval (acc + f) * ee * ee" using f(6) by (intro mult_right_mono) (simp_all add: near_def)
    finally show ?thesis using grow by (simp add: power2_eq_square mult.assoc)
  next
    case False
    then have e: "f = size_of l" by (auto simp: f_def std_min_def split: if_splits)
    show ?thesis
    proof (cases "tg \<le> acc + f")
      case True
      then have "dval tg \<le> dval (acc + f)" using assms(1) f(4) by (simp add: less_eq_fin)
      also have "\<dots> \<le> dval (acc + f) * ee ^ 2" using up Cons.prems(2) mult_left_mono[OF ee_pos(6), of "dval (acc + f)" 2] by simp
      finally show ?thesis using grow by blast
    qed (use ih e in \<open>auto simp: ts\<close>)
  qed
  then show ?case using up mono unfolding ts_def[symmetric] by simp
qed simp

section \<open>The order\<close>

definition order_takes :: "nat \<Rightarrow> book \<Rightarrow> Side \<Rightarrow> double \<Rightarrow> double list" where
  "order_takes cap b side tg = takes tg (depth cap (opposite side) MAX_BOOK_WALK b) 0"

text \<open>Quantities with a factor 2 to spare in the normal range, so that a sum of takes stays normal.\<close>

definition roomy :: "double \<Rightarrow> bool" where
  "roomy x \<longleftrightarrow> is_fin x \<and> 2 * tiny \<le> dval x \<and> dval x * 2 \<le> big"

definition walk_roomy :: "double \<Rightarrow> PriceLevel list \<Rightarrow> bool" where
  "walk_roomy k ls \<longleftrightarrow> (\<forall>l \<in> set ls. roomy (size_of l) \<and> px_ok k (pl_price l))"

lemma roomy_normal: "roomy x \<Longrightarrow> normal x"
  using big_props(1,2) by (auto simp: roomy_def normal_def)

lemma walk_roomy_walkable: "walk_roomy k ls \<Longrightarrow> walkable k ls"
  by (simp add: walk_roomy_def walkable_def roomy_normal)

lemma first_take:
  assumes "roomy tg" "roomy (size_of l)" shows "2 * tiny \<le> dval (takes tg (l # ls) 0 ! 0)"
proof -
  have f: "is_fin tg" "is_fin (size_of l)" "2 * tiny \<le> dval tg" "2 * tiny \<le> dval (size_of l)" using assms by (auto simp: roomy_def)
  have d: "is_fin (tg - 0)" "dval (tg - 0) = dval tg" using diff_bound[OF f(1) is_fin_0, of "\<bar>dval tg\<bar>"] by simp_all
  have m: "is_fin (std_min (tg - 0) (size_of l))" "2 * tiny \<le> dval (std_min (tg - 0) (size_of l))"
    using std_min_fin[OF d(1) f(2)] d(2) f(3,4) by simp_all
  then have "0 < dval (std_min (tg - 0) (size_of l))" using big_props(1) by linarith
  then have "\<not> std_min (tg - 0) (size_of l) \<le> 0" using m(1) by (simp add: less_eq_fin)
  then show ?thesis using m(2) by (simp add: Let_def)
qed

lemma computeOrder_sized:
  fixes oor :: "double \<Rightarrow> int"
  assumes "walk_roomy k (depth cap (opposite side) MAX_BOOK_WALK b)" "depth cap (opposite side) MAX_BOOK_WALK b \<noteq> []" "roomy tg"
  defines "ls \<equiv> depth cap (opposite side) MAX_BOOK_WALK b" and "ts \<equiv> order_takes cap b side tg"
  defines "s \<equiv> computeOrder oor cap b k side tg"
  shows "ts \<noteq> []" "length ts \<le> length ls" "s_action s = (if side = Bid then Buy else Sell)"
    "s_price s = pl_price (ls ! (length ts - 1))" "qvalue (s_qty s) = foldl (+) 0 ts"
    "normal (qvalue (s_qty s))" "dval (qvalue (s_qty s)) \<le> dval tg * ee ^ 2"
    "near 32 (dval (qvalue (s_qty s))) (sum_list (map dval ts))"
    "\<forall>i < length ts. 0 < dval (ts ! i) \<and> dval (ts ! i) \<le> dval (size_of (ls ! i))"
proof -
  have tg: "is_fin tg" "dval tg * 2 \<le> big" "0 < dval tg" using assms(3) normal_pos[OF roomy_normal] by (auto simp: roomy_def)
  have w: "walkable k ls" using walk_roomy_walkable[OF assms(1)] by (simp add: ls_def)
  have ne: "ls \<noteq> []" using assms(2) by (simp add: ls_def)
  note t = takes_props[OF tg(1,2) is_fin_0 _ _ walkable_sizes[OF w] ne, unfolded dval_0, OF order_refl tg(3)]
  have ts: "ts = takes tg ls 0" by (simp add: ts_def order_takes_def ls_def)
  show nt: "ts \<noteq> []" using t(1) by (simp add: ts)
  show len: "length ts \<le> length ls" using length_takes[of tg ls 0] by (simp add: ts)
  have n32: "length ts \<le> 32" using len depth_walk_length[of cap "opposite side" b] by (simp add: ls_def)
  have pos: "\<forall>i < length ts. is_fin (ts ! i) \<and> 0 < dval (ts ! i) \<and> dval (ts ! i) \<le> dval (size_of (ls ! i))" using t(5) by (simp add: ts)
  then show "\<forall>i < length ts. 0 < dval (ts ! i) \<and> dval (ts ! i) \<le> dval (size_of (ls ! i))" by blast
  have m: "\<forall>x \<in> set (map dval ts). 0 \<le> x" using pos by (auto simp: in_set_conv_nth less_imp_le)
  have s0: "0 \<le> sum_list (map dval ts)" using m by (intro sum_list_nonneg) blast
  define q where "q = foldl (+) 0 ts"
  have nr: "near (length ts) (dval q) (sum_list (map dval ts))" using t(4) by (simp add: ts q_def)
  have q0: "0 \<le> dval q" using near_nonneg[OF nr s0] .
  have nr32: "near 32 (dval q) (sum_list (map dval ts))" by (rule near_mono[OF nr n32 q0 s0])
  have qf: "is_fin q" "dval q \<le> dval tg * ee ^ 2" using t(2,3) by (simp_all add: ts q_def)
  have "2 * tiny \<le> dval (ts ! 0)"
    using ne assms(1,3) first_take[of tg "hd ls" "tl ls"] unfolding ts walk_roomy_def ls_def[symmetric] by (cases ls) auto
  also have "\<dots> \<le> sum_list (map dval ts)" using member_le_sum_list[of "dval (ts ! 0)" "map dval ts"] m nt by simp
  also have "\<dots> \<le> dval q * ee ^ 32" using nr32 by (simp add: near_def)
  also have "\<dots> \<le> dval q * 2" using q0 ee_power_small(1) by (intro mult_left_mono) simp_all
  finally have lo: "tiny \<le> dval q" by simp
  have "dval tg * ee ^ 2 \<le> dval tg * 2" using tg(3) by (intro mult_left_mono) (simp_all add: ee_def power2_eq_square)
  then have hi: "dval q \<le> big" using qf(2) tg(2) by linarith
  have "0 < dval q" using lo big_props(1) by linarith
  then have np: "\<not> q \<le> 0" "\<not> tg \<le> 0" using qf(1) tg by (simp_all add: less_eq_fin)
  have lq: "(if side = Bid then Ask else Bid) = opposite side" by (simp add: opposite_def)
  define p where "p = pl_price (ls ! (length ts - 1))"
  have "length ts - 1 < length ls" using nt len by (cases ts) auto
  then have "px_ok k p" using w nth_mem by (simp add: p_def walkable_def)
  then have rt: "fromDouble oor (toDouble p k) k = p" using px_ok_props(1,2) by (intro fromDouble_toDouble) auto
  have "size_loop k tg ls 0 0 = (q, toDouble p k)" using nt by (simp add: size_loop_takes ts[symmetric] q_def p_def)
  then have s: "s = \<lparr>s_action = (if side = Bid then Buy else Sell), s_price = p, s_qty = Qty q, s_ts = 0\<rparr>"
    unfolding s_def computeOrder_def Let_def lq ls_def[symmetric] using ne np rt by simp
  show "s_action s = (if side = Bid then Buy else Sell)" "s_price s = pl_price (ls ! (length ts - 1))"
    "qvalue (s_qty s) = foldl (+) 0 ts" by (simp_all add: s p_def q_def)
  show "normal (qvalue (s_qty s))" using qf(1) lo hi by (simp add: s normal_def)
  show "dval (qvalue (s_qty s)) \<le> dval tg * ee ^ 2" "near 32 (dval (qvalue (s_qty s))) (sum_list (map dval ts))"
    using qf(2) nr32 by (simp_all add: s)
qed

lemma sum_list_prefix_le:
  fixes f :: "'a \<Rightarrow> rat"
  assumes "length ts \<le> length ls" "\<forall>i < length ts. dval (ts ! i) \<le> f (ls ! i)" "\<forall>l \<in> set ls. 0 \<le> f l" "length ts \<le> n" "n \<le> length ls"
  shows "sum_list (map dval ts) \<le> sum_list (map f (take n ls))"
proof -
  have "sum_list (map dval ts) \<le> sum_list (map f (take (length ts) ls))"
    using assms(1,2) by (intro sum_list_mono2) auto
  also have "take n ls = take (length ts) ls @ take (n - length ts) (drop (length ts) ls)"
    using assms(4) by (metis append_take_drop_id le_add_diff_inverse take_add)
  then have "sum_list (map f (take (length ts) ls)) \<le> sum_list (map f (take n ls))"
    using assms(3) by (auto intro!: sum_list_nonneg dest!: in_set_takeD in_set_dropD)
  finally show ?thesis .
qed

text \<open>
  The size of the order: the smaller of the target and of what the walked levels offer, up to the
  roundings of the walk.
\<close>

lemma computeOrder_enough:
  fixes oor :: "double \<Rightarrow> int"
  assumes "walk_roomy k (depth cap (opposite side) MAX_BOOK_WALK b)" "depth cap (opposite side) MAX_BOOK_WALK b \<noteq> []" "roomy tg"
  defines "q \<equiv> dval (qvalue (s_qty (computeOrder oor cap b k side tg)))"
    and "offer \<equiv> sum_list (map (\<lambda>l. dval (size_of l)) (depth cap (opposite side) MAX_BOOK_WALK b))"
  shows "min (dval tg) offer \<le> q * ee ^ 32" "q \<le> offer * ee ^ 32"
proof -
  let ?ls = "depth cap (opposite side) MAX_BOOK_WALK b" and ?ts = "order_takes cap b side tg"
  note len = computeOrder_sized(2)[OF assms(1-3)] and c = computeOrder_sized(5,6,8)[OF assms(1-3), of oor] and t = computeOrder_sized(9)[OF assms(1-3)]
  have tg: "is_fin tg" "dval tg * 2 \<le> big" "0 < dval tg" using assms(3) normal_pos[OF roomy_normal] by (auto simp: roomy_def)
  have sz: "\<forall>l \<in> set ?ls. is_fin (size_of l) \<and> 0 < dval (size_of l)" using walkable_sizes[OF walk_roomy_walkable[OF assms(1)]] .
  have q: "q = dval (foldl (+) 0 ?ts)" by (simp add: q_def c(1))
  have nr: "near 32 q (sum_list (map dval ?ts))" using c(3) by (simp add: q_def)
  have q0: "0 \<le> q" using normal_pos[OF c(2)] by (simp add: q_def)
  have "sum_list (map dval ?ts) \<le> offer"
    using sum_list_prefix_le[OF len, of "\<lambda>l. dval (size_of l)" "length ?ls"] len t sz by (auto simp: offer_def less_imp_le)
  then have "sum_list (map dval ?ts) * ee ^ 32 \<le> offer * ee ^ 32" by (rule mult_right_mono) simp
  then show "q \<le> offer * ee ^ 32" using nr by (simp add: near_def)
  have "q * ee ^ 2 \<le> q * ee ^ 32" using q0 by (intro mult_left_mono power_increasing) simp_all
  moreover have "dval tg \<le> q * ee ^ 2 \<or> ?ts = map size_of ?ls"
    using takes_enough[OF tg(1,2) is_fin_0 _ _ sz] tg(3) by (simp add: q order_takes_def)
  moreover have "offer \<le> q * ee ^ 32" if "?ts = map size_of ?ls"
    using nr that by (simp add: near_def offer_def comp_def)
  ultimately show "min (dval tg) offer \<le> q * ee ^ 32" by (auto simp: min_le_iff_disj)
qed

section \<open>Filling a sized order\<close>

text \<open>
  A walk of the simulator ends with at most the tolerance left over, or has taken the whole of
  every level that crosses the limit.
\<close>

lemma fills_complete:
  assumes "is_fin rem" "0 < dval rem" "\<forall>l \<in> set ls. is_fin (size_of l) \<and> 0 < dval (size_of l)"
  shows "(\<exists>left. 0 \<le> left \<and> left \<le> dval FILL_EPS \<and> near (length (fills side lp k ls rem)) (filled_sum (fills side lp k ls rem) + left) (dval rem))
    \<or> map fst (fills side lp k ls rem) = map size_of (takeWhile (\<lambda>l. crosses side (toDouble (pl_price l) k) lp) ls)"
  using assms
proof (induction ls arbitrary: rem)
  case (Cons l ls)
  define f where "f = (if rem < size_of l then rem else size_of l)"
  note f = fill_first[of rem "size_of l", folded f_def]
  define fs where "fs = fills side lp k ls (rem - f)"
  note e = fills_Cons[of side lp k l ls rem, unfolded Let_def, folded f_def, folded fs_def]
  consider "\<not> crosses side (toDouble (pl_price l) k) lp" | (enough) "crosses side (toDouble (pl_price l) k) lp" "rem - f \<le> FILL_EPS"
    | (more) "crosses side (toDouble (pl_price l) k) lp" "\<not> rem - f \<le> FILL_EPS" by blast
  then show ?case
  proof cases
    case enough
    have "near 1 (dval f + dval (rem - f)) (dval rem)" using f(6)[OF _ _ _ _ near_refl] f(4) Cons.prems by simp
    moreover have "dval (rem - f) \<le> dval FILL_EPS" using enough(2) f(3) Cons.prems FILL_EPS_val(1) by (simp add: less_eq_fin)
    ultimately show ?thesis using e enough f(4) Cons.prems by auto
  next
    case more
    have fz: "0 < dval (rem - f)" "f = size_of l" using f(5)[OF _ _ _ _ more(2)] Cons.prems by auto
    have ih: "(\<exists>left. 0 \<le> left \<and> left \<le> dval FILL_EPS \<and> near (length fs) (filled_sum fs + left) (dval (rem - f)))
        \<or> map fst fs = map size_of (takeWhile (\<lambda>l. crosses side (toDouble (pl_price l) k) lp) ls)"
      using Cons.IH[of "rem - f"] Cons.prems f(3) fz(1) by (simp add: fs_def)
    have "near (Suc (length fs)) (dval f + filled_sum fs + left) (dval rem)" if "near (length fs) (filled_sum fs + left) (dval (rem - f))" for left
      using f(6)[OF _ _ _ _ that] Cons.prems by (simp add: add.assoc)
    then show ?thesis using ih more e fz(2) by auto
  qed (use e in simp)
qed simp

lemma takeWhile_take: "n \<le> length xs \<Longrightarrow> \<forall>i < n. P (xs ! i) \<Longrightarrow> \<exists>m \<ge> n. m \<le> length xs \<and> takeWhile P xs = take m xs"
proof -
  assume a: "n \<le> length xs" "\<forall>i < n. P (xs ! i)"
  have "n \<le> length (takeWhile P xs)"
    using a by (intro length_takeWhile_less_P_nth) auto
  then show ?thesis using takeWhile_eq_take[of P xs] length_takeWhile_le[of P xs] by blast
qed

text \<open>The order that the runtime builds from a signal.\<close>

definition order_of :: "Side \<Rightarrow> Signal \<Rightarrow> NewOrder \<Rightarrow> bool" where
  "order_of side s ord \<longleftrightarrow> o_side ord = side \<and> o_price ord = s_price s \<and> o_qty ord = s_qty s"

lemma sized_levels_cross:
  assumes "book_ok cap b" "walk_roomy k (depth cap (opposite side) MAX_BOOK_WALK b)"
    "n < length (depth cap (opposite side) MAX_BOOK_WALK b)" "i \<le> n"
  shows "crosses side (toDouble (pl_price (depth cap (opposite side) MAX_BOOK_WALK b ! i)) k)
    (toDouble (pl_price (depth cap (opposite side) MAX_BOOK_WALK b ! n)) k)"
proof -
  let ?ls = "depth cap (opposite side) MAX_BOOK_WALK b"
  have px: "px_ok k (pl_price (?ls ! i))" "px_ok k (pl_price (?ls ! n))"
    using assms(2-4) by (simp_all add: walk_roomy_def)
  have "no_worse side (pl_price (?ls ! i)) (pl_price (?ls ! n))"
  proof (cases "i = n")
    case False
    then have "better (opposite side) (tick_of (?ls ! i)) (tick_of (?ls ! n))"
      using bk.walk_nth_better[OF assms(1), of i n "opposite side" MAX_BOOK_WALK] assms(3,4) by simp
    then show ?thesis by (rule better_no_worse)
  qed (simp add: no_worse_refl)
  then show ?thesis by (simp add: crosses_no_worse[OF px])
qed

text \<open>The slack of two sums of 32 terms and of the tolerance.\<close>

lemma slack_32:
  assumes "s \<le> F * ee ^ 32" "0 \<le> F" shows "(s + dval FILL_EPS) * ee ^ 32 \<le> F * (1 + 1 / 2 ^ 45) + 2 / 10 ^ 12"
proof -
  have "s * ee ^ 32 \<le> F * ee ^ 32 * ee ^ 32" using assms(1) by (intro mult_right_mono) simp_all
  also have "\<dots> = F * ee ^ 64" using power_add[of ee 32 32] by simp
  also have "\<dots> \<le> F * (1 + 1 / 2 ^ 45)" using ee_power_small(2) assms(2) by (rule mult_left_mono)
  finally have a: "s * ee ^ 32 \<le> F * (1 + 1 / 2 ^ 45)" .
  have "dval FILL_EPS * ee ^ 32 \<le> 1 / 10 ^ 12 * ee * ee ^ 32" using FILL_EPS_val(3) by (intro mult_right_mono) simp_all
  also have "\<dots> = 1 / 10 ^ 12 * ee ^ 33" using power_add[of ee 1 32] by simp
  also have "\<dots> \<le> 1 / 10 ^ 12 * (1 + 1 / 2 ^ 45)" using ee_power_le[of 33 64] ee_power_small(2) by (intro mult_left_mono) simp_all
  also have "\<dots> \<le> 2 / 10 ^ 12" by simp
  finally show ?thesis using a by (simp add: distrib_right)
qed

text \<open>A walk that takes what another walk took, level by level, comes to the same quantity up to the tolerance.\<close>

lemma fills_cover:
  assumes "is_fin q" "0 < dval q" "\<forall>l \<in> set ls. is_fin (size_of l) \<and> 0 < dval (size_of l)" "length ls \<le> 32"
    "length ts \<le> length ls" "\<forall>i < length ts. dval (ts ! i) \<le> dval (size_of (ls ! i)) \<and> crosses side (toDouble (pl_price (ls ! i)) k) lp"
    "dval q \<le> sum_list (map dval ts) * ee ^ 32"
  shows "dval q \<le> (filled_sum (fills side lp k ls q) + dval FILL_EPS) * ee ^ 32"
proof -
  define fs where "fs = fills side lp k ls q"
  have len: "length fs \<le> 32" using length_fills[of side lp k ls q] assms(4) by (simp add: fs_def)
  have "\<forall>(f, p) \<in> set fs. is_fin f \<and> 0 < dval f" unfolding fs_def using fills_conserve[OF assms(1-3)] by blast
  then have s0: "0 \<le> filled_sum fs" by (intro sum_list_nonneg) auto
  have "dval q \<le> (filled_sum fs + dval FILL_EPS) * ee ^ 32"
    using fills_complete[OF assms(1-3), of side lp k] unfolding fs_def[symmetric]
  proof
    assume "\<exists>left. 0 \<le> left \<and> left \<le> dval FILL_EPS \<and> near (length fs) (filled_sum fs + left) (dval q)"
    then obtain left where l: "0 \<le> left" "left \<le> dval FILL_EPS" "near (length fs) (filled_sum fs + left) (dval q)" by blast
    have "near 32 (filled_sum fs + left) (dval q)" using near_mono[OF l(3) len] s0 l(1) assms(2) by simp
    then have "dval q \<le> (filled_sum fs + left) * ee ^ 32" by (simp add: near_def)
    also have "\<dots> \<le> (filled_sum fs + dval FILL_EPS) * ee ^ 32" using l(2) by (intro mult_right_mono) simp_all
    finally show ?thesis .
  next
    let ?P = "\<lambda>l. crosses side (toDouble (pl_price l) k) lp"
    assume w: "map fst fs = map size_of (takeWhile ?P ls)"
    obtain m where m: "length ts \<le> m" "m \<le> length ls" "takeWhile ?P ls = take m ls"
      using takeWhile_take[OF assms(5), of ?P] assms(6) by blast
    have "filled_sum fs = sum_list (map dval (map fst fs))" by (simp only: map_map comp_def)
    also have "\<dots> = sum_list (map (\<lambda>l. dval (size_of l)) (take m ls))" by (simp only: w m(3) map_map comp_def)
    also have "sum_list (map dval ts) \<le> \<dots>"
      using assms(3,6) by (intro sum_list_prefix_le[OF assms(5) _ _ m(1,2)]) (auto simp: less_imp_le)
    finally have "sum_list (map dval ts) * ee ^ 32 \<le> (filled_sum fs + dval FILL_EPS) * ee ^ 32"
      using FILL_EPS_val(2) big_props(1) by (intro mult_right_mono) simp_all
    then show ?thesis using assms(7) by (rule order_trans[rotated])
  qed
  then show ?thesis by (simp only: fs_def)
qed

lemma sized_order_fills:
  fixes oor :: "double \<Rightarrow> int" and now :: Timestamp
  assumes "book_ok cap b" "walk_roomy k (depth cap (opposite side) MAX_BOOK_WALK b)"
    "depth cap (opposite side) MAX_BOOK_WALK b \<noteq> []" "roomy tg" "order_of side (computeOrder oor cap b k side tg) ord"
  defines "r \<equiv> simulate oor cap ord b k now"
  shows "r_isFill r" "dval (qvalue (o_qty ord)) \<le> dval (qvalue (r_execQty r)) * (1 + 1 / 2 ^ 45) + 2 / 10 ^ 12"
proof -
  define ls where "ls = depth cap (opposite side) MAX_BOOK_WALK b"
  define ts where "ts = order_takes cap b side tg"
  note z = computeOrder_sized(1,2,9)[OF assms(2-4), folded ls_def ts_def]
    and zo = computeOrder_sized(4-8)[OF assms(2-4), of oor, folded ls_def ts_def]
  have o: "o_side ord = side" "o_price ord = pl_price (ls ! (length ts - 1))" "normal (qvalue (o_qty ord))"
    "dval (qvalue (o_qty ord)) \<le> sum_list (map dval ts) * ee ^ 32"
    using assms(5) zo by (simp_all add: order_of_def near_def)
  have w: "walkable k ls" using walk_roomy_walkable[OF assms(2)] by (simp add: ls_def)
  have n: "length ts - 1 < length ls" using z(1,2) by (cases ts) auto
  define lp where "lp = toDouble (o_price ord) k"
  define fs where "fs = fills side lp k ls (qvalue (o_qty ord))"
  have fs: "order_fills cap ord b k = fs" by (simp add: order_fills_def fs_def lp_def ls_def o(1))
  have cross: "crosses side (toDouble (pl_price (ls ! i)) k) lp" if "i < length ts" for i
    using sized_levels_cross[OF assms(1,2), of "length ts - 1" i] n that by (simp add: lp_def o(2) ls_def)
  have q: "is_fin (qvalue (o_qty ord))" "0 < dval (qvalue (o_qty ord))" "dval (qvalue (o_qty ord)) \<le> big"
    using o(3) normal_pos by (auto simp: normal_def)
  have n32: "length ls \<le> 32" unfolding ls_def by (rule depth_walk_length)
  note fl = filled_near[OF q walkable_sizes[OF w] n32, where side = side and limitPx = lp and tickSize = k, folded fs_def]
  have "fs \<noteq> []" using cross[of 0] z(1) n unfolding fs_def fills_Nil_iff by (cases ls) auto
  then show "r_isFill r" using fl(6) by (simp add: r_def simulate_fields(1) fs)
  have "dval (qvalue (r_execQty r)) = dval (foldl (+) 0 (map fst fs))" by (simp add: r_def simulate_fields(2) fs)
  then have F: "filled_sum fs \<le> dval (qvalue (r_execQty r)) * ee ^ 32" "0 \<le> dval (qvalue (r_execQty r))"
    using fl(2) near_nonneg[OF fl(2,3)] by (simp_all add: near_def)
  have "dval (qvalue (o_qty ord)) \<le> (filled_sum fs + dval FILL_EPS) * ee ^ 32"
    unfolding fs_def using z(3) cross by (intro fills_cover[OF q(1,2) walkable_sizes[OF w] n32 z(2) _ o(4)]) blast
  also note slack_32[OF F]
  finally show "dval (qvalue (o_qty ord)) \<le> dval (qvalue (r_execQty r)) * (1 + 1 / 2 ^ 45) + 2 / 10 ^ 12" .
qed

section \<open>Properties of the sizer\<close>

text \<open>
  What the sizer asks for: nothing for a target that is not positive or an empty opposing
  side; otherwise an order whose limit is the price of the worst level that the walk touched and
  whose quantity is positive and exceeds the target by at most one part in \<open>2 ^ 50\<close>.
\<close>

theorem sizer_marketable_order:
  shows "(tg \<le> 0 \<or> depth cap (opposite side) MAX_BOOK_WALK b = [] \<longrightarrow> \<not> isActionable (computeOrder oor cap b k side tg))
    \<and> (walk_roomy k (depth cap (opposite side) MAX_BOOK_WALK b) \<and> depth cap (opposite side) MAX_BOOK_WALK b \<noteq> [] \<and> roomy tg \<longrightarrow>
       s_action (computeOrder oor cap b k side tg) = (if side = Bid then Buy else Sell)
       \<and> s_price (computeOrder oor cap b k side tg) =
           pl_price (depth cap (opposite side) MAX_BOOK_WALK b ! (length (order_takes cap b side tg) - 1))
       \<and> normal (qvalue (s_qty (computeOrder oor cap b k side tg)))
       \<and> dval (qvalue (s_qty (computeOrder oor cap b k side tg))) \<le> dval tg * (1 + 1 / 2 ^ 50))"
proof -
  have "ee ^ 2 \<le> 1 + 1 / 2 ^ 50" by (simp add: ee_def power2_eq_square field_simps)
  then have e: "dval tg * ee ^ 2 \<le> dval tg * (1 + 1 / 2 ^ 50)" if "roomy tg"
    using that normal_pos[OF roomy_normal] by (intro mult_left_mono) (auto simp: less_imp_le)
  have "\<not> isActionable (computeOrder oor cap b k side tg)" if "tg \<le> 0 \<or> depth cap (opposite side) MAX_BOOK_WALK b = []"
    using that by (auto simp: computeOrder_def isActionable_def signal_none_def opposite_def Let_def split: if_splits)
  then show ?thesis using computeOrder_sized(3,4,6,7)[of k cap side b tg oor] e by (blast intro: order_trans)
qed

lemma roomy_small: assumes "rep q" "1 \<le> q" "q \<le> 2 ^ 40" shows "roomy (dbl q)"
proof -
  have "tiny \<le> p2 (- 1)" unfolding tiny_def by (rule p2_mono) simp
  moreover have "2 ^ 41 \<le> big" using p2_mono[of 41 400] by (simp add: big_def)
  ultimately show ?thesis using assms by (simp add: roomy_def power_int_minus)
qed

lemma sample_roomy: "walk_roomy 1 (depth 64 (opposite Bid) MAX_BOOK_WALK (two_level_book 3 40))"
  "depth 64 (opposite Bid) MAX_BOOK_WALK (two_level_book 3 40) \<noteq> []" "roomy (dbl 1)"
  using roomy_small[of 2] roomy_small[of 1] px_ok_unit[of 1008]
  by (simp_all add: opposite_def sample_walk walk_roomy_def size_of_def)

theorem sizer_marketable_order_witness:
  "s_action (computeOrder (\<lambda>_. 0) 64 (two_level_book 3 40) 1 Bid (dbl 1)) = Buy"
  using sizer_marketable_order[of "dbl 1" 64 Bid "two_level_book 3 40" "\<lambda>_. 0" 1] sample_roomy by simp

text \<open>
  C23. The simulator walks at least as deep as the sizer: an order sized from a book and executed
  against the same book fills, and the part that is not filled is at most one part in \<open>2 ^ 45\<close>
  plus twice the tolerance of \<open>10 ^ -12\<close>.
\<close>

theorem sized_order_fills_same_book:
  assumes "book_ok cap b" "walk_roomy k (depth cap (opposite side) MAX_BOOK_WALK b)"
    "depth cap (opposite side) MAX_BOOK_WALK b \<noteq> []" "roomy tg" "order_of side (computeOrder oor cap b k side tg) ord"
  shows "r_isFill (simulate oor cap ord b k now) \<and>
    dval (qvalue (o_qty ord)) \<le> dval (qvalue (r_execQty (simulate oor cap ord b k now))) * (1 + 1 / 2 ^ 45) + 2 / 10 ^ 12"
  using sized_order_fills[OF assms, of now] by blast

definition sized_sample :: NewOrder where
  "sized_sample = (let s = computeOrder (\<lambda>_. 0) 64 (two_level_book 3 40) 1 Bid (dbl 1) in
     \<lparr>o_id = 1, o_symbolId = 0, o_side = Bid, o_price = s_price s, o_qty = s_qty s, o_createdNs = 0\<rparr>)"

theorem sized_order_fills_same_book_witness:
  "r_isFill (simulate (\<lambda>_. 0) 64 sized_sample (two_level_book 3 40) 1 0)"
proof -
  have "order_of Bid (computeOrder (\<lambda>_. 0) 64 (two_level_book 3 40) 1 Bid (dbl 1)) sized_sample"
    by (simp add: order_of_def sized_sample_def Let_def)
  from sized_order_fills_same_book[OF two_level_book_ok[of 3 40] sample_roomy(1,2,3) this] show ?thesis by simp
qed

end
