(* ===== verification/Pnl_Tracker.thy ===== *)
theory Pnl_Tracker
  imports Orders Float_Error
begin

text \<open>
  Profit and loss per symbol (\<^verbatim>\<open>include/trading/strategy/pnl_tracker.hpp\<close>): cash, position, average
  entry price and realized profit, updated by every fill. The specification is the same
  bookkeeping on rational numbers, for which cash plus the position at its entry price less the
  realized profit never changes; the tracker computes it exactly whenever the intermediate values
  are doubles.
\<close>

section \<open>State and operations\<close>

record PnlState =
  p_cash :: double
  p_position :: double
  avg_entry :: double
  realized :: double

type_synonym pnl = "PnlState list"

definition empty_pnl :: PnlState where
  "empty_pnl = \<lparr>p_cash = 0, p_position = 0, avg_entry = 0, realized = 0\<rparr>"

definition new_pnl :: pnl where
  "new_pnl = replicate MAX_SYMBOLS empty_pnl"

definition seedCash :: "SymbolId \<Rightarrow> double \<Rightarrow> pnl \<Rightarrow> pnl" where
  "seedCash i c t = (if sym i < MAX_SYMBOLS then t[sym i := (t ! sym i)\<lparr>p_cash := c\<rparr>] else t)"

text \<open>\<^verbatim>\<open>state\<close> and \<^verbatim>\<open>unrealized\<close> index the array without a check: \<open>None\<close> is the access out of bounds.\<close>

definition pnl_state :: "SymbolId \<Rightarrow> pnl \<Rightarrow> PnlState option" where
  "pnl_state i t = (if sym i < MAX_SYMBOLS then Some (t ! sym i) else None)"

definition DUST :: double where
  "DUST = dbl (1 / 10 ^ 12)"

definition fill_state :: "double \<Rightarrow> double \<Rightarrow> PnlState \<Rightarrow> PnlState" where
  "fill_state px signedQty s =
     (let pos = p_position s;
          newPos = pos + signedQty;
          s1 = s\<lparr>p_cash := p_cash s - signedQty * px\<rparr>;
          sameDirection = (feq pos 0 \<or> ((0 < pos) = (0 < signedQty)));
          s2 = (if sameDirection then
                  let totalCost = avg_entry s * \<bar>pos\<bar> + px * \<bar>signedQty\<bar>
                  in s1\<lparr>avg_entry := (if DUST < \<bar>newPos\<bar> then totalCost / \<bar>newPos\<bar> else 0)\<rparr>
                else
                  let closeQty = std_min \<bar>signedQty\<bar> \<bar>pos\<bar>;
                      direction = (if 0 < pos then 1 else - 1);
                      s' = s1\<lparr>realized := realized s + direction * (px - avg_entry s) * closeQty\<rparr>;
                      flipped = (\<not> feq newPos 0 \<and> (0 < newPos) \<noteq> (0 < pos))
                  in if flipped then s'\<lparr>avg_entry := px\<rparr>
                     else if \<bar>newPos\<bar> \<le> DUST then s'\<lparr>avg_entry := 0\<rparr>
                     else s')
      in s2\<lparr>p_position := (if \<bar>newPos\<bar> \<le> DUST then 0 else newPos)\<rparr>)"

definition onFill :: "double \<Rightarrow> ExecutionReport \<Rightarrow> pnl \<Rightarrow> pnl" where
  "onFill tickSize r t =
     (if \<not> r_isFill r \<or> MAX_SYMBOLS \<le> sym (r_symbolId r) then t
      else t[sym (r_symbolId r) := fill_state (toDouble (r_execPrice r) tickSize)
               (qvalue (r_execQty r) * side_sign (r_side r)) (t ! sym (r_symbolId r))])"

definition unrealized :: "SymbolId \<Rightarrow> Price \<Rightarrow> double \<Rightarrow> pnl \<Rightarrow> double option" where
  "unrealized i mark tickSize t =
     (case pnl_state i t of None \<Rightarrow> None
      | Some s \<Rightarrow> Some (if feq (p_position s) 0 then 0 else p_position s * (toDouble mark tickSize - avg_entry s)))"

section \<open>Isolation\<close>

lemma length_onFill [simp]: "length (onFill k r t) = length t"
  by (simp add: onFill_def)

interpretation pl: fill_sink "onFill k" "\<lambda>t i. pnl_state i t" for k
  by unfold_locales (auto simp: onFill_def pnl_state_def sym_inj)

section \<open>The specification: exact bookkeeping\<close>

record account =
  a_cash :: rat
  a_pos :: rat
  a_avg :: rat
  a_real :: rat

definition account_fill :: "rat \<Rightarrow> rat \<Rightarrow> account \<Rightarrow> account" where
  "account_fill px q a =
     (let pos = a_pos a; new = pos + q; a1 = a\<lparr>a_cash := a_cash a - q * px, a_pos := new\<rparr> in
      if pos = 0 \<or> (0 < pos) = (0 < q) then
        a1\<lparr>a_avg := (if new = 0 then 0 else (a_avg a * \<bar>pos\<bar> + px * \<bar>q\<bar>) / \<bar>new\<bar>)\<rparr>
      else
        let a2 = a1\<lparr>a_real := a_real a + (if 0 < pos then 1 else - 1) * (px - a_avg a) * min \<bar>q\<bar> \<bar>pos\<bar>\<rparr> in
        if new \<noteq> 0 \<and> (0 < new) \<noteq> (0 < pos) then a2\<lparr>a_avg := px\<rparr>
        else if new = 0 then a2\<lparr>a_avg := 0\<rparr> else a2)"

text \<open>The books balance: what was paid in is the cash, the cost of the open position and the losses.\<close>

definition balance :: "account \<Rightarrow> rat" where
  "balance a = a_cash a + a_pos a * a_avg a - a_real a"

lemma balance_same_direction:
  assumes "a_pos a = 0 \<or> (0 < a_pos a) = (0 < q)" "q \<noteq> 0"
  shows "balance (account_fill px q a) = balance a"
proof -
  define p where "p = a_pos a"
  have n: "p + q \<noteq> 0" "\<bar>p + q\<bar> * (p + q) = (p + q) * \<bar>p + q\<bar>" using assms by (auto simp: p_def)
  have "(p + q) * ((a_avg a * \<bar>p\<bar> + px * \<bar>q\<bar>) / \<bar>p + q\<bar>) = a_avg a * p + px * q"
  proof (cases "0 < q")
    case True
    then have "0 \<le> p" using assms by (auto simp: p_def)
    then show ?thesis using True n by (simp add: field_simps)
  next
    case False
    then have "p \<le> 0" "q < 0" using assms by (auto simp: p_def)
    then show ?thesis using n by (simp add: field_simps)
  qed
  then show ?thesis using assms n(1) by (simp add: account_fill_def balance_def Let_def p_def algebra_simps)
qed

lemma balance_opposite:
  assumes "a_pos a \<noteq> 0" "(0 < a_pos a) \<noteq> (0 < q)" "q \<noteq> 0"
  shows "balance (account_fill px q a) = balance a"
proof (cases "q = - a_pos a")
  case True
  then show ?thesis using assms by (auto simp: account_fill_def balance_def Let_def algebra_simps)
next
  case False
  then have n: "a_pos a + q \<noteq> 0" by auto
  show ?thesis
  proof (cases "0 < a_pos a")
    case True
    then have "q < 0" using assms by auto
    then show ?thesis using True n by (auto simp: account_fill_def balance_def Let_def min_def algebra_simps)
  next
    case False
    then have "a_pos a < 0" "0 < q" using assms by auto
    then show ?thesis using n by (auto simp: account_fill_def balance_def Let_def min_def algebra_simps)
  qed
qed

lemma balance_fill: "q \<noteq> 0 \<Longrightarrow> balance (account_fill px q a) = balance a"
  using balance_same_direction balance_opposite by blast

section \<open>The tracker computes it\<close>

definition account_of :: "PnlState \<Rightarrow> account" where
  "account_of s = \<lparr>a_cash = dval (p_cash s), a_pos = dval (p_position s), a_avg = dval (avg_entry s), a_real = dval (realized s)\<rparr>"

definition finite_state :: "PnlState \<Rightarrow> bool" where
  "finite_state s \<longleftrightarrow> is_fin (p_cash s) \<and> is_fin (p_position s) \<and> is_fin (avg_entry s) \<and> is_fin (realized s)"

text \<open>Every value the fill computes is a double, and the new position is 0 or above the dust tolerance.\<close>

definition exact_fill :: "rat \<Rightarrow> rat \<Rightarrow> account \<Rightarrow> bool" where
  "exact_fill px q a \<longleftrightarrow>
     (let pos = a_pos a; new = pos + q; avg = a_avg a; close = min \<bar>q\<bar> \<bar>pos\<bar> in
      rep (q * px) \<and> rep (a_cash a - q * px) \<and> rep new \<and> (new = 0 \<or> 2 / 10 ^ 12 \<le> \<bar>new\<bar>) \<and>
      (if pos = 0 \<or> (0 < pos) = (0 < q)
       then rep (avg * \<bar>pos\<bar>) \<and> rep (px * \<bar>q\<bar>) \<and> rep (avg * \<bar>pos\<bar> + px * \<bar>q\<bar>) \<and>
         rep ((avg * \<bar>pos\<bar> + px * \<bar>q\<bar>) / \<bar>new\<bar>)
       else rep (px - avg) \<and> rep ((px - avg) * close) \<and>
         rep (a_real a + (if 0 < pos then 1 else - 1) * (px - avg) * close)))"

lemma rep_rnd: "rep c \<Longrightarrow> rnd c = c \<and> \<bar>c\<bar> < dbl_limit"
  by (simp add: rep_def)

lemma exact_ops:
  assumes "is_fin x" "is_fin y"
  shows "rep (dval x + dval y) \<Longrightarrow> is_fin (x + y) \<and> dval (x + y) = dval x + dval y"
    "rep (dval x - dval y) \<Longrightarrow> is_fin (x - y) \<and> dval (x - y) = dval x - dval y"
    "rep (dval x * dval y) \<Longrightarrow> is_fin (x * y) \<and> dval (x * y) = dval x * dval y"
    "dval y \<noteq> 0 \<Longrightarrow> rep (dval x / dval y) \<Longrightarrow> is_fin (x / y) \<and> dval (x / y) = dval x / dval y"
  using assms rep_rnd[of "dval x / dval y"] rep_rnd
  by (simp_all add: is_fin_add_iff dval_add is_fin_diff_iff dval_diff is_fin_mult_iff dval_mult is_fin_divide_iff dval_divide
    del: abs_divide)

lemmas DUST_val = pico_val(1,2,5)[folded DUST_def]

text \<open>What both branches of a fill compute, and the comparisons that choose between them.\<close>

lemma exact_common:
  assumes "finite_state s" "is_fin px" "is_fin q" "exact_fill (dval px) (dval q) (account_of s)"
  defines "new \<equiv> p_position s + q"
  shows "is_fin new" "dval new = dval (p_position s) + dval q"
    "is_fin (p_cash s - q * px)" "dval (p_cash s - q * px) = dval (p_cash s) - dval q * dval px"
    "\<bar>new\<bar> \<le> DUST \<longleftrightarrow> dval new = 0" "DUST < \<bar>new\<bar> \<longleftrightarrow> dval new \<noteq> 0"
    "feq (p_position s) 0 \<longleftrightarrow> dval (p_position s) = 0" "0 < p_position s \<longleftrightarrow> 0 < dval (p_position s)" "0 < q \<longleftrightarrow> 0 < dval q"
    "0 < new \<longleftrightarrow> 0 < dval new" "feq new 0 \<longleftrightarrow> dval new = 0"
proof -
  have f: "is_fin (p_cash s)" "is_fin (p_position s)" using assms(1) by (simp_all add: finite_state_def)
  have e: "rep (dval q * dval px)" "rep (dval (p_cash s) - dval q * dval px)" "rep (dval (p_position s) + dval q)"
    "dval (p_position s) + dval q = 0 \<or> 2 / 10 ^ 12 \<le> \<bar>dval (p_position s) + dval q\<bar>"
    using assms(4) by (simp_all add: exact_fill_def Let_def account_of_def)
  show n: "is_fin new" "dval new = dval (p_position s) + dval q" using exact_ops(1)[OF f(2) assms(3) e(3)] by (simp_all add: new_def)
  have c0: "is_fin (q * px)" "dval (q * px) = dval q * dval px" using exact_ops(3)[OF assms(3,2) e(1)] by simp_all
  show "is_fin (p_cash s - q * px)" "dval (p_cash s - q * px) = dval (p_cash s) - dval q * dval px"
    using exact_ops(2)[OF f(1) c0(1)] e(2) c0(2) by simp_all
  show "\<bar>new\<bar> \<le> DUST \<longleftrightarrow> dval new = 0" "DUST < \<bar>new\<bar> \<longleftrightarrow> dval new \<noteq> 0"
    using n e(4) DUST_val by (auto simp: less_eq_fin less_fin)
  show "feq (p_position s) 0 \<longleftrightarrow> dval (p_position s) = 0" "0 < p_position s \<longleftrightarrow> 0 < dval (p_position s)" "0 < q \<longleftrightarrow> 0 < dval q"
    "0 < new \<longleftrightarrow> 0 < dval new" "feq new 0 \<longleftrightarrow> dval new = 0"
    using f(2) assms(3) n(1) by (simp_all add: feq_fin less_fin)
qed

lemma fill_exact_same:
  assumes "finite_state s" "is_fin px" "is_fin q" "exact_fill (dval px) (dval q) (account_of s)"
    "dval (p_position s) = 0 \<or> (0 < dval (p_position s)) = (0 < dval q)"
  shows "finite_state (fill_state px q s) \<and> account_of (fill_state px q s) = account_fill (dval px) (dval q) (account_of s)"
proof -
  define pos new where "pos = p_position s" and "new = pos + q"
  define tc where "tc = avg_entry s * \<bar>pos\<bar> + px * \<bar>q\<bar>"
  note x = exact_common[OF assms(1-4), folded pos_def, folded new_def]
  have f: "is_fin pos" "is_fin (avg_entry s)" "is_fin (realized s)" using assms(1) by (simp_all add: finite_state_def pos_def)
  have r: "rep (dval (avg_entry s) * \<bar>dval pos\<bar>)" "rep (dval px * \<bar>dval q\<bar>)" "rep (dval (avg_entry s) * \<bar>dval pos\<bar> + dval px * \<bar>dval q\<bar>)"
    "rep ((dval (avg_entry s) * \<bar>dval pos\<bar> + dval px * \<bar>dval q\<bar>) / \<bar>dval pos + dval q\<bar>)"
    using assms(4,5) by (simp_all add: exact_fill_def Let_def account_of_def pos_def)
  have m: "is_fin (avg_entry s * \<bar>pos\<bar>)" "dval (avg_entry s * \<bar>pos\<bar>) = dval (avg_entry s) * \<bar>dval pos\<bar>"
    "is_fin (px * \<bar>q\<bar>)" "dval (px * \<bar>q\<bar>) = dval px * \<bar>dval q\<bar>"
    using exact_ops(3)[of "avg_entry s" "\<bar>pos\<bar>"] exact_ops(3)[of px "\<bar>q\<bar>"] r(1,2) f assms(2,3) by simp_all
  have tc: "is_fin tc" "dval tc = dval (avg_entry s) * \<bar>dval pos\<bar> + dval px * \<bar>dval q\<bar>"
    using exact_ops(1)[OF m(1,3)] r(3) m by (simp_all add: tc_def)
  have av: "dval new \<noteq> 0 \<Longrightarrow> is_fin (tc / \<bar>new\<bar>) \<and> dval (tc / \<bar>new\<bar>) = dval tc / \<bar>dval new\<bar>"
    using exact_ops(4)[of tc "\<bar>new\<bar>"] tc x(1,2) r(4) by simp
  have "fill_state px q s = s\<lparr>p_cash := p_cash s - q * px, avg_entry := (if dval new \<noteq> 0 then tc / \<bar>new\<bar> else 0),
      p_position := (if dval new = 0 then 0 else new)\<rparr>"
    using assms(5) by (simp add: fill_state_def Let_def pos_def[symmetric] new_def[symmetric] tc_def x(5-))
  then show ?thesis using x(1-4) f av tc assms(5)
    by (simp add: finite_state_def account_of_def account_fill_def Let_def pos_def[symmetric])
qed

lemma fill_exact_opposite:
  assumes "finite_state s" "is_fin px" "is_fin q" "exact_fill (dval px) (dval q) (account_of s)"
    "\<not> (dval (p_position s) = 0 \<or> (0 < dval (p_position s)) = (0 < dval q))"
  shows "finite_state (fill_state px q s) \<and> account_of (fill_state px q s) = account_fill (dval px) (dval q) (account_of s)"
proof -
  define pos new where "pos = p_position s" and "new = pos + q"
  define cl dr where "cl = std_min \<bar>q\<bar> \<bar>pos\<bar>" and "dr = (if 0 < pos then 1 else - 1 :: double)"
  define g where "g = dval px - dval (avg_entry s)"
  note x = exact_common[OF assms(1-4), folded pos_def, folded new_def]
  have f: "is_fin pos" "is_fin (avg_entry s)" "is_fin (realized s)" using assms(1) by (simp_all add: finite_state_def pos_def)
  have cl: "is_fin cl" "dval cl = min \<bar>dval q\<bar> \<bar>dval pos\<bar>" using std_min_fin[of "\<bar>q\<bar>" "\<bar>pos\<bar>"] f assms(3) by (simp_all add: cl_def)
  have dr: "is_fin dr" "dval dr = (if 0 < dval pos then 1 else - 1)" by (simp_all add: dr_def x(8))
  have r: "rep g" "rep (g * dval cl)" "rep (dval (realized s) + dval dr * g * dval cl)"
    using assms(4,5) by (simp_all add: exact_fill_def Let_def account_of_def pos_def g_def cl(2) dr(2))
  have m1: "is_fin (px - avg_entry s)" "dval (px - avg_entry s) = g" using exact_ops(2)[OF assms(2) f(2)] r(1) by (simp_all add: g_def)
  have "rep (dval dr * g)" "rep (dval dr * g * dval cl)" using r(1,2) dr(2) by (auto split: if_splits)
  then have m3: "is_fin (dr * (px - avg_entry s) * cl)" "dval (dr * (px - avg_entry s) * cl) = dval dr * g * dval cl"
    using exact_ops(3)[OF dr(1) m1(1)] exact_ops(3)[of "dr * (px - avg_entry s)" cl] cl(1) m1(2) by simp_all
  have m4: "is_fin (realized s + dr * (px - avg_entry s) * cl)"
    "dval (realized s + dr * (px - avg_entry s) * cl) = dval (realized s) + dval dr * g * dval cl"
    using exact_ops(1)[OF f(3) m3(1)] m3(2) r(3) by simp_all
  have "fill_state px q s = s\<lparr>p_cash := p_cash s - q * px, realized := realized s + dr * (px - avg_entry s) * cl,
      avg_entry := (if dval new \<noteq> 0 \<and> (0 < dval new) \<noteq> (0 < dval pos) then px else if dval new = 0 then 0 else avg_entry s),
      p_position := (if dval new = 0 then 0 else new)\<rparr>"
    using assms(5) by (simp add: fill_state_def Let_def pos_def[symmetric] new_def[symmetric] cl_def dr_def x(5-))
  then show ?thesis using x(1-4) f m4 assms(2,5) cl(2) dr(2)
    by (simp add: finite_state_def account_of_def account_fill_def Let_def pos_def[symmetric] g_def)
qed

lemma fill_exact:
  assumes "finite_state s" "is_fin px" "is_fin q" "exact_fill (dval px) (dval q) (account_of s)"
  shows "finite_state (fill_state px q s) \<and> account_of (fill_state px q s) = account_fill (dval px) (dval q) (account_of s)"
  using fill_exact_same[OF assms] fill_exact_opposite[OF assms] by blast

section \<open>Flat positions\<close>

lemma fill_open:
  assumes "feq (p_position s) 0" "is_fin (p_position s)" "is_fin q"
  shows "is_fin (p_position s + q)" "dval (p_position s + q) = dval q"
  using assms exact_ops(1)[of "p_position s" q] by (simp_all add: feq_fin)

lemma fill_position: "p_position (fill_state px q s) = (let n = p_position s + q in if \<bar>n\<bar> \<le> DUST then 0 else n)"
  by (simp add: fill_state_def Let_def)

lemma fill_close:
  assumes "is_fin (p_position s)" "dval (p_position s) \<noteq> 0" "is_fin q" "dval q = - dval (p_position s)"
  shows "p_position (fill_state px q s) = 0" "avg_entry (fill_state px q s) = 0"
proof -
  let ?n = "p_position s + q"
  have n: "is_fin ?n" "dval ?n = 0" using exact_ops(1)[OF assms(1,3)] assms(4) by simp_all
  then have d: "\<bar>?n\<bar> \<le> DUST" "feq ?n 0" using DUST_val by (simp_all add: less_eq_fin feq_fin)
  have "\<not> (feq (p_position s) 0 \<or> (0 < p_position s) = (0 < q))"
    using assms by (auto simp: feq_fin less_fin)
  then show "avg_entry (fill_state px q s) = 0" using d by (simp add: fill_state_def Let_def)
  show "p_position (fill_state px q s) = 0" using d by (simp add: fill_position)
qed

section \<open>Properties of the tracker\<close>

lemma onFill_state:
  assumes "length t = MAX_SYMBOLS" "r_isFill r" "sym (r_symbolId r) < MAX_SYMBOLS"
  shows "onFill k r t ! sym (r_symbolId r) = fill_state (toDouble (r_execPrice r) k)
    (qvalue (r_execQty r) * side_sign (r_side r)) (t ! sym (r_symbolId r))"
  using assms by (simp add: onFill_def)

text \<open>
  C20. The tracker refines exact bookkeeping: when the values of a fill are doubles, the new state
  is the one of the rational specification, and cash plus the position at its average entry
  price less the realized profit is the same as before the fill.
\<close>

theorem pnl_exact_accounting:
  assumes "length t = MAX_SYMBOLS" "r_isFill r" "sym (r_symbolId r) < MAX_SYMBOLS"
    "finite_state (t ! sym (r_symbolId r))" "is_fin (toDouble (r_execPrice r) k)"
    "is_fin (qvalue (r_execQty r))" "dval (qvalue (r_execQty r)) \<noteq> 0"
  defines "px \<equiv> dval (toDouble (r_execPrice r) k)"
  defines "q \<equiv> (if r_side r = Bid then 1 else - 1) * dval (qvalue (r_execQty r))"
  defines "a \<equiv> account_of (t ! sym (r_symbolId r))"
  assumes exact: "exact_fill px q a"
  shows "account_of (onFill k r t ! sym (r_symbolId r)) = account_fill px q a
    \<and> balance (account_of (onFill k r t ! sym (r_symbolId r))) = balance a"
proof -
  let ?q = "qvalue (r_execQty r) * side_sign (r_side r)"
  have q: "is_fin ?q" "dval ?q = q" using signed_qty[OF assms(6), of "r_side r"] by (simp_all add: q_def)
  have "q \<noteq> 0" using assms(7) by (simp add: q_def)
  then show ?thesis
    using fill_exact[OF assms(4,5) q(1)] exact q(2) balance_fill[of q px a]
    unfolding onFill_state[OF assms(1-3)] by (simp add: px_def a_def)
qed

definition pnl_fill :: "Side \<Rightarrow> rat \<Rightarrow> int \<Rightarrow> ExecutionReport" where
  "pnl_fill side q p = \<lparr>r_id = 1, r_symbolId = 0, r_side = side, r_isFill = True, r_execPrice = Price p,
     r_execQty = Qty (dbl q), r_completedNs = 0\<rparr>"

definition long_pnl :: pnl where
  "long_pnl = (new_pnl)[0 := \<lparr>p_cash = dbl 1000, p_position = dbl 2, avg_entry = dbl 100, realized = dbl 7\<rparr>]"

theorem pnl_exact_accounting_witness:
  "balance (account_of (onFill (dbl 2) (pnl_fill Ask 3 60) long_pnl ! 0)) = 1000 + 2 * 100 - 7"
  using pnl_exact_accounting[of long_pnl "pnl_fill Ask 3 60" "dbl 2"]
  by (simp add: pnl_fill_def long_pnl_def new_pnl_def MAX_SYMBOLS_def sym_def finite_state_def toDouble_def dbl_eval
    account_of_def exact_fill_def Let_def balance_def account_fill_def)

text \<open>
  A round trip leaves no residue: a fill that opens a position from flat, followed by a fill
  of the same quantity on the other side, at any prices, leaves the position exactly 0 and the
  entry price reset, although both are computed in doubles.
\<close>

theorem pnl_flat_round_trip:
  assumes "length t = MAX_SYMBOLS" "sym i < MAX_SYMBOLS" "is_fin (p_position (t ! sym i))" "feq (p_position (t ! sym i)) 0"
    "r_isFill r1" "r_isFill r2" "r_symbolId r1 = i" "r_symbolId r2 = i" "r_side r2 = opposite (r_side r1)"
    "r_execQty r2 = r_execQty r1" "is_fin (qvalue (r_execQty r1))" "DUST < qvalue (r_execQty r1)"
  shows "p_position (onFill k r2 (onFill k r1 t) ! sym i) = 0 \<and> avg_entry (onFill k r2 (onFill k r1 t) ! sym i) = 0"
proof -
  let ?q = "qvalue (r_execQty r1)"
  define s where "s = onFill k r1 t ! sym i"
  have d: "0 < dval ?q" "dval DUST < dval ?q" using assms(11,12) DUST_val by (auto simp: less_fin)
  have s: "s = fill_state (toDouble (r_execPrice r1) k) (?q * side_sign (r_side r1)) (t ! sym i)"
    using onFill_state[of t r1 k] assms by (simp add: s_def)
  note o = fill_open[OF assms(4,3) signed_qty(1)[OF assms(11), of "r_side r1"], unfolded signed_qty(2)[OF assms(11)]]
  have "\<not> \<bar>p_position (t ! sym i) + ?q * side_sign (r_side r1)\<bar> \<le> DUST"
    using o d DUST_val(1) by (auto simp: less_eq_fin)
  then have p: "is_fin (p_position s)" "dval (p_position s) = (if r_side r1 = Bid then dval ?q else - dval ?q)"
    using o by (simp_all add: s fill_position)
  have "onFill k r2 (onFill k r1 t) ! sym i = fill_state (toDouble (r_execPrice r2) k) (?q * side_sign (r_side r2)) s"
    using onFill_state[of "onFill k r1 t" r2 k] assms by (simp add: s_def)
  moreover have "dval (?q * side_sign (r_side r2)) = - dval (p_position s)"
    using signed_qty(2)[OF assms(11), of "r_side r2"] p(2) assms(9) by (simp add: opposite_def split: if_splits)
  ultimately show ?thesis
    using fill_close[OF p(1) _ signed_qty(1)[OF assms(11)]] p(2) d(1) by (auto split: if_splits)
qed

theorem pnl_flat_round_trip_witness:
  "p_position (onFill (dbl 2) (pnl_fill Ask 3 60) (onFill (dbl 2) (pnl_fill Bid 3 50) new_pnl) ! 0) = 0"
proof -
  have "DUST < dbl 3" using DUST_val by (simp add: less_fin)
  then show ?thesis
    using pnl_flat_round_trip[of new_pnl 0 "pnl_fill Bid 3 50" "pnl_fill Ask 3 60" "dbl 2"]
    by (simp add: pnl_fill_def new_pnl_def empty_pnl_def MAX_SYMBOLS_def sym_def opposite_def feq_fin)
qed

text \<open>
  The exception to the reset: a fill that crosses through zero and ends within the dust
  tolerance leaves the position 0 but the entry price at the price of the fill.
\<close>

theorem pnl_dust_flip:
  assumes "0 < p_position s" "\<not> 0 < q" "p_position s + q < 0" "\<bar>p_position s + q\<bar> \<le> DUST"
  shows "p_position (fill_state px q s) = 0 \<and> avg_entry (fill_state px q s) = px"
proof -
  have "\<not> feq (p_position s) 0" "\<not> feq (p_position s + q) 0" "\<not> 0 < p_position s + q"
    using assms(1,3) d_less_not_feq d_less_asym by blast+
  then show ?thesis using assms by (simp add: fill_state_def Let_def)
qed

definition nearly_one :: PnlState where
  "nearly_one = \<lparr>p_cash = 0, p_position = dbl (1 - 1 / 2 ^ 50), avg_entry = dbl 90, realized = 0\<rparr>"

theorem pnl_dust_flip_witness:
  "p_position (fill_state (dbl 100) (- 1) nearly_one) = 0 \<and> avg_entry (fill_state (dbl 100) (- 1) nearly_one) = dbl 100"
proof (rule pnl_dust_flip)
  show "0 < p_position nearly_one" by code_simp
  show "\<not> 0 < (- 1 :: double)" by code_simp
  show "p_position nearly_one + - 1 < 0" by code_simp
  show "\<bar>p_position nearly_one + - 1\<bar> \<le> DUST" by code_simp
qed

end
