(* ===== verification/Imbalance_Strategy.thy ===== *)
theory Imbalance_Strategy
  imports Order_Sizer Pnl_Tracker
begin

text \<open>
  The trading strategy (\<^verbatim>\<open>include/trading/strategy/imbalance_strategy.hpp\<close> and
  \<^verbatim>\<open>src/strategy/imbalance_strategy.cpp\<close>): it smooths the imbalance of the displayed sizes over a ring
  of recent values, opens a position on a strong imbalance and closes it at a profit target or a
  stop.
\<close>

section \<open>State and operations\<close>

definition MAX_DEPTH :: nat where "MAX_DEPTH = 32"

definition MAX_ROLLING :: nat where "MAX_ROLLING = 32"

record strategy =
  params :: StrategyParams
  symbol :: SymbolId
  tick_size :: double
  rolling :: "double list"
  rolling_count :: nat
  rolling_head :: nat
  pnl :: pnl
  last_trade_ns :: Timestamp
  skip_next_signal :: bool

definition clamp_params :: "StrategyParams \<Rightarrow> StrategyParams" where
  "clamp_params p =
     (let p1 = (if smoothing_window p = 0 then p\<lparr>smoothing_window := 1\<rparr> else p);
          p2 = (if MAX_ROLLING < smoothing_window p1 then p1\<lparr>smoothing_window := MAX_ROLLING\<rparr> else p1);
          p3 = (if depth_levels p2 = 0 then p2\<lparr>depth_levels := 1\<rparr> else p2)
      in if MAX_DEPTH < depth_levels p3 then p3\<lparr>depth_levels := MAX_DEPTH\<rparr> else p3)"

definition new_strategy :: "StrategyParams \<Rightarrow> strategy" where
  "new_strategy p = \<lparr>params = clamp_params p, symbol = INVALID_SYMBOL_ID, tick_size = 0,
     rolling = replicate MAX_ROLLING 0, rolling_count = 0, rolling_head = 0, pnl = new_pnl,
     last_trade_ns = 0, skip_next_signal = False\<rparr>"

definition setSymbol :: "SymbolId \<Rightarrow> double \<Rightarrow> strategy \<Rightarrow> strategy" where
  "setSymbol i k st = st\<lparr>symbol := i, tick_size := k\<rparr>"

definition setInitialCash :: "double \<Rightarrow> strategy \<Rightarrow> strategy" where
  "setInitialCash c st = (if sym (symbol st) < MAX_SYMBOLS then st\<lparr>pnl := seedCash (symbol st) c (pnl st)\<rparr> else st)"

definition strat_onFill :: "ExecutionReport \<Rightarrow> strategy \<Rightarrow> strategy" where
  "strat_onFill r st = st\<lparr>pnl := onFill (tick_size st) r (pnl st)\<rparr>"

definition onReconnect :: "strategy \<Rightarrow> strategy" where
  "onReconnect st = st\<lparr>rolling_count := 0, rolling_head := 0, skip_next_signal := True\<rparr>"

definition strat_state :: "strategy \<Rightarrow> PnlState" where
  "strat_state st = (case pnl_state (symbol st) (pnl st) of Some s \<Rightarrow> s | None \<Rightarrow> empty_pnl)"

abbreviation strat_cash :: "strategy \<Rightarrow> double" where
  "strat_cash st \<equiv> p_cash (strat_state st)"

abbreviation strat_position :: "strategy \<Rightarrow> double" where
  "strat_position st \<equiv> p_position (strat_state st)"

abbreviation strat_avgEntry :: "strategy \<Rightarrow> double" where
  "strat_avgEntry st \<equiv> avg_entry (strat_state st)"

abbreviation strat_realized :: "strategy \<Rightarrow> double" where
  "strat_realized st \<equiv> realized (strat_state st)"

definition emit :: "Signal \<Rightarrow> Timestamp \<Rightarrow> strategy \<Rightarrow> Signal \<times> strategy" where
  "emit s now st = (if \<not> isActionable s then (signal_none, st)
     else (s\<lparr>s_ts := now\<rparr>, st\<lparr>last_trade_ns := now\<rparr>))"

definition push_imbalance :: "double \<Rightarrow> strategy \<Rightarrow> strategy" where
  "push_imbalance x st =
     st\<lparr>rolling := (rolling st)[rolling_head st := x],
        rolling_head := (rolling_head st + 1) mod smoothing_window (params st),
        rolling_count := (if rolling_count st < smoothing_window (params st) then rolling_count st + 1 else rolling_count st)\<rparr>"

definition smoothed :: "strategy \<Rightarrow> double" where
  "smoothed st = foldl (+) 0 (take (rolling_count st) (rolling st)) / dbl (of_nat (rolling_count st))"

text \<open>
  The decision, after the imbalance was recorded: exits while a position is open, entries while
  flat.
\<close>

definition decide :: "(double \<Rightarrow> int) \<Rightarrow> nat \<Rightarrow> book \<Rightarrow> double \<Rightarrow> double \<Rightarrow> Timestamp \<Rightarrow> strategy \<Rightarrow> Signal \<times> strategy" where
  "decide oor cap b bestBid bestAsk now st =
     (let p = params st; s = strat_state st; k = tick_size st;
          mid = (bestBid + bestAsk) * dbl (1 / 2);
          spread_bps = (bestAsk - bestBid) / mid * dbl 10000 in
      if 0 < p_position s then
        (let move_bps = (bestBid - avg_entry s) / avg_entry s * dbl 10000 in
         if take_profit_bps p \<le> move_bps \<or> move_bps \<le> - stop_loss_bps p
         then emit (computeOrder oor cap b k Ask (p_position s)) now st
         else (signal_none, st))
      else if p_position s < 0 then
        (let move_bps = (avg_entry s - bestAsk) / avg_entry s * dbl 10000 in
         if take_profit_bps p \<le> move_bps \<or> move_bps \<le> - stop_loss_bps p
         then emit (computeOrder oor cap b k Bid (- p_position s)) now st
         else (signal_none, st))
      else
        (let secsSinceTrade = dbl (of_int (wrap64 (now - last_trade_ns st))) / dbl (10 ^ 9) in
         if secsSinceTrade < cooldown_s p then (signal_none, st)
         else if max_spread_bps p < spread_bps then (signal_none, st)
         else if p_cash s \<le> 0 then (signal_none, st)
         else let targetQty = trade_fraction p * p_cash s / mid in
           if entry_imbalance p < smoothed st then emit (computeOrder oor cap b k Bid targetQty) now st
           else if allow_short p \<and> smoothed st < - entry_imbalance p
           then emit (computeOrder oor cap b k Ask targetQty) now st
           else (signal_none, st)))"

definition sizes_sum :: "PriceLevel list \<Rightarrow> double" where
  "sizes_sum ls = foldl (+) 0 (map (\<lambda>l. qvalue (pl_qty l)) ls)"

definition onMarketUpdate :: "(double \<Rightarrow> int) \<Rightarrow> nat \<Rightarrow> book \<Rightarrow> Timestamp \<Rightarrow> strategy \<Rightarrow> Signal \<times> strategy" where
  "onMarketUpdate oor cap b now st =
     (let bids = depth cap Bid (depth_levels (params st)) b;
          asks = depth cap Ask (depth_levels (params st)) b in
      if length bids = 0 \<or> length asks = 0 then (signal_none, st)
      else let bestBid = toDouble (pl_price (bids ! 0)) (tick_size st);
               bestAsk = toDouble (pl_price (asks ! 0)) (tick_size st) in
        if bestAsk \<le> bestBid then (signal_none, st)
        else let bidSz = sizes_sum bids; askSz = sizes_sum asks; denom = bidSz + askSz in
          if denom \<le> 0 then (signal_none, st)
          else let st1 = push_imbalance ((bidSz - askSz) / denom) st in
            if skip_next_signal st1 then (signal_none, st1\<lparr>skip_next_signal := False\<rparr>)
            else decide oor cap b bestBid bestAsk now st1)"

section \<open>The ring of imbalances\<close>

definition strat_inv :: "strategy \<Rightarrow> bool" where
  "strat_inv st \<longleftrightarrow> 1 \<le> smoothing_window (params st) \<and> smoothing_window (params st) \<le> MAX_ROLLING \<and>
     1 \<le> depth_levels (params st) \<and> depth_levels (params st) \<le> MAX_DEPTH \<and>
     length (rolling st) = MAX_ROLLING \<and> rolling_head st < smoothing_window (params st) \<and>
     rolling_count st \<le> smoothing_window (params st) \<and>
     (rolling_count st < smoothing_window (params st) \<longrightarrow> rolling_head st = rolling_count st) \<and>
     length (pnl st) = MAX_SYMBOLS"

lemma strat_inv_new: "strat_inv (new_strategy p)"
  by (auto simp: strat_inv_def new_strategy_def clamp_params_def Let_def MAX_ROLLING_def MAX_DEPTH_def new_pnl_def)

lemma strat_inv_ops:
  assumes "strat_inv st"
  shows "strat_inv (setSymbol i k st)" "strat_inv (setInitialCash c st)" "strat_inv (strat_onFill r st)" "strat_inv (onReconnect st)"
  using assms by (auto simp: strat_inv_def setSymbol_def setInitialCash_def strat_onFill_def onReconnect_def seedCash_def)

lemma strat_inv_push: assumes "strat_inv st" shows "strat_inv (push_imbalance x st)"
proof -
  define w where "w = smoothing_window (params st)"
  have "(rolling_head st + 1) mod w = rolling_head st + 1" if "rolling_head st + 1 < w" using that by simp
  then show ?thesis using assms by (auto simp: strat_inv_def push_imbalance_def w_def[symmetric])
qed

lemma emit_cases: "snd (emit s now st) = st \<or> snd (emit s now st) = st\<lparr>last_trade_ns := now\<rparr>"
  by (simp add: emit_def)

lemma decide_state: "snd (decide oor cap b x y now st) = st \<or> snd (decide oor cap b x y now st) = st\<lparr>last_trade_ns := now\<rparr>"
  using emit_cases by (simp add: decide_def Let_def)

lemma strat_inv_update: assumes "strat_inv st" shows "strat_inv (snd (onMarketUpdate oor cap b now st))"
proof -
  have d: "strat_inv (snd (decide oor cap b x y now s))" if "strat_inv s" for x y s
    using that decide_state[of oor cap b x y now s] by (auto simp: strat_inv_def)
  have k: "strat_inv (s\<lparr>skip_next_signal := False\<rparr>)" if "strat_inv s" for s using that by (simp add: strat_inv_def)
  show ?thesis unfolding onMarketUpdate_def Let_def using assms d k strat_inv_push by simp
qed

end
