(* ===== verification/Strategy_Behaviour.thy ===== *)
theory Strategy_Behaviour
  imports Imbalance_Strategy "HOL-Library.Multiset"
begin

text \<open>
  What the strategy of \<^verbatim>\<open>src/strategy/imbalance_strategy.cpp\<close> does over a run of updates, fills and
  reconnects: the ring of imbalances against a list of observations, the bounds of the smoothed
  value, the conditions under which signals are emitted, the cooldown and the silence after a
  reconnect.
\<close>

section \<open>Observations\<close>

text \<open>What an update observes: the touch on both sides and the imbalance, when the book is usable.\<close>

definition observe :: "nat \<Rightarrow> book \<Rightarrow> strategy \<Rightarrow> (double \<times> double \<times> double) option" where
  "observe cap b st =
     (let bids = depth cap Bid (depth_levels (params st)) b; asks = depth cap Ask (depth_levels (params st)) b;
          bestBid = toDouble (pl_price (hd bids)) (tick_size st); bestAsk = toDouble (pl_price (hd asks)) (tick_size st);
          denom = sizes_sum bids + sizes_sum asks in
      if bids = [] \<or> asks = [] \<or> bestAsk \<le> bestBid \<or> denom \<le> 0 then None
      else Some (bestBid, bestAsk, (sizes_sum bids - sizes_sum asks) / denom))"

lemma onMarketUpdate_eq:
  "onMarketUpdate oor cap b now st = (case observe cap b st of None \<Rightarrow> (signal_none, st)
     | Some (bestBid, bestAsk, x) \<Rightarrow>
         (let st1 = push_imbalance x st in
          if skip_next_signal st then (signal_none, st1\<lparr>skip_next_signal := False\<rparr>)
          else decide oor cap b bestBid bestAsk now st1))"
  by (simp add: onMarketUpdate_def observe_def Let_def hd_conv_nth push_imbalance_def)

subsection \<open>The ring holds the most recent imbalances\<close>

text \<open>The recorded imbalances, oldest first.\<close>

definition recent :: "strategy \<Rightarrow> double list" where
  "recent st = (let w = smoothing_window (params st) in
     if rolling_count st < w then take (rolling_count st) (rolling st)
     else drop (rolling_head st) (take w (rolling st)) @ take (rolling_head st) (rolling st))"

definition last_n :: "nat \<Rightarrow> 'a list \<Rightarrow> 'a list" where
  "last_n n xs = drop (length xs - n) xs"

lemma last_n_snoc: "0 < n \<Longrightarrow> last_n n (last_n n xs @ [x]) = last_n n (xs @ [x])"
  by (cases "n \<le> length xs") (auto simp: last_n_def Suc_diff_le)

lemma length_recent: "strat_inv st \<Longrightarrow> length (recent st) = rolling_count st"
  by (auto simp: recent_def strat_inv_def Let_def)

lemma recent_push:
  assumes "strat_inv st" shows "recent (push_imbalance x st) = last_n (smoothing_window (params st)) (recent st @ [x])"
proof -
  define w c h xs where "w = smoothing_window (params st)" and "c = rolling_count st" and "h = rolling_head st" and "xs = rolling st"
  note d = w_def[symmetric] c_def[symmetric] h_def[symmetric] xs_def[symmetric]
  have i: "1 \<le> w" "w \<le> length xs" "h < w" "c \<le> w" "c < w \<Longrightarrow> h = c"
    using assms by (auto simp: strat_inv_def d)
  have tk: "take (Suc h) (xs[h := x]) = take h xs @ [x]" using i by (simp add: take_Suc_conv_app_nth)
  have wrap: "(h + 1) mod w = (if h + 1 = w then 0 else h + 1)" using i by auto
  have cut: "drop (Suc h) (take w (xs[h := x])) = drop (Suc h) (take w xs)" by (simp add: take_update_swap)
  show ?thesis
  proof (cases "c < w")
    case True
    have whole: "take w (xs[h := x]) = take h xs @ [x]" if "Suc h = w" using tk that by simp
    show ?thesis using True i tk wrap whole
      by (auto simp: recent_def push_imbalance_def d last_n_def Let_def)
  next
    case False
    then have "c = w" using i by simp
    have hd: "drop h (take w xs) = xs ! h # drop (Suc h) (take w xs)" using i Cons_nth_drop_Suc[of h "take w xs"] by simp
    have whole: "take w (xs[h := x]) = take h xs @ [x]" if "Suc h = w" using tk that by simp
    have "drop (Suc h) (take w xs) = []" if "Suc h = w" using that by simp
    then show ?thesis using False \<open>c = w\<close> i tk wrap whole hd cut
      by (auto simp: recent_def push_imbalance_def d last_n_def Let_def)
  qed
qed

lemma mset_recent:
  assumes "strat_inv st" shows "mset (take (rolling_count st) (rolling st)) = mset (recent st)"
proof -
  have "take h xs @ drop h (take w xs) = take w xs" if "h \<le> w" for h w and xs :: "double list"
    using that append_take_drop_id[of h "take w xs"] by (simp add: min_def)
  then have "mset (drop h (take w xs) @ take h xs) = mset (take w xs)" if "h \<le> w" for h w and xs :: "double list"
    using that by (metis mset_append union_commute)
  then show ?thesis using assms by (auto simp: recent_def strat_inv_def Let_def)
qed

text \<open>Bounds: rounding is monotone and small integers are representable, so every partial sum of
  values in \<open>[-1, 1]\<close> is bounded by their number.\<close>

definition unit_value :: "double \<Rightarrow> bool" where
  "unit_value x \<longleftrightarrow> is_fin x \<and> \<bar>dval x\<bar> \<le> 1"

lemma unit_sum:
  assumes "\<forall>x \<in> set xs. unit_value x" "is_fin a" "\<bar>dval a\<bar> \<le> of_nat n" "n + length xs \<le> 64"
  shows "is_fin (foldl (+) a xs) \<and> \<bar>dval (foldl (+) a xs)\<bar> \<le> of_nat (n + length xs)"
  using assms
proof (induction xs arbitrary: a n)
  case (Cons x xs)
  have x: "is_fin x" "\<bar>dval x\<bar> \<le> 1" using Cons.prems(1) by (auto simp: unit_value_def)
  have r: "rep (of_nat (Suc n))" using rep_of_int[of "int (Suc n)"] Cons.prems(4) by simp
  have b: "\<bar>dval a + dval x\<bar> \<le> of_nat (Suc n)" using Cons.prems(3) x(2) by simp
  note s = add_bound[OF Cons.prems(2) x(1) r b]
  show ?case using Cons.IH[OF _ s(1,3)] Cons.prems(1,4) by simp
qed simp

lemma unit_smoothed:
  assumes "\<forall>x \<in> set (take (rolling_count st) (rolling st)). unit_value x" "0 < rolling_count st" "rolling_count st \<le> 32"
    "rolling_count st \<le> length (rolling st)"
  shows "unit_value (smoothed st)"
proof -
  define c xs where "c = rolling_count st" and "xs = take (rolling_count st) (rolling st)"
  have c: "0 < c" "c \<le> 32" "length xs = c" using assms by (simp_all add: c_def xs_def)
  have s: "is_fin (foldl (+) 0 xs)" "\<bar>dval (foldl (+) 0 xs)\<bar> \<le> of_nat c"
    using unit_sum[of xs 0 0] assms(1) c by (simp_all add: xs_def)
  have r: "rep (of_nat c)" using rep_of_int[of "int c"] c by simp
  have "\<bar>dval (foldl (+) 0 xs) / dval (dbl (of_nat c))\<bar> \<le> 1" using s c r by (simp add: field_simps)
  then show ?thesis
    using divide_bound[OF s(1) is_fin_rep[OF r], of 1] c r by (simp add: unit_value_def smoothed_def xs_def c_def)
qed

lemma imbalance_unit:
  assumes "is_fin x" "is_fin y" "0 \<le> dval x" "0 \<le> dval y" "is_fin (x + y)" "\<not> x + y \<le> 0"
  shows "unit_value ((x - y) / (x + y))"
proof -
  have s: "dval (x + y) = rnd (dval x + dval y)" using assms by (simp add: dval_add)
  have "\<bar>dval x - dval y\<bar> \<le> dval x + dval y" using assms(3,4) by simp
  then have "\<bar>rnd (dval x - dval y)\<bar> \<le> dval (x + y)" unfolding s fl.abs_eq[symmetric] by (rule rnd_mono)
  then have d: "is_fin (x - y)" "\<bar>dval (x - y)\<bar> \<le> dval (x + y)"
    using s assms(1,2) dval_limit[of "x + y"] by (auto simp: is_fin_diff_iff dval_diff)
  have p: "0 < dval (x + y)" using assms(5,6) by (simp add: less_eq_fin)
  then show ?thesis
    using divide_bound[OF d(1) assms(5), of 1] d(2) by (simp add: unit_value_def field_simps)
qed

text \<open>Displayed sizes of at most \<open>2 ^ 400\<close>: their sums over 32 levels per side do not overflow.\<close>

definition modest_sizes :: "nat \<Rightarrow> book \<Rightarrow> bool" where
  "modest_sizes cap b \<longleftrightarrow> list_all (\<lambda>l. size_of l \<le> dbl big) (depth cap Bid MAX_DEPTH b @ depth cap Ask MAX_DEPTH b)"

lemma rep_big_multiple: assumes "n \<le> 64" shows "rep (of_nat n * big)"
proof -
  have "of_nat n * big \<le> 64 * big" using assms big_props(2) by (intro mult_right_mono) simp_all
  also have "64 * big = p2 406" using p2_add[of 6 400] by (simp add: big_def)
  also have "\<dots> \<le> p2 952" by (rule p2_mono) simp
  finally have "\<bar>of_nat n * big\<bar> < dbl_limit" using big_props(2) below_limit[of "of_nat n * big"] by simp
  then show ?thesis using rnd_exact[of "int n" 400] assms by (simp add: rep_def big_def)
qed

lemma modest_sum:
  assumes "\<forall>x \<in> set xs. is_fin x \<and> 0 \<le> dval x \<and> dval x \<le> big" "is_fin a" "0 \<le> dval a" "dval a \<le> of_nat n * big"
    "n + length xs \<le> 64"
  shows "is_fin (foldl (+) a xs) \<and> 0 \<le> dval (foldl (+) a xs) \<and> dval (foldl (+) a xs) \<le> of_nat (n + length xs) * big"
  using assms
proof (induction xs arbitrary: a n)
  case (Cons x xs)
  have x: "is_fin x" "0 \<le> dval x" "dval x \<le> big" using Cons.prems(1) by auto
  have r: "rep (of_nat (Suc n) * big)" using rep_big_multiple[of "Suc n"] Cons.prems(5) by simp
  have b: "\<bar>dval a + dval x\<bar> \<le> of_nat (Suc n) * big" using Cons.prems(3,4) x(2,3) unfolding of_nat_Suc distrib_right by linarith
  note s = add_bound[OF Cons.prems(2) x(1) r b]
  have "0 \<le> dval (a + x)" unfolding s(2) using Cons.prems(3) x(2) by (simp add: rnd_nonneg)
  then show ?case using Cons.IH[OF _ s(1), of "Suc n"] s(3) Cons.prems(1,5) by simp
qed simp

lemma modest_depth:
  assumes "book_ok cap b" "modest_sizes cap b" "n \<le> 32" "l \<in> set (depth cap s n b)" shows "size_of l \<le> dbl big"
proof -
  have "l \<in> set (depth cap s MAX_DEPTH b)"
    using assms(3,4) bk.walk_prefix[OF assms(1), of n MAX_DEPTH s] by (auto simp: MAX_DEPTH_def dest: in_set_takeD)
  then show ?thesis using assms(2) by (cases s) (auto simp: modest_sizes_def list_all_iff)
qed

lemma modest_sizes_sum:
  assumes "book_ok cap b" "modest_sizes cap b" "n \<le> 32"
  shows "is_fin (sizes_sum (depth cap s n b))" "0 \<le> dval (sizes_sum (depth cap s n b))" "dval (sizes_sum (depth cap s n b)) \<le> 32 * big"
proof -
  let ?xs = "map (\<lambda>l. qvalue (pl_qty l)) (depth cap s n b)"
  have r: "rep big" using rep_big_multiple[of 1] by simp
  have "is_fin x \<and> 0 \<le> dval x \<and> dval x \<le> big" if "x \<in> set ?xs" for x
  proof -
    have x: "0 < x" "x \<le> dbl big"
      using that bk.walk_pos[OF assms(1), of _ s n] modest_depth[OF assms, of _ s] by (auto simp: size_of_def)
    then have "is_fin x" using is_fin_between[OF is_fin_0 is_fin_rep[OF r] d_less_imp_le] by blast
    then show ?thesis using x r by (simp add: less_fin less_eq_fin)
  qed
  then have *: "\<forall>x \<in> set ?xs. is_fin x \<and> 0 \<le> dval x \<and> dval x \<le> big" by blast
  have l: "length ?xs \<le> 32" using bk.walk_len[of cap s n b] assms(3) by simp
  note m = modest_sum[OF *, of 0 0]
  show "is_fin (sizes_sum (depth cap s n b))" "0 \<le> dval (sizes_sum (depth cap s n b))" using m l by (simp_all add: sizes_sum_def)
  have "dval (sizes_sum (depth cap s n b)) \<le> of_nat (length ?xs) * big" using m l by (simp add: sizes_sum_def)
  also have "\<dots> \<le> 32 * big" using l big_props(2) by (intro mult_right_mono) simp_all
  finally show "dval (sizes_sum (depth cap s n b)) \<le> 32 * big" .
qed

lemma observe_unit:
  assumes "book_ok cap b" "modest_sizes cap b" "strat_inv st" "observe cap b st = Some (x, y, v)"
  shows "unit_value v"
proof -
  define p q where "p = sizes_sum (depth cap Bid (depth_levels (params st)) b)" and "q = sizes_sum (depth cap Ask (depth_levels (params st)) b)"
  have "depth_levels (params st) \<le> 32" using assms(3) by (simp add: strat_inv_def MAX_DEPTH_def)
  note m = modest_sizes_sum[OF assms(1,2) this]
  have v: "v = (p - q) / (p + q)" "\<not> p + q \<le> 0"
    using assms(4) by (auto simp: observe_def Let_def p_def q_def split: if_splits)
  have "\<bar>dval p + dval q\<bar> \<le> of_nat 64 * big"
    using m(2,3)[of Bid] m(2,3)[of Ask] unfolding p_def q_def by linarith
  then have "is_fin (p + q)" using add_bound(1)[of p q] rep_big_multiple[of 64] m(1) by (simp add: p_def q_def)
  then show ?thesis using imbalance_unit[of p q] m(1,2) v by (simp add: p_def q_def)
qed

section \<open>Runs of the strategy\<close>

text \<open>The calls that the runtime makes after construction.\<close>

datatype strategy_call = Update book Timestamp | Fill ExecutionReport | Reconnect

primrec strategy_step :: "(double \<Rightarrow> int) \<Rightarrow> nat \<Rightarrow> strategy_call \<Rightarrow> strategy \<Rightarrow> strategy" where
  "strategy_step oor cap (Update b now) st = snd (onMarketUpdate oor cap b now st)"
| "strategy_step oor cap (Fill r) st = strat_onFill r st"
| "strategy_step oor cap Reconnect st = onReconnect st"

definition strategy_run :: "(double \<Rightarrow> int) \<Rightarrow> nat \<Rightarrow> strategy_call list \<Rightarrow> strategy \<Rightarrow> strategy" where
  "strategy_run oor cap = fold (strategy_step oor cap)"

definition same_setup :: "strategy \<Rightarrow> strategy \<Rightarrow> bool" where
  "same_setup a b \<longleftrightarrow> params a = params b \<and> tick_size a = tick_size b \<and> symbol a = symbol b"

lemma update_shape:
  "\<exists>t. snd (onMarketUpdate oor cap b now st) = (case observe cap b st of None \<Rightarrow> st
     | Some (x, y, v) \<Rightarrow> (push_imbalance v st)\<lparr>skip_next_signal := False, last_trade_ns := t\<rparr>)"
proof (cases "observe cap b st")
  case (Some o3)
  obtain x y v where o: "o3 = (x, y, v)" by (cases o3)
  let ?s = "push_imbalance v st"
  have k: "skip_next_signal ?s = skip_next_signal st" "last_trade_ns ?s = last_trade_ns st" by (simp_all add: push_imbalance_def)
  consider "skip_next_signal st" | "\<not> skip_next_signal st" by blast
  then show ?thesis
  proof cases
    case 1
    then show ?thesis using Some o by (intro exI[of _ "last_trade_ns st"]) (simp add: onMarketUpdate_eq push_imbalance_def)
  next
    case 2
    then have "?s\<lparr>skip_next_signal := False, last_trade_ns := last_trade_ns st\<rparr> = ?s" using k by simp
    moreover have "?s\<lparr>skip_next_signal := False, last_trade_ns := now\<rparr> = ?s\<lparr>last_trade_ns := now\<rparr>" using 2 k by simp
    ultimately show ?thesis using 2 Some o decide_state[of oor cap b x y now ?s]
      by (simp add: onMarketUpdate_eq Let_def) metis
  qed
qed (auto simp: onMarketUpdate_eq)

lemma push_fields [simp]:
  "params (push_imbalance v st) = params st" "tick_size (push_imbalance v st) = tick_size st" "symbol (push_imbalance v st) = symbol st"
  "pnl (push_imbalance v st) = pnl st" "last_trade_ns (push_imbalance v st) = last_trade_ns st"
  "skip_next_signal (push_imbalance v st) = skip_next_signal st"
  by (simp_all add: push_imbalance_def)

lemma observe_cong: "same_setup a b \<Longrightarrow> observe cap bk a = observe cap bk b"
  by (simp add: same_setup_def observe_def)

lemma update_cases:
  obtains t where "snd (onMarketUpdate oor cap b now st) = (case observe cap b st of None \<Rightarrow> st
     | Some (x, y, v) \<Rightarrow> (push_imbalance v st)\<lparr>skip_next_signal := False, last_trade_ns := t\<rparr>)"
  using update_shape by blast

lemma step_setup: "same_setup (strategy_step oor cap c st) st"
proof (cases c)
  case (Update b now)
  obtain t where "snd (onMarketUpdate oor cap b now st) = (case observe cap b st of None \<Rightarrow> st
     | Some (x, y, v) \<Rightarrow> (push_imbalance v st)\<lparr>skip_next_signal := False, last_trade_ns := t\<rparr>)" by (rule update_cases)
  then show ?thesis using Update by (auto simp: same_setup_def split: option.split)
qed (simp_all add: same_setup_def strat_onFill_def onReconnect_def)

lemma step_inv: "strat_inv st \<Longrightarrow> strat_inv (strategy_step oor cap c st)"
  by (cases c) (simp_all add: strat_inv_ops strat_inv_update)

lemma run_setup: "same_setup (strategy_run oor cap cs st) st"
  unfolding strategy_run_def by (induction cs arbitrary: st) (use step_setup same_setup_def in auto)

lemma strat_run_inv: "strat_inv st \<Longrightarrow> strat_inv (strategy_run oor cap cs st)"
  unfolding strategy_run_def by (induction cs arbitrary: st) (simp_all add: step_inv)

lemma run_simps [simp]:
  "strategy_run oor cap [] st = st"
  "strategy_run oor cap (c # cs) st = strategy_run oor cap cs (strategy_step oor cap c st)"
  by (simp_all add: strategy_run_def)

text \<open>The specification of the ring: the imbalances observed since the last reconnect.\<close>

primrec heard :: "nat \<Rightarrow> strategy \<Rightarrow> strategy_call \<Rightarrow> double list \<Rightarrow> double list" where
  "heard cap st (Update b now) h = (case observe cap b st of None \<Rightarrow> h | Some (x, y, v) \<Rightarrow> h @ [v])"
| "heard cap st (Fill r) h = h"
| "heard cap st Reconnect h = []"

lemma recent_frame [simp]:
  "recent (st\<lparr>skip_next_signal := s, last_trade_ns := t\<rparr>) = recent st" "recent (st\<lparr>skip_next_signal := s\<rparr>) = recent st" "recent (strat_onFill r st) = recent st" "recent (onReconnect st) = []"
  by (auto simp: recent_def strat_onFill_def onReconnect_def Let_def)

lemma recent_step:
  assumes "strat_inv st" "same_setup st st0" "recent st = last_n (smoothing_window (params st)) h"
  shows "recent (strategy_step oor cap c st) = last_n (smoothing_window (params st)) (heard cap st0 c h)"
proof (cases c)
  case (Update b now)
  have w: "0 < smoothing_window (params st)" using assms(1) by (simp add: strat_inv_def)
  obtain t where "snd (onMarketUpdate oor cap b now st) = (case observe cap b st of None \<Rightarrow> st
     | Some (x, y, v) \<Rightarrow> (push_imbalance v st)\<lparr>skip_next_signal := False, last_trade_ns := t\<rparr>)" by (rule update_cases)
  then show ?thesis using Update assms(3) recent_push[OF assms(1)] observe_cong[OF assms(2), of cap b]
    by (auto simp: last_n_snoc[OF w] split: option.split)
qed (use assms(3) in \<open>simp_all add: last_n_def\<close>)

lemma recent_run:
  assumes "strat_inv st" "same_setup st st0" "recent st = last_n (smoothing_window (params st0)) h"
  shows "recent (strategy_run oor cap cs st) = last_n (smoothing_window (params st0)) (fold (heard cap st0) cs h)"
  using assms
proof (induction cs arbitrary: st h)
  case (Cons c cs)
  let ?s = "strategy_step oor cap c st"
  have "same_setup ?s st0" using step_setup[of oor cap c st] Cons.prems(2) by (simp add: same_setup_def)
  then show ?case
    using Cons.IH[of ?s "heard cap st0 c h"] step_inv[OF Cons.prems(1)] recent_step[OF Cons.prems(1,2), of h oor cap c] Cons.prems(2,3)
    by (simp add: same_setup_def)
qed simp

lemma heard_unit:
  assumes "strat_inv st" "\<forall>c \<in> set cs. case c of Update b now \<Rightarrow> book_ok cap b \<and> modest_sizes cap b | _ \<Rightarrow> True"
    "\<forall>x \<in> set h. unit_value x"
  shows "\<forall>x \<in> set (fold (heard cap st) cs h). unit_value x"
  using assms(2,3)
proof (induction cs arbitrary: h)
  case (Cons c cs)
  have "\<forall>x \<in> set (heard cap st c h). unit_value x"
    using Cons.prems observe_unit[OF _ _ assms(1)] by (cases c) (auto split: option.split)
  then show ?case using Cons.IH Cons.prems(1) by simp
qed simp

lemma unit_sum_error:
  assumes "\<forall>x \<in> set xs. unit_value x" "is_fin a" "\<bar>dval a\<bar> \<le> of_nat n" "n + length xs \<le> 64"
  shows "\<bar>dval (foldl (+) a xs) - (dval a + sum_list (map dval xs))\<bar> \<le> of_nat (length xs) * (64 / 2 ^ 53)"
  using assms
proof (induction xs arbitrary: a n)
  case (Cons x xs)
  have x: "is_fin x" "\<bar>dval x\<bar> \<le> 1" using Cons.prems(1) by (auto simp: unit_value_def)
  have r: "rep (of_nat (Suc n))" using rep_of_int[of "int (Suc n)"] Cons.prems(4) by simp
  have b: "\<bar>dval a + dval x\<bar> \<le> of_nat (Suc n)" using Cons.prems(3) x(2) by simp
  note s = add_bound[OF Cons.prems(2) x(1) r b]
  have "of_nat (Suc n) \<le> (64 :: rat)" using Cons.prems(4) by simp
  then have "\<bar>dval (a + x) - (dval a + dval x)\<bar> \<le> 64 / 2 ^ 53"
    using rnd_sum_error[of "dval a" "dval x"] b unfolding s(2) by simp
  moreover have "\<bar>dval (foldl (+) (a + x) xs) - (dval (a + x) + sum_list (map dval xs))\<bar> \<le> of_nat (length xs) * (64 / 2 ^ 53)"
    using Cons.IH[OF _ s(1,3)] Cons.prems(1,4) by simp
  ultimately show ?case unfolding foldl_Cons list.map sum_list.Cons list.size(4) of_nat_add of_nat_1 distrib_right by linarith
qed simp

lemma rnd_unit_error: assumes "\<bar>q\<bar> \<le> 1" shows "\<bar>rnd q - q\<bar> \<le> 1 / 2 ^ 53"
proof (cases "p2 (- 1022) \<le> \<bar>q\<bar>")
  case True
  then show ?thesis using rnd_error_rel[OF True] assms by simp
next
  case False
  have "rnd (p2 (- 1022)) = p2 (- 1022)" using rep_p2[of "- 1022"] by (simp only: rep_def)
  then have "\<bar>rnd q\<bar> \<le> p2 (- 1022)" using False by (intro fl.abs_upper) linarith+
  then have "\<bar>rnd q - q\<bar> \<le> 2 * p2 (- 1022)" using False by linarith
  also have "2 * p2 (- 1022) = p2 1 * p2 (- 1022)" by (simp only: power_int_1_right)
  also have "\<dots> = p2 (- 1021)" using p2_add[of 1 "- 1022"] by simp
  also have "\<dots> \<le> p2 (- 53)" by (rule p2_mono) simp
  also have "\<dots> = 1 / 2 ^ 53" by (simp add: power_int_minus)
  finally show ?thesis .
qed

lemma near_trans_abs: "\<bar>a - b\<bar> \<le> d \<Longrightarrow> \<bar>b - c\<bar> \<le> e \<Longrightarrow> \<bar>a - c\<bar> \<le> d + e" for a b c d e :: rat
  by linarith

definition average :: "double list \<Rightarrow> rat" where
  "average xs = sum_list (map dval xs) / of_nat (length xs)"

lemma smoothed_mean:
  assumes "strat_inv st" "\<forall>x \<in> set (recent st). unit_value x" "recent st \<noteq> []"
  shows "unit_value (smoothed st)" "\<bar>dval (smoothed st) - average (recent st)\<bar> \<le> 1 / 2 ^ 46"
proof -
  define c xs where "c = rolling_count st" and "xs = take (rolling_count st) (rolling st)"
  note m = mset_recent[OF assms(1), folded xs_def]
  have c: "0 < c" "c \<le> 32" "length xs = c" "length (recent st) = c"
    using assms(1,3) length_recent[OF assms(1)] length_greater_0_conv[of "recent st"] by (auto simp: c_def xs_def strat_inv_def MAX_ROLLING_def)
  have u: "\<forall>x \<in> set xs. unit_value x" using assms(2) mset_eq_setD[OF m] by simp
  then show "unit_value (smoothed st)" using c by (intro unit_smoothed) (simp_all add: xs_def c_def)
  define s where "s = foldl (+) 0 xs"
  have "mset (map dval xs) = mset (map dval (recent st))" using m by (simp add: mset_map)
  then have e: "sum_list (map dval (recent st)) = sum_list (map dval xs)" by (metis sum_mset_sum_list)
  have s: "is_fin s" "\<bar>dval s\<bar> \<le> of_nat c" "\<bar>dval s - sum_list (map dval xs)\<bar> \<le> of_nat c * (64 / 2 ^ 53)"
    using unit_sum[OF u, of 0 0] unit_sum_error[OF u, of 0 0] c by (simp_all add: s_def)
  have r: "rep (of_nat c)" using rep_of_int[of "int c"] c by simp
  have q: "\<bar>dval s / of_nat c\<bar> \<le> 1" using s(2) c(1) by (simp add: field_simps)
  have v: "dval (smoothed st) = rnd (dval s / of_nat c)"
    using divide_bound(2)[OF s(1) is_fin_rep[OF r], of 1] q c(1) r by (simp add: smoothed_def s_def xs_def c_def)
  have "\<bar>dval s / of_nat c - average (recent st)\<bar> = \<bar>dval s - sum_list (map dval xs)\<bar> / of_nat c"
    using c(4) by (simp add: average_def e abs_divide flip: diff_divide_distrib)
  also have "\<dots> \<le> 64 / 2 ^ 53" using s(3) c(1) by (simp add: field_simps)
  finally have "\<bar>dval (smoothed st) - average (recent st)\<bar> \<le> 1 / 2 ^ 53 + 64 / 2 ^ 53"
    using rnd_unit_error[OF q] unfolding v by (rule near_trans_abs[rotated])
  then show "\<bar>dval (smoothed st) - average (recent st)\<bar> \<le> 1 / 2 ^ 46" by simp
qed

section \<open>Properties of the strategy\<close>

text \<open>
  C15. Whatever sequence of updates, fills and reconnects follows, the ring holds the last
  \<open>smoothing_window\<close> imbalances observed since the last reconnect; each of them and the smoothed
  value are in \<open>[-1, 1]\<close>, and the smoothed value is their average up to \<open>2 ^ -46\<close>.
\<close>

theorem strategy_ring_refines:
  fixes oor :: "double \<Rightarrow> int"
  assumes "strat_inv st" "rolling_count st = 0"
    "\<forall>c \<in> set cs. case c of Update b now \<Rightarrow> book_ok cap b \<and> modest_sizes cap b | _ \<Rightarrow> True"
  defines "st' \<equiv> strategy_run oor cap cs st"
    and "h \<equiv> last_n (smoothing_window (params st)) (fold (heard cap st) cs [])"
  shows "strat_inv st' \<and> recent st' = h \<and> (\<forall>x \<in> set h. unit_value x) \<and>
    (h \<noteq> [] \<longrightarrow> unit_value (smoothed st') \<and> \<bar>dval (smoothed st') - average h\<bar> \<le> 1 / 2 ^ 46)"
proof -
  have "recent st = last_n (smoothing_window (params st)) []" using length_recent[OF assms(1)] assms(2) by (simp add: last_n_def)
  then have r: "recent st' = h"
    using recent_run[OF assms(1), of st "[]"] by (simp add: st'_def h_def same_setup_def)
  have u: "\<forall>x \<in> set h. unit_value x"
    using heard_unit[OF assms(1,3), of "[]"] by (auto simp: h_def last_n_def dest: in_set_dropD)
  have i: "strat_inv st'" unfolding st'_def by (rule strat_run_inv[OF assms(1)])
  show ?thesis using smoothed_mean[OF i] r u i by simp
qed

lemma emit_actionable:
  "isActionable (fst (emit s now st)) \<Longrightarrow>
     s_action (fst (emit s now st)) = s_action s \<and> s_ts (fst (emit s now st)) = now \<and> snd (emit s now st) = st\<lparr>last_trade_ns := now\<rparr>"
  by (auto simp: emit_def isActionable_def signal_none_def split: if_splits)

lemma computeOrder_action:
  "s_action (computeOrder oor cap b k side tg) \<in> {NoAction, if side = Bid then Buy else Sell}"
  by (auto simp: computeOrder_def signal_none_def Let_def split: prod.split)

lemma emit_order:
  assumes "isActionable (fst (emit (computeOrder oor cap b k side tg) now st))"
  shows "s_action (fst (emit (computeOrder oor cap b k side tg) now st)) = (if side = Bid then Buy else Sell)"
  using emit_actionable[OF assms] computeOrder_action[of oor cap b k side tg] assms by (auto simp: isActionable_def)

lemma not_actionable_none [simp]: "\<not> isActionable signal_none"
  by (simp add: isActionable_def signal_none_def)

definition exit_move :: "double \<Rightarrow> double \<Rightarrow> PnlState \<Rightarrow> double" where
  "exit_move bestBid bestAsk s = (if 0 < p_position s then (bestBid - avg_entry s) / avg_entry s * dbl 10000
     else (avg_entry s - bestAsk) / avg_entry s * dbl 10000)"

definition exit_due :: "StrategyParams \<Rightarrow> double \<Rightarrow> bool" where
  "exit_due p m \<longleftrightarrow> take_profit_bps p \<le> m \<or> m \<le> - stop_loss_bps p"

definition flat :: "PnlState \<Rightarrow> bool" where
  "flat s \<longleftrightarrow> \<not> 0 < p_position s \<and> \<not> p_position s < 0"

definition elapsed :: "Timestamp \<Rightarrow> strategy \<Rightarrow> double" where
  "elapsed now st = dbl (of_int (wrap64 (now - last_trade_ns st))) / dbl (10 ^ 9)"

definition spread_of :: "double \<Rightarrow> double \<Rightarrow> double" where
  "spread_of bestBid bestAsk = (bestAsk - bestBid) / ((bestBid + bestAsk) * dbl (1 / 2)) * dbl 10000"

text \<open>The same decision in these terms.\<close>

lemma decide_holding:
  assumes "\<not> flat (strat_state st)"
  shows "decide oor cap b x y now st =
    (if exit_due (params st) (exit_move x y (strat_state st)) then
       (if 0 < p_position (strat_state st) then emit (computeOrder oor cap b (tick_size st) Ask (p_position (strat_state st))) now st
        else emit (computeOrder oor cap b (tick_size st) Bid (- p_position (strat_state st))) now st)
     else (signal_none, st))"
  using assms by (auto simp: decide_def exit_due_def exit_move_def flat_def Let_def)

lemma decide_flat:
  assumes "flat (strat_state st)"
  shows "decide oor cap b x y now st =
    (if elapsed now st < cooldown_s (params st) \<or> max_spread_bps (params st) < spread_of x y \<or> p_cash (strat_state st) \<le> 0
     then (signal_none, st)
     else let qty = trade_fraction (params st) * p_cash (strat_state st) / ((x + y) * dbl (1 / 2)) in
       if entry_imbalance (params st) < smoothed st then emit (computeOrder oor cap b (tick_size st) Bid qty) now st
       else if allow_short (params st) \<and> smoothed st < - entry_imbalance (params st)
       then emit (computeOrder oor cap b (tick_size st) Ask qty) now st else (signal_none, st))"
  using assms by (auto simp: decide_def elapsed_def spread_of_def flat_def Let_def)

definition entry_ok :: "Timestamp \<Rightarrow> double \<Rightarrow> double \<Rightarrow> SignalAction \<Rightarrow> strategy \<Rightarrow> bool" where
  "entry_ok now x y act st \<longleftrightarrow> \<not> elapsed now st < cooldown_s (params st) \<and> \<not> max_spread_bps (params st) < spread_of x y \<and>
     \<not> p_cash (strat_state st) \<le> 0 \<and>
     (act = Buy \<and> entry_imbalance (params st) < smoothed st \<or>
      act = Sell \<and> allow_short (params st) \<and> smoothed st < - entry_imbalance (params st))"

lemma decide_guards:
  assumes "isActionable (fst (decide oor cap b x y now st))"
  defines "sg \<equiv> fst (decide oor cap b x y now st)"
  shows "if flat (strat_state st) then entry_ok now x y (s_action sg) st
    else exit_due (params st) (exit_move x y (strat_state st)) \<and> s_action sg = (if 0 < p_position (strat_state st) then Sell else Buy)"
    "s_ts sg = now" "snd (decide oor cap b x y now st) = st\<lparr>last_trade_ns := now\<rparr>"
proof -
  have c: "\<exists>side tg. decide oor cap b x y now st = emit (computeOrder oor cap b (tick_size st) side tg) now st \<and>
     (if flat (strat_state st) then entry_ok now x y (if side = Bid then Buy else Sell) st
      else exit_due (params st) (exit_move x y (strat_state st)) \<and> side = (if 0 < p_position (strat_state st) then Ask else Bid))"
  proof (cases "flat (strat_state st)")
    case True
    show ?thesis using assms(1) unfolding decide_flat[OF True] by (auto simp: True entry_ok_def Let_def split: if_splits)
  next
    case False
    show ?thesis using assms(1) unfolding decide_holding[OF False] by (auto simp: False split: if_splits)
  qed
  then obtain side tg where s: "decide oor cap b x y now st = emit (computeOrder oor cap b (tick_size st) side tg) now st"
    "if flat (strat_state st) then entry_ok now x y (if side = Bid then Buy else Sell) st
      else exit_due (params st) (exit_move x y (strat_state st)) \<and> side = (if 0 < p_position (strat_state st) then Ask else Bid)" by blast
  have a: "isActionable (fst (emit (computeOrder oor cap b (tick_size st) side tg) now st))" using assms(1) s(1) by simp
  show "s_ts sg = now" "snd (decide oor cap b x y now st) = st\<lparr>last_trade_ns := now\<rparr>"
    using emit_actionable[OF a] by (simp_all add: sg_def s(1))
  show "if flat (strat_state st) then entry_ok now x y (s_action sg) st
    else exit_due (params st) (exit_move x y (strat_state st)) \<and> s_action sg = (if 0 < p_position (strat_state st) then Sell else Buy)"
    using s(2) emit_order[OF a] by (auto simp: sg_def s(1) split: if_splits)
qed

lemma strat_state_push [simp]: "strat_state (push_imbalance v st) = strat_state st"
  by (simp add: strat_state_def)

lemma update_signal:
  assumes "isActionable (fst (onMarketUpdate oor cap b now st))"
  obtains x y v where "observe cap b st = Some (x, y, v)" "\<not> skip_next_signal st"
    "onMarketUpdate oor cap b now st = decide oor cap b x y now (push_imbalance v st)"
  using assms by (auto simp: onMarketUpdate_eq Let_def split: option.splits if_splits)

text \<open>
  C22. A signal is emitted only under the conditions of its position: a long position is sold and a
  short one bought back only at the profit target or the stop; from flat a position is opened only
  after the cooldown, with a spread below the limit, positive cash and a smoothed imbalance beyond
  the threshold, on the side of the imbalance, and short only when shorting is allowed.  Emitting
  stamps the signal and restarts the cooldown; an update never changes the account.
\<close>

theorem strategy_signal_guards:
  assumes "isActionable (fst (onMarketUpdate oor cap b now st))"
  shows "\<exists>x y v. observe cap b st = Some (x, y, v) \<and> \<not> skip_next_signal st \<and>
    (if flat (strat_state st) then entry_ok now x y (s_action (fst (onMarketUpdate oor cap b now st))) (push_imbalance v st)
     else exit_due (params st) (exit_move x y (strat_state st)) \<and>
       s_action (fst (onMarketUpdate oor cap b now st)) = (if 0 < p_position (strat_state st) then Sell else Buy)) \<and>
    s_ts (fst (onMarketUpdate oor cap b now st)) = now \<and>
    snd (onMarketUpdate oor cap b now st) = (push_imbalance v st)\<lparr>last_trade_ns := now\<rparr>"
proof -
  obtain x y v where u: "observe cap b st = Some (x, y, v)" "\<not> skip_next_signal st"
    "onMarketUpdate oor cap b now st = decide oor cap b x y now (push_imbalance v st)"
    by (rule update_signal[OF assms])
  note g = decide_guards[OF assms[unfolded u(3)]]
  show ?thesis by (rule exI[of _ x], rule exI[of _ y], rule exI[of _ v]) (use u g in \<open>auto split: if_splits\<close>)
qed

text \<open>
  C26. A stop or a profit target is always acted on: when a usable update shows that an open
  position has reached one of them, and no reconnect is pending, the strategy emits an order on the
  closing side. Its quantity is, up to the roundings of the walk (one part in \<open>2 ^ 46\<close>), the smaller of the
  position and of what the first \<open>MAX_BOOK_WALK\<close> opposing levels offer: it closes the whole position
  when they hold enough, and otherwise takes all they hold; it never exceeds the position by
  more than one part in \<open>2 ^ 50\<close>.
\<close>

theorem strategy_exit_emitted:
  fixes oor :: "double \<Rightarrow> int" and now :: Timestamp
  assumes "book_ok cap b" "strat_inv st" "observe cap b st = Some (x, y, v)" "\<not> skip_next_signal st"
    "roomy \<bar>p_position (strat_state st)\<bar>" "exit_due (params st) (exit_move x y (strat_state st))"
    and walk: "walk_roomy (tick_size st) (depth cap (if 0 < p_position (strat_state st) then Bid else Ask) MAX_BOOK_WALK b)"
  defines "sg \<equiv> fst (onMarketUpdate oor cap b now st)"
    and "offer \<equiv> sum_list (map (\<lambda>l. dval (size_of l)) (depth cap (if 0 < p_position (strat_state st) then Bid else Ask) MAX_BOOK_WALK b))"
  shows "s_action sg = (if 0 < p_position (strat_state st) then Sell else Buy) \<and> normal (qvalue (s_qty sg)) \<and>
    min (dval \<bar>p_position (strat_state st)\<bar>) offer \<le> dval (qvalue (s_qty sg)) * (1 + 1 / 2 ^ 46) \<and>
    dval (qvalue (s_qty sg)) \<le> offer * (1 + 1 / 2 ^ 46) \<and>
    dval (qvalue (s_qty sg)) \<le> dval \<bar>p_position (strat_state st)\<bar> * ee ^ 2"
proof -
  define s pos side where "s = push_imbalance v st" and "pos = p_position (strat_state st)" and "side = (if 0 < pos then Ask else Bid)"
  define tg where "tg = (if 0 < pos then pos else - pos)"
  have f: "is_fin pos" "0 < \<bar>dval pos\<bar>"
    using normal_pos[OF roomy_normal[OF assms(5)]] by (simp_all add: pos_def)
  have nf: "\<not> flat (strat_state s)" using f by (auto simp: s_def flat_def less_fin pos_def[symmetric])
  have tg: "dval tg = dval \<bar>pos\<bar>" "is_fin tg" using f by (auto simp: tg_def less_fin abs_if)
  then have r: "roomy tg" using assms(5) by (simp add: roomy_def pos_def)
  have opp: "opposite side = (if 0 < pos then Bid else Ask)" by (simp add: side_def opposite_def)
  have ne: "depth cap (opposite side) MAX_BOOK_WALK b \<noteq> []"
  proof -
    have "depth cap sd (depth_levels (params st)) b \<noteq> []" for sd
      using assms(3) by (cases sd) (auto simp: observe_def Let_def split: if_splits)
    moreover have "depth_levels (params st) \<le> MAX_BOOK_WALK" using assms(2) by (simp add: strat_inv_def MAX_DEPTH_def MAX_BOOK_WALK_def)
    ultimately show ?thesis using bk.walk_prefix[OF assms(1)] by (metis take_Nil)
  qed
  define ord where "ord = computeOrder oor cap b (tick_size st) side tg"
  have w: "walk_roomy (tick_size st) (depth cap (opposite side) MAX_BOOK_WALK b)" using walk by (simp add: opp pos_def)
  note c = computeOrder_sized(3,6,7)[OF w ne r, of oor, folded ord_def]
  have a: "isActionable ord" using c(1) by (simp add: isActionable_def)
  have "onMarketUpdate oor cap b now st = emit ord now s"
    using assms(3,4,6) decide_holding[OF nf, of oor cap b x y now]
    by (simp add: onMarketUpdate_eq s_def[symmetric] ord_def tg_def side_def pos_def[symmetric]) (simp add: s_def pos_def)
  then have sg: "sg = ord\<lparr>s_ts := now\<rparr>" using a by (simp add: sg_def emit_def)
  have of: "offer = sum_list (map (\<lambda>l. dval (size_of l)) (depth cap (opposite side) MAX_BOOK_WALK b))"
    by (simp add: offer_def opp pos_def)
  note e = computeOrder_enough[OF w ne r, of oor, folded ord_def of]
  have "0 \<le> offer" using walkable_sizes[OF walk_roomy_walkable[OF w]] by (auto simp: of less_imp_le intro!: sum_list_nonneg)
  then have "offer * ee ^ 32 \<le> offer * (1 + 1 / 2 ^ 46)" using ee_power_small(1) by (intro mult_left_mono)
  moreover have "dval (qvalue (s_qty ord)) * ee ^ 32 \<le> dval (qvalue (s_qty ord)) * (1 + 1 / 2 ^ 46)"
    using normal_pos[OF c(2)] ee_power_small(1) by (intro mult_left_mono) simp_all
  ultimately have "min (dval \<bar>pos\<bar>) offer \<le> dval (qvalue (s_qty sg)) * (1 + 1 / 2 ^ 46)" "dval (qvalue (s_qty sg)) \<le> offer * (1 + 1 / 2 ^ 46)"
    using e tg(1) by (simp_all add: sg)
  then show ?thesis using c tg sg by (simp add: side_def pos_def[symmetric])
qed

text \<open>The times at which a run emits signals.\<close>

fun emissions :: "(double \<Rightarrow> int) \<Rightarrow> nat \<Rightarrow> strategy_call list \<Rightarrow> strategy \<Rightarrow> Timestamp list" where
  "emissions oor cap [] st = []"
| "emissions oor cap (c # cs) st =
     (case c of Update b now \<Rightarrow> if isActionable (fst (onMarketUpdate oor cap b now st)) then [now] else [] | _ \<Rightarrow> []) @
     emissions oor cap cs (strategy_step oor cap c st)"

lemma emit_quiet: "\<not> isActionable (fst (emit s now st)) \<Longrightarrow> emit s now st = (signal_none, st)"
  by (auto simp: emit_def isActionable_def split: if_splits)

lemma decide_quiet:
  assumes "\<not> isActionable (fst (decide oor cap b x y now st))" shows "snd (decide oor cap b x y now st) = st"
proof (cases "flat (strat_state st)")
  case True
  show ?thesis using assms unfolding decide_flat[OF True] by (auto simp: Let_def emit_quiet split: if_splits)
next
  case False
  show ?thesis using assms unfolding decide_holding[OF False] by (auto simp: emit_quiet split: if_splits)
qed

lemma update_last_trade:
  "last_trade_ns (snd (onMarketUpdate oor cap b now st)) =
     (if isActionable (fst (onMarketUpdate oor cap b now st)) then now else last_trade_ns st)"
proof (cases "isActionable (fst (onMarketUpdate oor cap b now st))")
  case True
  then obtain x y v where u: "onMarketUpdate oor cap b now st = decide oor cap b x y now (push_imbalance v st)" by (rule update_signal)
  then show ?thesis using decide_guards(3) True by simp
next
  case False
  have "last_trade_ns (snd (onMarketUpdate oor cap b now st)) = last_trade_ns st"
    using False decide_quiet by (auto simp: onMarketUpdate_eq Let_def split: option.split if_splits)
  then show ?thesis using False by simp
qed

lemma run_last_trade: "last_trade_ns (strategy_run oor cap cs st) = last (last_trade_ns st # emissions oor cap cs st)"
proof (induction cs arbitrary: st)
  case (Cons c cs)
  then show ?case
    by (cases c) (simp_all add: update_last_trade strat_onFill_def onReconnect_def)
qed simp

lemma rel_upper: "\<bar>r - q\<bar> \<le> q / 2 ^ 53 \<Longrightarrow> 0 \<le> q \<Longrightarrow> r \<le> q * (1 + 1 / 2 ^ 52)" for q r :: rat
  using abs_le_D1[of "r - q" "q / 2 ^ 53"] by (simp add: field_simps)

lemma elapsed_real:
  assumes "\<not> elapsed now st < c" "is_fin c" "0 \<le> now - last_trade_ns st" "now - last_trade_ns st \<le> 2 ^ 53"
  shows "dval c * 10 ^ 9 \<le> of_int (now - last_trade_ns st) * (1 + 1 / 2 ^ 52)"
proof -
  define d where "d = now - last_trade_ns st"
  have w: "wrap64 d = d" using assms(3,4) by (intro wrap64_id) (simp add: in_i64_def d_def)
  have r: "rep (of_int d)" "rep (10 ^ 9)" using rep_of_int[of d] rep_of_int[of "10 ^ 9"] assms(3,4) by (simp_all add: d_def)
  have q: "0 \<le> of_int d / (10 :: rat) ^ 9" "of_int d / (10 :: rat) ^ 9 \<le> of_int (2 ^ 53)"
  proof -
    show "0 \<le> of_int d / (10 :: rat) ^ 9" using assms(3) by (simp add: d_def)
    have "of_int d \<le> (of_int (2 ^ 53) :: rat)" using assms(4) unfolding of_int_le_iff d_def .
    then show "of_int d / (10 :: rat) ^ 9 \<le> of_int (2 ^ 53)" by simp
  qed
  have e: "is_fin (elapsed now st)" "dval (elapsed now st) = rnd (of_int d / 10 ^ 9)"
    using divide_bound[OF is_fin_rep[OF r(1)] is_fin_rep[OF r(2)], of "of_int (2 ^ 53)"] q r rep_of_int[of "2 ^ 53"]
    by (simp_all add: elapsed_def w[unfolded d_def] d_def)
  have "dval c \<le> rnd (of_int d / 10 ^ 9)" using assms(1,2) e by (simp add: less_fin not_less)
  also have "\<dots> \<le> of_int d / 10 ^ 9 * (1 + 1 / 2 ^ 52)"
  proof (cases "d = 0")
    case False
    then have "(1 :: rat) \<le> of_int d" using assms(3) by (simp add: d_def)
    have "p2 (- 1022) \<le> p2 (- 30)" by (rule p2_mono) simp
    also have "\<dots> \<le> of_int d / 10 ^ 9" using \<open>1 \<le> of_int d\<close> by (simp add: power_int_minus field_simps)
    finally have "\<bar>rnd (of_int d / 10 ^ 9) - of_int d / 10 ^ 9\<bar> \<le> \<bar>of_int d / 10 ^ 9\<bar> / 2 ^ 53"
      using q(1) by (intro rnd_error_rel) (simp only: abs_of_nonneg)
    then show ?thesis using q(1) by (intro rel_upper) (simp_all only: abs_of_nonneg)
  qed simp
  finally show ?thesis by (simp add: d_def field_simps)
qed

text \<open>
  C31. The cooldown: when a signal opens a position, the time since the last signal, whatever calls
  came in between, is at least the configured cooldown, up to the rounding of a division.
\<close>

theorem strategy_cooldown:
  fixes oor :: "double \<Rightarrow> int" and cap :: nat and cs :: "strategy_call list" and st :: strategy
  defines "s \<equiv> strategy_run oor cap cs st" and "t \<equiv> last (last_trade_ns st # emissions oor cap cs st)"
  assumes act: "isActionable (fst (onMarketUpdate oor cap b now s))" and fl: "flat (strat_state s)"
    and rng: "0 \<le> now - t" "now - t \<le> 2 ^ 53" and fin: "is_fin (cooldown_s (params st))"
  shows "dval (cooldown_s (params st)) * 10 ^ 9 \<le> of_int (now - t) * (1 + 1 / 2 ^ 52)"
proof -
  obtain x y v where u: "onMarketUpdate oor cap b now s = decide oor cap b x y now (push_imbalance v s)" by (rule update_signal[OF act])
  have "entry_ok now x y (s_action (fst (decide oor cap b x y now (push_imbalance v s)))) (push_imbalance v s)"
    using decide_guards(1)[OF act[unfolded u]] fl by simp
  then have "\<not> elapsed now s < cooldown_s (params st)"
    using run_setup[of oor cap cs st] by (simp add: entry_ok_def elapsed_def s_def same_setup_def)
  moreover have "last_trade_ns s = t" by (simp add: s_def t_def run_last_trade)
  ultimately show ?thesis using elapsed_real[of now s, OF _ fin] rng by simp
qed

text \<open>
  C32. After a reconnect the strategy is silent until it has seen a usable book: neither the calls
  up to the first usable update nor that update emit a signal, and afterwards the ring holds the
  imbalance of that update only.
\<close>

theorem strategy_reconnect_silent:
  fixes oor :: "double \<Rightarrow> int" and cap :: nat and cs :: "strategy_call list" and st :: strategy
  defines "s \<equiv> strategy_run oor cap (Reconnect # cs) st"
  assumes inv: "strat_inv st"
    and cs: "\<forall>c \<in> set cs. case c of Update b' now' \<Rightarrow> observe cap b' st = None | _ \<Rightarrow> True"
    and obs: "observe cap b st = Some (x, y, v)"
  shows "emissions oor cap (Reconnect # cs) st = [] \<and> fst (onMarketUpdate oor cap b now s) = signal_none \<and>
    recent (snd (onMarketUpdate oor cap b now s)) = [v] \<and> \<not> skip_next_signal (snd (onMarketUpdate oor cap b now s))"
proof -
  have k: "emissions oor cap cs a = [] \<and> skip_next_signal (strategy_run oor cap cs a) \<and> recent (strategy_run oor cap cs a) = []"
    if "same_setup a st" "skip_next_signal a" "recent a = []" for a using that cs
  proof (induction cs arbitrary: a)
    case (Cons c cs)
    have "same_setup (strategy_step oor cap c a) st" using step_setup[of oor cap c a] Cons.prems(1) by (simp add: same_setup_def)
    moreover have "(case c of Update b now \<Rightarrow> onMarketUpdate oor cap b now a = (signal_none, a) | _ \<Rightarrow> True)"
      using Cons.prems(4) observe_cong[OF Cons.prems(1)] by (cases c) (auto simp: onMarketUpdate_eq)
    moreover have "skip_next_signal (strat_onFill r a)" "skip_next_signal (onReconnect a)" for r
      using Cons.prems(2) by (simp_all add: strat_onFill_def onReconnect_def)
    ultimately show ?case using Cons.IH[of "strategy_step oor cap c a"] Cons.prems(2,3,4) by (cases c) auto
  qed simp
  have a: "same_setup (onReconnect st) st" "skip_next_signal (onReconnect st)" by (simp_all add: same_setup_def onReconnect_def)
  note k = k[OF a, simplified]
  have s: "skip_next_signal s" "recent s = []" "same_setup s st" "strat_inv s"
    using k run_setup[of oor cap "Reconnect # cs" st] strat_run_inv[OF strat_inv_ops(4)[OF inv]] by (simp_all add: s_def)
  have "fst (onMarketUpdate oor cap b now s) = signal_none \<and> snd (onMarketUpdate oor cap b now s) = (push_imbalance v s)\<lparr>skip_next_signal := False\<rparr>"
    using s(1) obs observe_cong[OF s(3)] by (simp add: onMarketUpdate_eq Let_def)
  moreover have "recent (push_imbalance v s) = [v]"
    using recent_push[OF s(4), of v] s(2,4) by (simp add: last_n_def strat_inv_def)
  ultimately show ?thesis using k by simp
qed

text \<open>A sample: one unit bid at 971 and three offered at 1009, seen by a strategy with cash 990.\<close>

definition lean_book :: book where
  "lean_book = update 64 Ask (Price 1009) (Qty (dbl 3)) (update 64 Bid (Price 971) (Qty 1) (seedReference (Price 990) (new_book 64)))"

definition sample_params :: StrategyParams where
  "sample_params = default_params\<lparr>max_spread_bps := d_inf False, entry_imbalance := dbl (1 / 4), trade_fraction := 1\<rparr>"

definition sample_strategy :: strategy where
  "sample_strategy = setInitialCash (dbl 990) (setSymbol 0 1 (new_strategy sample_params))"

lemma lean_ok: "book_ok 64 lean_book"
  unfolding lean_book_def by (intro book_ok_update book_ok_seed book_ok_new book_cap_64) (simp_all add: tick_bound_def)

lemma lean_depth:
  assumes "n = 5 \<or> n = 32"
  shows "depth 64 Bid n lean_book = [\<lparr>pl_price = Price 971, pl_qty = Qty 1\<rparr>] \<and> depth 64 Ask n lean_book = [\<lparr>pl_price = Price 1009, pl_qty = Qty (dbl 3)\<rparr>]"
proof -
  have "depth 64 Bid 32 lean_book = [\<lparr>pl_price = Price 971, pl_qty = Qty 1\<rparr>]"
    "depth 64 Ask 32 lean_book = [\<lparr>pl_price = Price 1009, pl_qty = Qty (dbl 3)\<rparr>]" by code_simp+
  then show ?thesis using assms bk.walk_prefix[OF lean_ok, of n 32] by auto
qed

lemma inf_top: "\<not> d_inf False < x"
  by (cases "rep_double x") (simp_all add: less_double.rep_eq d_inf.rep_eq)

lemma rep_dyadic [dbl_eval]: "rep (1 / 2)" "rep (1 / 4)"
  using rep_p2[of "- 1"] rep_p2[of "- 2"] by (simp_all add: power_int_minus)

lemmas literal_eval = dbl_eval one_dbl[symmetric] zero_dbl[symmetric]

lemmas sample_strategy_defs = sample_strategy_def sample_params_def setInitialCash_def setSymbol_def new_strategy_def clamp_params_def
  default_params_def MAX_ROLLING_def MAX_DEPTH_def sym_def MAX_SYMBOLS_def

lemma sample_setup [simp]:
  "depth_levels (params sample_strategy) = 5" "smoothing_window (params sample_strategy) = 5" "tick_size sample_strategy = 1"
  "rolling_count sample_strategy = 0" "\<not> skip_next_signal sample_strategy" "last_trade_ns sample_strategy = 0" "rolling_head sample_strategy = 0"
  "rolling sample_strategy = replicate 32 0" "cooldown_s (params sample_strategy) = dbl 2" "allow_short (params sample_strategy)"
  "entry_imbalance (params sample_strategy) = dbl (1 / 4)" "trade_fraction (params sample_strategy) = 1" "max_spread_bps (params sample_strategy) = d_inf False"
  by (simp_all add: sample_strategy_defs)

lemma sample_account: "strat_state sample_strategy = \<lparr>p_cash = dbl 990, p_position = 0, avg_entry = 0, realized = 0\<rparr>"
  by (simp add: sample_strategy_defs strat_state_def pnl_state_def seedCash_def new_pnl_def empty_pnl_def)

lemma sample_inv: "strat_inv sample_strategy"
  unfolding sample_strategy_def by (intro strat_inv_ops strat_inv_new)

lemma tick_one: "\<bar>n\<bar> \<le> 2 ^ 53 \<Longrightarrow> toDouble (Price n) 1 = dbl (of_int n)"
  using rep_of_int[of n] dbl_mult[of "of_int n" 1] by (simp add: toDouble_def)

lemma sample_observe: "observe 64 lean_book sample_strategy = Some (dbl 971, dbl 1009, dbl (- (1 / 2)))"
proof -
  have s: "sizes_sum [\<lparr>pl_price = Price 971, pl_qty = Qty 1\<rparr>] = dbl 1" "sizes_sum [\<lparr>pl_price = Price 1009, pl_qty = Qty (dbl 3)\<rparr>] = dbl 3"
    by (simp_all add: sizes_sum_def literal_eval del: one_dbl zero_dbl dbl_0)
  have p: "toDouble (Price 971) 1 = dbl 971" "toDouble (Price 1009) 1 = dbl 1009" by (simp_all add: tick_one)
  show ?thesis using lean_depth[of 5] p by (simp add: observe_def s Let_def dbl_eval del: one_dbl zero_dbl dbl_0)
qed

lemma lean_modest: "modest_sizes 64 lean_book"
proof -
  have "rep big" using rep_big_multiple[of 1] by simp
  moreover have "3 \<le> big" using p2_mono[of 2 400] by (simp add: big_def)
  ultimately show ?thesis using lean_depth[of 32] by (simp add: modest_sizes_def MAX_DEPTH_def size_of_def literal_eval del: one_dbl zero_dbl)
qed

theorem strategy_ring_refines_witness:
  "recent (strategy_run (\<lambda>_. 0) 64 [Update lean_book 5] sample_strategy) = [dbl (- (1 / 2))]"
proof -
  have "fold (heard 64 sample_strategy) [Update lean_book 5] [] = [dbl (- (1 / 2))]" by (simp add: sample_observe)
  then show ?thesis
    using strategy_ring_refines[OF sample_inv, of "[Update lean_book 5]" 64 "\<lambda>_. 0"] lean_ok lean_modest by (simp add: last_n_def)
qed

lemma sample_roomy_bid: "roomy (1 :: double)" "walk_roomy 1 (depth 64 Bid MAX_BOOK_WALK lean_book)" "depth 64 Bid MAX_BOOK_WALK lean_book \<noteq> []"
  using lean_depth[of 32] roomy_small[of 1] px_ok_unit[of 971] by (simp_all add: walk_roomy_def MAX_BOOK_WALK_def size_of_def)

lemma sample_emits:
  assumes "same_setup st sample_strategy" "strat_state st = strat_state sample_strategy" "smoothed st = dbl (- (1 / 2))"
    "\<not> elapsed now st < dbl 2"
  shows "decide (\<lambda>_. 0) 64 lean_book (dbl 971) (dbl 1009) now st = emit (computeOrder (\<lambda>_. 0) 64 lean_book 1 Ask 1) now st"
    "s_action (computeOrder (\<lambda>_. 0) 64 lean_book 1 Ask 1) = Sell"
proof -
  have s: "strat_state st = \<lparr>p_cash = dbl 990, p_position = 0, avg_entry = 0, realized = 0\<rparr>" by (simp add: assms(2) sample_account)
  have pr: "params st = params sample_strategy" "tick_size st = 1" using assms(1) by (simp_all add: same_setup_def)
  have f: "flat (strat_state st)" by (simp add: s flat_def)
  show "s_action (computeOrder (\<lambda>_. 0) 64 lean_book 1 Ask 1) = Sell"
    using computeOrder_sized(3)[of 1 64 Ask lean_book 1 "\<lambda>_. 0"] sample_roomy_bid by (simp add: opposite_def)
  show "decide (\<lambda>_. 0) 64 lean_book (dbl 971) (dbl 1009) now st = emit (computeOrder (\<lambda>_. 0) 64 lean_book 1 Ask 1) now st"
    unfolding decide_flat[OF f] using assms(4) by (simp add: s assms(3) pr inf_top Let_def literal_eval del: one_dbl zero_dbl dbl_0)
qed

lemma sample_order_value: "computeOrder (\<lambda>_. 0) 64 lean_book 1 Ask 1 = \<lparr>s_action = Sell, s_price = Price 971, s_qty = Qty 1, s_ts = 0\<rparr>"
proof -
  let ?o = "computeOrder (\<lambda>_. 0) 64 lean_book 1 Ask 1"
  have o: "opposite Ask = Bid" by (simp add: opposite_def)
  have "order_takes 64 lean_book Ask 1 = [1]"
    using lean_depth[of 32] by (simp add: order_takes_def o MAX_BOOK_WALK_def Let_def std_min_def size_of_def literal_eval del: one_dbl zero_dbl dbl_0)
  moreover have "0 + 1 = (1 :: double)" by (simp add: literal_eval del: one_dbl zero_dbl dbl_0)
  ultimately have "s_action ?o = Sell" "s_price ?o = Price 971" "qvalue (s_qty ?o) = 1"
    using computeOrder_sized(3,4,5)[of 1 64 Ask lean_book 1 "\<lambda>_. 0", unfolded o, OF sample_roomy_bid(2,3,1)] lean_depth[of 32]
    by (simp_all add: MAX_BOOK_WALK_def)
  moreover have "s_ts ?o = 0" by (simp add: computeOrder_def Let_def signal_none_def split: prod.split)
  ultimately show ?thesis by (cases "s_qty ?o") (simp add: Signal.equality)
qed

lemma sample_signal:
  "s_action (fst (onMarketUpdate (\<lambda>_. 0) 64 lean_book 3000000000 sample_strategy)) = Sell"
  "snd (onMarketUpdate (\<lambda>_. 0) 64 lean_book 3000000000 sample_strategy) =
     (push_imbalance (dbl (- (1 / 2))) sample_strategy)\<lparr>last_trade_ns := 3000000000\<rparr>"
  "fst (onMarketUpdate (\<lambda>_. 0) 64 lean_book 3000000000 sample_strategy) = \<lparr>s_action = Sell, s_price = Price 971, s_qty = Qty 1, s_ts = 3000000000\<rparr>"
proof -
  define st where "st = push_imbalance (dbl (- (1 / 2))) sample_strategy"
  have "take 1 ((replicate 32 (0 :: double))[0 := x]) = [x]" for x by (simp add: numeral_eq_Suc)
  then have "smoothed st = (0 + dbl (- (1 / 2))) / dbl 1" by (simp add: st_def smoothed_def push_imbalance_def)
  then have sm: "smoothed st = dbl (- (1 / 2))" by (simp add: literal_eval del: one_dbl zero_dbl dbl_0)
  have el: "\<not> elapsed (3000000000) st < dbl 2"
    using wrap64_id[of "3000000000"] by (simp add: elapsed_def st_def in_i64_def dbl_eval)
  have "same_setup st sample_strategy" "strat_state st = strat_state sample_strategy" by (simp_all add: st_def same_setup_def)
  note d = sample_emits[OF this sm el]
  show "s_action (fst (onMarketUpdate (\<lambda>_. 0) 64 lean_book 3000000000 sample_strategy)) = Sell"
    "snd (onMarketUpdate (\<lambda>_. 0) 64 lean_book 3000000000 sample_strategy) =
       (push_imbalance (dbl (- (1 / 2))) sample_strategy)\<lparr>last_trade_ns := 3000000000\<rparr>"
    "fst (onMarketUpdate (\<lambda>_. 0) 64 lean_book 3000000000 sample_strategy) = \<lparr>s_action = Sell, s_price = Price 971, s_qty = Qty 1, s_ts = 3000000000\<rparr>"
    using sample_observe d by (simp_all add: onMarketUpdate_eq st_def[symmetric] emit_def isActionable_def sample_order_value)
qed

text \<open>A second signal, three seconds after the first.\<close>

lemma sample_second:
  defines "s1 \<equiv> strategy_run (\<lambda>_. 0) 64 [Update lean_book 3000000000] sample_strategy"
  shows "isActionable (fst (onMarketUpdate (\<lambda>_. 0) 64 lean_book 6000000000 s1))" "flat (strat_state s1)"
proof -
  define st where "st = push_imbalance (dbl (- (1 / 2))) s1"
  have s1: "s1 = (push_imbalance (dbl (- (1 / 2))) sample_strategy)\<lparr>last_trade_ns := 3000000000\<rparr>"
    by (simp add: s1_def sample_signal(2))
  have "take (Suc (Suc 0)) ((replicate 32 (0 :: double))[0 := x, Suc 0 := x]) = [x, x]" for x by (simp add: numeral_eq_Suc)
  then have "smoothed st = (0 + dbl (- (1 / 2)) + dbl (- (1 / 2))) / dbl 2" by (simp add: st_def s1 smoothed_def push_imbalance_def)
  then have sm: "smoothed st = dbl (- (1 / 2))" by (simp add: literal_eval del: one_dbl zero_dbl dbl_0)
  have el: "\<not> elapsed (6000000000) st < dbl 2"
    using wrap64_id[of "3000000000"] by (simp add: elapsed_def st_def s1 in_i64_def dbl_eval)
  have su: "same_setup s1 sample_strategy" "strat_state s1 = strat_state sample_strategy" "\<not> skip_next_signal s1"
    by (simp_all add: s1 same_setup_def) (simp add: strat_state_def)
  then have "same_setup st sample_strategy" "strat_state st = strat_state sample_strategy" by (simp_all add: st_def same_setup_def)
  note d = sample_emits[OF this sm el]
  have "observe 64 lean_book s1 = Some (dbl 971, dbl 1009, dbl (- (1 / 2)))" using sample_observe observe_cong[OF su(1)] by simp
  then show "isActionable (fst (onMarketUpdate (\<lambda>_. 0) 64 lean_book 6000000000 s1))"
    using d su(3) by (simp add: onMarketUpdate_eq st_def[symmetric] emit_def isActionable_def)
  show "flat (strat_state s1)" by (simp add: su(2) sample_account flat_def)
qed

theorem strategy_signal_guards_witness:
  "\<exists>x y v. observe 64 lean_book sample_strategy = Some (x, y, v) \<and> entry_ok (3000000000) x y Sell (push_imbalance v sample_strategy)"
  using strategy_signal_guards[of "\<lambda>_. 0" 64 lean_book "3000000000" sample_strategy]
  by (auto simp: sample_signal(1) sample_account isActionable_def flat_def)

theorem strategy_cooldown_witness:
  "emissions (\<lambda>_. 0) 64 [Update lean_book 3000000000] sample_strategy = [3000000000] \<and>
   isActionable (fst (onMarketUpdate (\<lambda>_. 0) 64 lean_book 6000000000 (strategy_run (\<lambda>_. 0) 64 [Update lean_book 3000000000] sample_strategy))) \<and>
   dval (cooldown_s (params sample_strategy)) * 10 ^ 9 \<le>
     of_int (6000000000 - last (last_trade_ns sample_strategy # emissions (\<lambda>_. 0) 64 [Update lean_book 3000000000] sample_strategy)) * (1 + 1 / 2 ^ 52)"
proof -
  have e: "emissions (\<lambda>_. 0) 64 [Update lean_book 3000000000] sample_strategy = [3000000000]"
    by (simp add: sample_signal(1) isActionable_def)
  show ?thesis
    using strategy_cooldown[of "\<lambda>_. 0" 64 lean_book "6000000000" "[Update lean_book 3000000000]" sample_strategy] e sample_second
    by simp
qed

theorem strategy_reconnect_silent_witness:
  "fst (onMarketUpdate (\<lambda>_. 0) 64 lean_book (3000000000)
     (strategy_run (\<lambda>_. 0) 64 [Reconnect, Update (new_book 64) 7] sample_strategy)) = signal_none"
proof -
  have "observe 64 (new_book 64) sample_strategy = None" by code_simp
  then show ?thesis
    using strategy_reconnect_silent[OF sample_inv, of "[Update (new_book 64) 7]" 64 lean_book "dbl 971" "dbl 1009" "dbl (- (1 / 2))" "\<lambda>_. 0"]
    by (simp add: sample_observe)
qed

definition sample_long :: strategy where
  "sample_long = sample_strategy\<lparr>pnl := new_pnl[0 := \<lparr>p_cash = 0, p_position = 1, avg_entry = dbl 1942, realized = 0\<rparr>]\<rparr>"

theorem strategy_exit_emitted_witness:
  "s_action (fst (onMarketUpdate (\<lambda>_. 0) 64 lean_book 5 sample_long)) = Sell \<and>
   1 \<le> dval (qvalue (s_qty (fst (onMarketUpdate (\<lambda>_. 0) 64 lean_book 5 sample_long)))) * (1 + 1 / 2 ^ 46)"
proof -
  have a: "strat_state sample_long = \<lparr>p_cash = 0, p_position = 1, avg_entry = dbl 1942, realized = 0\<rparr>"
    by (simp add: sample_long_def sample_strategy_defs strat_state_def pnl_state_def new_pnl_def)
  have l: "strat_inv sample_long" using sample_inv by (simp add: sample_long_def strat_inv_def new_pnl_def)
  have p: "tick_size sample_long = 1" "\<not> skip_next_signal sample_long" "params sample_long = params sample_strategy" by (simp_all add: sample_long_def)
  have o: "observe 64 lean_book sample_long = Some (dbl 971, dbl 1009, dbl (- (1 / 2)))"
    using sample_observe observe_cong[of sample_long sample_strategy] by (simp add: same_setup_def sample_long_def)
  have "take_profit_bps (params sample_strategy) = dbl 8" "stop_loss_bps (params sample_strategy) = dbl 8" by (simp_all add: sample_strategy_defs)
  moreover have "exit_move (dbl 971) (dbl 1009) (strat_state sample_long) = dbl (- 5000)"
    by (simp add: a exit_move_def literal_eval del: one_dbl zero_dbl dbl_0)
  ultimately have e: "exit_due (params sample_long) (exit_move (dbl 971) (dbl 1009) (strat_state sample_long))"
    by (simp add: exit_due_def p dbl_eval)
  have pos: "\<bar>1\<bar> = (1 :: double)" "0 < (1 :: double)" using dbl_abs[of 1] dbl_sign(1)[of 1] by simp_all
  show ?thesis
    using strategy_exit_emitted[OF lean_ok l o p(2), of "\<lambda>_. 0" 5] e sample_roomy_bid(1,2) a p pos lean_depth[of 32]
    by (simp add: MAX_BOOK_WALK_def size_of_def)
qed

end
