(* ===== verification/Runtime.thy ===== *)
theory Runtime
  imports Market_Events Strategy_Behaviour Risk_Manager Circuit_Breaker
begin

text \<open>
  The runtime (\<^verbatim>\<open>include/trading/core/runtime.hpp\<close>, \<^verbatim>\<open>src/core/runtime.cpp\<close>): it owns the book, the
  strategy, the risk manager, the breaker and the queue; the strategy thread pops market events,
  updates the book, asks the strategy for a signal and sends an order through breaker, risk check
  and fill simulator. The readings of the clock that an event makes are the argument \<open>clk\<close>.
\<close>

section \<open>State\<close>

record CoinbaseWSConfig =
  ws_host :: string
  ws_port :: string
  ws_channel :: string
  ws_product_ids :: "string list"
  heartbeatTimeout_s :: int
  backoffInitial_ms :: int
  backoffMax_ms :: int
  ws_coreId :: int

definition default_ws :: CoinbaseWSConfig where
  "default_ws = \<lparr>ws_host = ''ws-feed.exchange.coinbase.com'', ws_port = ''443'', ws_channel = ''level2_batch'', ws_product_ids = [],
     heartbeatTimeout_s = 30, backoffInitial_ms = 1000, backoffMax_ms = 30000, ws_coreId = - 1\<rparr>"

record RuntimeConfig =
  c_product_id :: string
  c_symbolId :: SymbolId
  c_tick_size :: double
  c_max_position :: double
  c_initial_cash :: double
  c_strategy :: StrategyParams
  networkCoreId :: int
  strategyCoreId :: int
  strategyBusySpin :: bool
  strategySleepUs :: int
  circuitErrorThreshold :: u64
  circuitWindowMsgs :: u64
  c_ws :: CoinbaseWSConfig

definition default_config :: RuntimeConfig where
  "default_config = \<lparr>c_product_id = ''BTC-USD'', c_symbolId = 0, c_tick_size = dbl (1 / 100), c_max_position = dbl 5,
     c_initial_cash = dbl 10000, c_strategy = default_params, networkCoreId = - 1, strategyCoreId = - 1, strategyBusySpin = False,
     strategySleepUs = 50, circuitErrorThreshold = 20, circuitWindowMsgs = 500, c_ws = default_ws\<rparr>"

record runtime =
  cfg :: RuntimeConfig
  metrics :: Metrics
  rt_book :: book
  strat :: strategy
  risk_mgr :: risk
  brk :: breaker
  queue :: "MarketEvent spsc"
  started :: bool
  running :: bool
  bookInvalidate :: bool
  bookReady :: bool
  markBid :: double
  markAsk :: double
  pnlCash :: double
  pnlPosition :: double
  pnlAvgEntry :: double
  pnlRealized :: double
  nextOrderId :: OrderId

definition publishPnl :: "runtime \<Rightarrow> runtime" where
  "publishPnl rt = rt\<lparr>pnlCash := strat_cash (strat rt), pnlPosition := strat_position (strat rt),
     pnlAvgEntry := strat_avgEntry (strat rt), pnlRealized := strat_realized (strat rt)\<rparr>"

definition new_runtime :: "nat \<Rightarrow> nat \<Rightarrow> RuntimeConfig \<Rightarrow> runtime" where
  "new_runtime cap qcap c =
     publishPnl \<lparr>cfg = c\<lparr>c_ws := (c_ws c)\<lparr>ws_product_ids := [c_product_id c], ws_coreId := networkCoreId c\<rparr>\<rparr>,
       metrics = new_metrics, rt_book = new_book cap,
       strat = setInitialCash (c_initial_cash c) (setSymbol (c_symbolId c) (c_tick_size c) (new_strategy (c_strategy c))),
       risk_mgr = configure (c_symbolId c) (c_max_position c) (c_initial_cash c) (c_tick_size c) new_risk,
       brk = new_breaker (circuitErrorThreshold c) (circuitWindowMsgs c), queue = spsc_new qcap new_event,
       started = False, running = False, bookInvalidate = False, bookReady = False, markBid = 0, markAsk = 0,
       pnlCash = 0, pnlPosition = 0, pnlAvgEntry = 0, pnlRealized = 0, nextOrderId = 1\<rparr>"

definition pnlUnrealized :: "runtime \<Rightarrow> double" where
  "pnlUnrealized rt = (let pos = pnlPosition rt in
     if feq pos 0 then 0
     else let mark = (if 0 < pos then markBid rt else markAsk rt) in
       if mark \<le> 0 then 0 else pos * (mark - pnlAvgEntry rt))"

section \<open>The strategy thread\<close>

text \<open>What \<^verbatim>\<open>Clock::now\<close> returns while one event is processed, in the order of the calls.\<close>

record clock_readings =
  bookStart :: Timestamp
  bookDone :: Timestamp
  signalDone :: Timestamp
  orderDone :: Timestamp
  simulatedAt :: Timestamp
  fillDone :: Timestamp

definition sub_ns :: "Timestamp \<Rightarrow> Timestamp \<Rightarrow> int" where
  "sub_ns a b = wrap64 (a - b)"

definition PARTIAL_EPS :: double where
  "PARTIAL_EPS = dbl (1 / 10 ^ 12)"

definition dispatchOrder :: "(double \<Rightarrow> int) \<Rightarrow> nat \<Rightarrow> clock_readings \<Rightarrow> Signal \<Rightarrow> runtime \<Rightarrow> runtime" where
  "dispatchOrder oor cap clk sg rt =
     (let now = signalDone clk;
          ord = \<lparr>o_id = nextOrderId rt, o_symbolId = c_symbolId (cfg rt), o_side = (if s_action sg = Buy then Bid else Ask),
                 o_price = s_price sg, o_qty = s_qty sg, o_createdNs = now\<rparr>;
          m = metrics rt;
          rt0 = rt\<lparr>nextOrderId := nextOrderId rt + 1, metrics := m\<lparr>ordersSent := ordersSent m + 1\<rparr>\<rparr>;
          m0 = metrics rt0 in
      if isTripped (brk rt0) then rt0\<lparr>metrics := m0\<lparr>circuitBlocked := circuitBlocked m0 + 1\<rparr>\<rparr>
      else if \<not> approve ord (risk_mgr rt0) then
        rt0\<lparr>metrics := m0\<lparr>ordersRejected := ordersRejected m0 + 1\<rparr>, brk := recordError (brk rt0)\<rparr>
      else
        let rpt = simulate oor cap ord (rt_book rt0) (c_tick_size (cfg rt0)) (simulatedAt clk);
            m1 = m0\<lparr>ordersApproved := ordersApproved m0 + 1,
                    signalToOrder := recordNs (sub_ns (orderDone clk) now) (signalToOrder m0),
                    orderToFill := recordNs (sub_ns (fillDone clk) (orderDone clk)) (orderToFill m0)\<rparr> in
        if \<not> r_isFill rpt then rt0\<lparr>metrics := m1\<rparr>
        else
          let m2 = m1\<lparr>fillCount := fillCount m1 + 1,
                      partialFills := (if qvalue (r_execQty rpt) < qvalue (o_qty ord) - PARTIAL_EPS
                                       then partialFills m1 + 1 else partialFills m1)\<rparr>
          in publishPnl (rt0\<lparr>metrics := m2, risk_mgr := Risk_Manager.onFill rpt (risk_mgr rt0),
                             strat := strat_onFill rpt (strat rt0)\<rparr>))"

definition INT64_MIN :: int where "INT64_MIN = - (2 ^ 63)"

definition INT64_MAX :: int where "INT64_MAX = 2 ^ 63 - 1"

definition apply_snapshot :: "nat \<Rightarrow> PriceLevel list \<Rightarrow> PriceLevel list \<Rightarrow> book \<Rightarrow> book" where
  "apply_snapshot cap bs as b =
     (let b0 = clear cap b;
          bestBid = fold (\<lambda>l m. if 0 < qvalue (pl_qty l) then max m (ticks (pl_price l)) else m) bs INT64_MIN;
          bestAsk = fold (\<lambda>l m. if 0 < qvalue (pl_qty l) then min m (ticks (pl_price l)) else m) as INT64_MAX;
          b1 = (if bestBid \<noteq> INT64_MIN \<and> bestAsk \<noteq> INT64_MAX
                then seedReference (fromTicks (wrap64 (bestBid + wrap64 (bestAsk - bestBid) sdiv 2))) b0 else b0);
          b2 = fold (\<lambda>l. update cap Bid (pl_price l) (pl_qty l)) bs b1
      in fold (\<lambda>l. update cap Ask (pl_price l) (pl_qty l)) as b2)"

definition apply_changes :: "(double \<Rightarrow> int) \<Rightarrow> nat \<Rightarrow> double \<Rightarrow> CoinbaseChange list \<Rightarrow> book \<Rightarrow> book" where
  "apply_changes oor cap tick cs b =
     fold (\<lambda>c. update cap (ch_side c) (fromDouble oor (ch_price c) tick) (Qty (ch_qty c))) cs b"

text \<open>The part of \<^verbatim>\<open>processEvent\<close> after the switch.\<close>

definition after_book :: "(double \<Rightarrow> int) \<Rightarrow> nat \<Rightarrow> clock_readings \<Rightarrow> Timestamp \<Rightarrow> runtime \<Rightarrow> runtime" where
  "after_book oor cap clk recv rt =
     (let k = c_tick_size (cfg rt); m = metrics rt;
          rt1 = rt\<lparr>metrics := m\<lparr>parseToBook := recordNs (sub_ns (bookDone clk) (bookStart clk)) (parseToBook m)\<rparr>,
                   markBid := (case topOfBook cap Bid (rt_book rt) of Some l \<Rightarrow> toDouble (pl_price l) k | None \<Rightarrow> markBid rt),
                   markAsk := (case topOfBook cap Ask (rt_book rt) of Some l \<Rightarrow> toDouble (pl_price l) k | None \<Rightarrow> markAsk rt)\<rparr>;
          (sg, st) = onMarketUpdate oor cap (rt_book rt1) (bookDone clk) (strat rt1);
          m1 = metrics rt1;
          rt2 = rt1\<lparr>strat := st,
                    metrics := m1\<lparr>bookToSignal := recordNs (sub_ns (signalDone clk) (bookDone clk)) (bookToSignal m1),
                                  tickToSignal := recordNs (sub_ns (signalDone clk) recv) (tickToSignal m1)\<rparr>\<rparr>;
          m2 = metrics rt2
      in if isActionable sg
         then dispatchOrder oor cap clk sg (rt2\<lparr>metrics := m2\<lparr>signalsGenerated := signalsGenerated m2 + 1\<rparr>\<rparr>)
         else rt2)"

definition processEvent :: "(double \<Rightarrow> int) \<Rightarrow> nat \<Rightarrow> clock_readings \<Rightarrow> MarketEvent \<Rightarrow> runtime \<Rightarrow> runtime" where
  "processEvent oor cap clk ev rt =
     (let rt0 = rt\<lparr>brk := recordMessage (brk rt)\<rparr> in
      case body ev of
        Snapshot bs as \<Rightarrow>
          after_book oor cap clk (recvNs ev) (rt0\<lparr>rt_book := apply_snapshot cap bs as (rt_book rt0), bookReady := True\<rparr>)
      | L2Update cs \<Rightarrow>
          if \<not> bookReady rt0
          then rt0\<lparr>metrics := (metrics rt0)\<lparr>preSnapshotDrops := preSnapshotDrops (metrics rt0) + 1\<rparr>\<rparr>
          else after_book oor cap clk (recvNs ev) (rt0\<lparr>rt_book := apply_changes oor cap (c_tick_size (cfg rt0)) cs (rt_book rt0)\<rparr>)
      | Heartbeat \<Rightarrow> rt0)"

section \<open>Control\<close>

text \<open>
  The two callbacks of the network thread that touch the runtime directly, the effect of starting
  (for the flags; the threads are steps of the next theory) and the two halves of stopping: the
  network thread is stopped first, then the loop.
\<close>

definition parseErrorCallback :: "runtime \<Rightarrow> runtime" where
  "parseErrorCallback r = r\<lparr>metrics := (metrics r)\<lparr>parseErrors := parseErrors (metrics r) + 1\<rparr>\<rparr>"

definition reconnectCallback :: "runtime \<Rightarrow> runtime" where
  "reconnectCallback r = r\<lparr>metrics := (metrics r)\<lparr>reconnects := reconnects (metrics r) + 1\<rparr>, bookInvalidate := True\<rparr>"

definition start_flags :: "runtime \<Rightarrow> runtime" where
  "start_flags r = (if started r then r else r\<lparr>started := True, running := True\<rparr>)"

definition stop_started :: "runtime \<Rightarrow> runtime" where
  "stop_started r = r\<lparr>started := False\<rparr>"

definition stop_running :: "runtime \<Rightarrow> runtime" where
  "stop_running r = r\<lparr>running := False\<rparr>"

text \<open>The body of the \<^verbatim>\<open>if\<close> at the head of the loop.\<close>

definition reset_on_reconnect :: "runtime \<Rightarrow> runtime" where
  "reset_on_reconnect r = r\<lparr>bookInvalidate := False, bookReady := False, strat := onReconnect (strat r)\<rparr>"

end
