(* ===== verification/Transition_Systems.thy ===== *)
theory Transition_Systems
  imports Main
begin

text \<open>
  Contracts of step relations. The threads of the program are modelled as step relations, one step for
  each access to shared state; their properties are invariants of all runs, and the whole engine
  is related to its parts by simulations.
\<close>

section \<open>Invariants\<close>

locale step_invariant =
  fixes step :: "'s \<Rightarrow> 's \<Rightarrow> bool" and inv :: "'s \<Rightarrow> bool"
  assumes step_inv: "step s s' \<Longrightarrow> inv s \<Longrightarrow> inv s'"
begin

lemma run_inv: "step\<^sup>*\<^sup>* s s' \<Longrightarrow> inv s \<Longrightarrow> inv s'"
  by (induction rule: rtranclp_induct) (auto dest: step_inv)

lemma power_inv: "(step ^^ k) s s' \<Longrightarrow> inv s \<Longrightarrow> inv s'"
  by (meson relpowp_imp_rtranclp run_inv)

end

section \<open>Invariants with a measure\<close>

text \<open>
  Where each step also lowers a number, the number bounds the length of every run.
\<close>

locale step_bound = step_invariant step inv for step :: "'s \<Rightarrow> 's \<Rightarrow> bool" and inv :: "'s \<Rightarrow> bool" +
  fixes left :: "'s \<Rightarrow> nat"
  assumes step_left: "step s s' \<Longrightarrow> inv s \<Longrightarrow> left s' < left s"
begin

lemma run_bound: "(step ^^ k) s s' \<Longrightarrow> inv s \<Longrightarrow> inv s' \<and> k + left s' \<le> left s"
proof (induction k arbitrary: s')
  case (Suc k)
  then obtain u where u: "(step ^^ k) s u" "step u s'" by auto
  then have "inv u" "k + left u \<le> left s" using Suc by blast+
  then show ?case using step_inv[OF u(2)] step_left[OF u(2)] by simp
qed simp

end

section \<open>Simulations\<close>

text \<open>A step of the concrete system is matched by any number of steps of the abstract one.\<close>

locale simulation =
  fixes cstep :: "'c \<Rightarrow> 'c \<Rightarrow> bool" and astep :: "'a \<Rightarrow> 'a \<Rightarrow> bool" and view :: "'c \<Rightarrow> 'a" and link :: "'c \<Rightarrow> bool"
  assumes sim_step: "cstep c c' \<Longrightarrow> link c \<Longrightarrow> astep\<^sup>*\<^sup>* (view c) (view c')"
    and link_step: "cstep c c' \<Longrightarrow> link c \<Longrightarrow> link c'"

sublocale simulation \<subseteq> links: step_invariant cstep link
  by unfold_locales (rule link_step)

context simulation
begin

lemma sim_run: "cstep\<^sup>*\<^sup>* c c' \<Longrightarrow> link c \<Longrightarrow> astep\<^sup>*\<^sup>* (view c) (view c')"
proof (induction rule: rtranclp_induct)
  case (step u v)
  then show ?case using sim_step[OF step.hyps(2) links.run_inv[OF step.hyps(1)]] by simp
qed simp

end

end
