(* ===== verification/Runtime_Behaviour.thy ===== *)
theory Runtime_Behaviour
  imports Runtime Transition_Systems
begin

text \<open>
  What the runtime of \<^verbatim>\<open>src/core/runtime.cpp\<close> keeps: the accounting of orders, the published figures,
  the agreement of risk manager and strategy, the book against the feed, the position limit
  through dispatch, and the two threads as a step relation with a race on reconnection.
\<close>

section \<open>The invariant of the runtime\<close>

text \<open>The published figures are those of the strategy.\<close>

definition published :: "runtime \<Rightarrow> bool" where
  "published rt \<longleftrightarrow> (let s = strat_state (strat rt) in
     pnlCash rt = p_cash s \<and> pnlPosition rt = p_position s \<and> pnlAvgEntry rt = avg_entry s \<and> pnlRealized rt = realized s)"

text \<open>Every order is accounted for once; \<open>d\<close> is the number of signals not yet dispatched.\<close>

definition counted :: "runtime \<Rightarrow> u64 \<Rightarrow> bool" where
  "counted rt d \<longleftrightarrow> (let m = metrics rt in
     ordersSent m = circuitBlocked m + ordersRejected m + ordersApproved m \<and>
     signalsGenerated m = ordersSent m + d \<and> nextOrderId rt = ordersSent m + 1)"

text \<open>The cash that the risk manager checks orders against is the cash that the strategy sizes them with.\<close>

definition cash_agrees :: "runtime \<Rightarrow> bool" where
  "cash_agrees rt \<longleftrightarrow> (let c = cfg rt in sym (c_symbolId c) < MAX_SYMBOLS \<and> 0 \<le> c_initial_cash c \<longrightarrow>
     cashEnabled (risk_mgr rt) \<and> rk_tick (risk_mgr rt) = c_tick_size c \<and>
     cash (c_symbolId c) (risk_mgr rt) = p_cash (strat_state (strat rt)))"

definition runtime_inv :: "nat \<Rightarrow> runtime \<Rightarrow> bool" where
  "runtime_inv cap rt \<longleftrightarrow> strat_inv (strat rt) \<and> symbol (strat rt) = c_symbolId (cfg rt) \<and>
     tick_size (strat rt) = c_tick_size (cfg rt) \<and> risk_wf (risk_mgr rt) \<and> book_inv cap (rt_book rt) \<and> published rt \<and> cash_agrees rt"

lemma fill_cash: "p_cash (fill_state px q s) = p_cash s - q * px"
  by (simp add: fill_state_def Let_def)

lemma published_publish [simp]: "published (publishPnl rt)"
  by (simp add: published_def publishPnl_def Let_def)

lemma publish_fields [simp]:
  "cfg (publishPnl rt) = cfg rt" "metrics (publishPnl rt) = metrics rt" "rt_book (publishPnl rt) = rt_book rt"
  "strat (publishPnl rt) = strat rt" "risk_mgr (publishPnl rt) = risk_mgr rt" "brk (publishPnl rt) = brk rt" "queue (publishPnl rt) = queue rt"
  "bookInvalidate (publishPnl rt) = bookInvalidate rt" "bookReady (publishPnl rt) = bookReady rt" "running (publishPnl rt) = running rt"
  "started (publishPnl rt) = started rt" "markBid (publishPnl rt) = markBid rt" "markAsk (publishPnl rt) = markAsk rt" "nextOrderId (publishPnl rt) = nextOrderId rt"
  by (simp_all add: publishPnl_def Let_def)

lemma runtime_inv_new: assumes "book_cap cap" shows "runtime_inv cap (new_runtime cap qcap c)"
proof -
  define st where "st = setInitialCash (c_initial_cash c) (setSymbol (c_symbolId c) (c_tick_size c) (new_strategy (c_strategy c)))"
  have s: "strat (new_runtime cap qcap c) = st" "symbol st = c_symbolId c" "tick_size st = c_tick_size c" "strat_inv st"
    "c_tick_size (cfg (new_runtime cap qcap c)) = c_tick_size c" "c_symbolId (cfg (new_runtime cap qcap c)) = c_symbolId c"
    "c_initial_cash (cfg (new_runtime cap qcap c)) = c_initial_cash c" "rt_book (new_runtime cap qcap c) = new_book cap"
    "risk_mgr (new_runtime cap qcap c) = configure (c_symbolId c) (c_max_position c) (c_initial_cash c) (c_tick_size c) new_risk"
    by (simp_all add: new_runtime_def st_def strat_inv_ops strat_inv_new) (simp_all add: setInitialCash_def setSymbol_def)
  have p: "published (new_runtime cap qcap c)" unfolding new_runtime_def by (rule published_publish)
  have "cash_agrees (new_runtime cap qcap c)" if "sym (c_symbolId c) < MAX_SYMBOLS"
    using that by (simp add: cash_agrees_def s Let_def configure_def cash_def new_risk_def)
      (simp add: st_def setInitialCash_def setSymbol_def strat_state_def pnl_state_def seedCash_def new_pnl_def new_strategy_def)
  then have "cash_agrees (new_runtime cap qcap c)" by (cases "sym (c_symbolId c) < MAX_SYMBOLS") (simp_all add: cash_agrees_def s Let_def)
  then show ?thesis using s p book_inv_new[OF assms] risk_wf_ops by (simp add: runtime_inv_def)
qed

lemma risk_cash_fill:
  assumes "risk_wf k" "cashEnabled k" "r_isFill r" "sym (r_symbolId r) < MAX_SYMBOLS" "length (pnl st) = MAX_SYMBOLS"
    "symbol st = r_symbolId r" "tick_size st = rk_tick k" "cash (r_symbolId r) k = p_cash (strat_state st)"
  shows "cash (r_symbolId r) (Risk_Manager.onFill r k) = p_cash (strat_state (strat_onFill r st))"
proof -
  have "strat_state (strat_onFill r st) = fill_state (toDouble (r_execPrice r) (tick_size st))
      (qvalue (r_execQty r) * side_sign (r_side r)) (strat_state st)"
    using assms(3-6) by (simp add: strat_state_def strat_onFill_def pnl_state_def Pnl_Tracker.onFill_def)
  then show ?thesis using position_onFill(2)[OF assms(1,3,4,2)] assms(7,8) by (simp add: fill_cash)
qed

text \<open>The order of a signal, its report, and whether it is executed.\<close>

definition order_for :: "clock_readings \<Rightarrow> Signal \<Rightarrow> runtime \<Rightarrow> NewOrder" where
  "order_for clk sg rt = \<lparr>o_id = nextOrderId rt, o_symbolId = c_symbolId (cfg rt), o_side = (if s_action sg = Buy then Bid else Ask),
     o_price = s_price sg, o_qty = s_qty sg, o_createdNs = signalDone clk\<rparr>"

definition report_for :: "(double \<Rightarrow> int) \<Rightarrow> nat \<Rightarrow> clock_readings \<Rightarrow> Signal \<Rightarrow> runtime \<Rightarrow> ExecutionReport" where
  "report_for oor cap clk sg rt = simulate oor cap (order_for clk sg rt) (rt_book rt) (c_tick_size (cfg rt)) (simulatedAt clk)"

definition executed :: "(double \<Rightarrow> int) \<Rightarrow> nat \<Rightarrow> clock_readings \<Rightarrow> Signal \<Rightarrow> runtime \<Rightarrow> bool" where
  "executed oor cap clk sg rt \<longleftrightarrow> \<not> isTripped (brk rt) \<and> approve (order_for clk sg rt) (risk_mgr rt) \<and> r_isFill (report_for oor cap clk sg rt)"

lemma report_fields:
  "r_symbolId (report_for oor cap clk sg rt) = c_symbolId (cfg rt)" "r_side (report_for oor cap clk sg rt) = (if s_action sg = Buy then Bid else Ask)"
  by (simp_all add: report_for_def simulate_def Let_def order_for_def split: prod.split)

lemma dispatch_fields:
  defines "rt' oor cap clk sg rt \<equiv> dispatchOrder oor cap clk sg rt"
  shows "strat (rt' oor cap clk sg rt) = (if executed oor cap clk sg rt then strat_onFill (report_for oor cap clk sg rt) (strat rt) else strat rt)"
    "risk_mgr (rt' oor cap clk sg rt) = (if executed oor cap clk sg rt then Risk_Manager.onFill (report_for oor cap clk sg rt) (risk_mgr rt) else risk_mgr rt)"
    "cfg (rt' oor cap clk sg rt) = cfg rt" "rt_book (rt' oor cap clk sg rt) = rt_book rt" "bookReady (rt' oor cap clk sg rt) = bookReady rt"
    "queue (rt' oor cap clk sg rt) = queue rt" "bookInvalidate (rt' oor cap clk sg rt) = bookInvalidate rt" "running (rt' oor cap clk sg rt) = running rt"
    "started (rt' oor cap clk sg rt) = started rt"
  unfolding rt'_def dispatchOrder_def executed_def report_for_def order_for_def Let_def by simp_all

lemma dispatch_published:
  assumes "published rt" shows "published (dispatchOrder oor cap clk sg rt)"
proof (cases "executed oor cap clk sg rt")
  case True
  then have "\<exists>r. dispatchOrder oor cap clk sg rt = publishPnl r"
    unfolding dispatchOrder_def executed_def report_for_def order_for_def Let_def by auto
  then show ?thesis by auto
next
  case False
  then show ?thesis using assms
    unfolding dispatchOrder_def executed_def report_for_def order_for_def Let_def published_def by (auto split: if_splits)
qed

lemma dispatch_counted:
  assumes "counted rt 1" shows "counted (dispatchOrder oor cap clk sg rt) 0"
  using assms unfolding dispatchOrder_def Let_def counted_def by (auto split: if_splits)

lemma dispatch_inv:
  assumes "runtime_inv cap rt" shows "runtime_inv cap (dispatchOrder oor cap clk sg rt)"
proof -
  let ?r = "report_for oor cap clk sg rt" and ?rt = "dispatchOrder oor cap clk sg rt"
  note d = dispatch_fields[of oor cap clk sg rt]
  have i: "strat_inv (strat rt)" "symbol (strat rt) = c_symbolId (cfg rt)" "tick_size (strat rt) = c_tick_size (cfg rt)"
    "risk_wf (risk_mgr rt)" "book_inv cap (rt_book rt)" "published rt" "cash_agrees rt" using assms by (simp_all add: runtime_inv_def)
  have s: "symbol (strat_onFill ?r (strat rt)) = symbol (strat rt)" "tick_size (strat_onFill ?r (strat rt)) = tick_size (strat rt)"
    by (simp_all add: strat_onFill_def)
  have "cash_agrees ?rt"
  proof (cases "executed oor cap clk sg rt \<and> sym (c_symbolId (cfg rt)) < MAX_SYMBOLS \<and> 0 \<le> c_initial_cash (cfg rt)")
    case True
    then have "cashEnabled (risk_mgr rt)" "rk_tick (risk_mgr rt) = c_tick_size (cfg rt)"
      "cash (c_symbolId (cfg rt)) (risk_mgr rt) = p_cash (strat_state (strat rt))" using i(7) by (simp_all add: cash_agrees_def Let_def)
    with True risk_cash_fill[OF i(4), of ?r "strat rt"] i(1-3) show ?thesis
      by (simp add: cash_agrees_def d report_fields executed_def strat_inv_def Let_def)
  qed (use i(7) in \<open>auto simp: cash_agrees_def d Let_def\<close>)
  then show ?thesis
    using i s strat_inv_ops(3)[OF i(1)] risk_wf_ops dispatch_published[OF i(6)] by (simp add: runtime_inv_def d)
qed

text \<open>The state with which the order of an event is dispatched.\<close>

definition signalled :: "(double \<Rightarrow> int) \<Rightarrow> nat \<Rightarrow> clock_readings \<Rightarrow> Timestamp \<Rightarrow> runtime \<Rightarrow> Signal \<times> runtime" where
  "signalled oor cap clk recv rt =
     (let k = c_tick_size (cfg rt); m = metrics rt; (sg, st) = onMarketUpdate oor cap (rt_book rt) (bookDone clk) (strat rt) in
      (sg, rt\<lparr>markBid := (case topOfBook cap Bid (rt_book rt) of Some l \<Rightarrow> toDouble (pl_price l) k | None \<Rightarrow> markBid rt),
         markAsk := (case topOfBook cap Ask (rt_book rt) of Some l \<Rightarrow> toDouble (pl_price l) k | None \<Rightarrow> markAsk rt),
         strat := st,
         metrics := m\<lparr>parseToBook := recordNs (sub_ns (bookDone clk) (bookStart clk)) (parseToBook m),
                      bookToSignal := recordNs (sub_ns (signalDone clk) (bookDone clk)) (bookToSignal m),
                      tickToSignal := recordNs (sub_ns (signalDone clk) recv) (tickToSignal m),
                      signalsGenerated := (if isActionable sg then signalsGenerated m + 1 else signalsGenerated m)\<rparr>\<rparr>))"

lemma after_book_eq:
  "after_book oor cap clk recv rt =
     (if isActionable (fst (signalled oor cap clk recv rt))
      then dispatchOrder oor cap clk (fst (signalled oor cap clk recv rt)) (snd (signalled oor cap clk recv rt))
      else snd (signalled oor cap clk recv rt))"
  by (simp add: after_book_def signalled_def Let_def split: prod.split)

lemma signalled_fields:
  defines "rt' oor cap clk recv rt \<equiv> snd (signalled oor cap clk recv rt)"
  shows "strat (rt' oor cap clk recv rt) = snd (onMarketUpdate oor cap (rt_book rt) (bookDone clk) (strat rt))"
    "fst (signalled oor cap clk recv rt) = fst (onMarketUpdate oor cap (rt_book rt) (bookDone clk) (strat rt))"
    "risk_mgr (rt' oor cap clk recv rt) = risk_mgr rt" "cfg (rt' oor cap clk recv rt) = cfg rt" "rt_book (rt' oor cap clk recv rt) = rt_book rt"
    "bookReady (rt' oor cap clk recv rt) = bookReady rt" "queue (rt' oor cap clk recv rt) = queue rt"
    "bookInvalidate (rt' oor cap clk recv rt) = bookInvalidate rt" "running (rt' oor cap clk recv rt) = running rt" "brk (rt' oor cap clk recv rt) = brk rt"
    "pnlCash (rt' oor cap clk recv rt) = pnlCash rt" "pnlPosition (rt' oor cap clk recv rt) = pnlPosition rt"
    "pnlAvgEntry (rt' oor cap clk recv rt) = pnlAvgEntry rt" "pnlRealized (rt' oor cap clk recv rt) = pnlRealized rt" "nextOrderId (rt' oor cap clk recv rt) = nextOrderId rt"
  by (simp_all add: rt'_def signalled_def Let_def split: prod.split)

lemma update_pnl: "pnl (snd (onMarketUpdate oor cap b now st)) = pnl st" and update_setup: "same_setup (snd (onMarketUpdate oor cap b now st)) st"
proof -
  obtain t where "snd (onMarketUpdate oor cap b now st) = (case observe cap b st of None \<Rightarrow> st
     | Some (x, y, v) \<Rightarrow> (push_imbalance v st)\<lparr>skip_next_signal := False, last_trade_ns := t\<rparr>)" by (rule update_cases)
  then show "pnl (snd (onMarketUpdate oor cap b now st)) = pnl st" "same_setup (snd (onMarketUpdate oor cap b now st)) st"
    by (auto simp: same_setup_def split: option.split)
qed

lemma update_state: "strat_state (snd (onMarketUpdate oor cap b now st)) = strat_state st"
  using update_pnl[of oor cap b now st] update_setup[of oor cap b now st] by (simp add: strat_state_def same_setup_def)

lemma signalled_inv:
  assumes "runtime_inv cap rt" shows "runtime_inv cap (snd (signalled oor cap clk recv rt))"
  using assms update_state[of oor cap "rt_book rt" "bookDone clk" "strat rt"] update_setup[of oor cap "rt_book rt" "bookDone clk" "strat rt"]
    strat_inv_update[of "strat rt" oor cap "rt_book rt" "bookDone clk"]
  by (simp add: runtime_inv_def signalled_fields published_def cash_agrees_def same_setup_def)

lemma signalled_counted:
  assumes "counted rt 0" shows "counted (snd (signalled oor cap clk recv rt)) (if isActionable (fst (signalled oor cap clk recv rt)) then 1 else 0)"
  using assms by (simp add: signalled_def counted_def Let_def split: prod.split)

lemma after_book_inv: "runtime_inv cap rt \<Longrightarrow> runtime_inv cap (after_book oor cap clk recv rt)"
  by (simp add: after_book_eq signalled_inv dispatch_inv)

lemma after_book_counted: "counted rt 0 \<Longrightarrow> counted (after_book oor cap clk recv rt) 0"
  using signalled_counted[of rt oor cap clk recv] dispatch_counted by (auto simp: after_book_eq)

lemma book_inv_fold: "book_inv cap b \<Longrightarrow> book_inv cap (fold (\<lambda>x. update cap (f x) (g x) (h x)) xs b)"
  by (induction xs arbitrary: b) (simp_all add: book_inv_update)

lemma book_inv_snapshot: "book_inv cap b \<Longrightarrow> book_inv cap (apply_snapshot cap bs as b)"
  unfolding apply_snapshot_def Let_def by (simp add: book_inv_fold book_inv_seed book_inv_clear)

lemma book_inv_changes: "book_inv cap b \<Longrightarrow> book_inv cap (apply_changes oor cap k cs b)"
  unfolding apply_changes_def by (rule book_inv_fold)

lemma runtime_inv_frame [frame_simps]:
  "runtime_inv cap rt \<Longrightarrow> book_inv cap b \<Longrightarrow> runtime_inv cap (rt\<lparr>rt_book := b, bookReady := r\<rparr>)"
  "runtime_inv cap rt \<Longrightarrow> book_inv cap b \<Longrightarrow> runtime_inv cap (rt\<lparr>rt_book := b\<rparr>)"
  "runtime_inv cap (rt\<lparr>brk := x\<rparr>) = runtime_inv cap rt" "runtime_inv cap (rt\<lparr>metrics := m\<rparr>) = runtime_inv cap rt"
  "runtime_inv cap (rt\<lparr>queue := q\<rparr>) = runtime_inv cap rt" "runtime_inv cap (rt\<lparr>bookInvalidate := v\<rparr>) = runtime_inv cap rt"
  "runtime_inv cap (rt\<lparr>running := v\<rparr>) = runtime_inv cap rt" "runtime_inv cap (rt\<lparr>started := v\<rparr>) = runtime_inv cap rt"
  by (simp_all add: runtime_inv_def published_def cash_agrees_def)

lemma process_inv:
  assumes "runtime_inv cap rt" shows "runtime_inv cap (processEvent oor cap clk ev rt)"
proof -
  have "book_inv cap (rt_book rt)" using assms by (simp add: runtime_inv_def)
  then show ?thesis using assms book_inv_snapshot book_inv_changes
    by (auto simp: processEvent_def Let_def runtime_inv_frame intro!: after_book_inv split: EventBody.split)
qed

lemma process_counted: "counted rt 0 \<Longrightarrow> counted (processEvent oor cap clk ev rt) 0"
  by (auto simp: processEvent_def Let_def intro!: after_book_counted split: EventBody.split) (simp_all add: counted_def Let_def)

section \<open>The accounts\<close>

text \<open>
  The fills of a run as pairs of price and signed quantity. \<open>ledger c r fs\<close>: the account of the
  strategy and the position of the risk manager are both the result of booking \<open>fs\<close>, and the
  counter of fills is their number.
\<close>

definition opening_account :: "RuntimeConfig \<Rightarrow> PnlState" where
  "opening_account c = empty_pnl\<lparr>p_cash := c_initial_cash c\<rparr>"

definition book_fills :: "(double \<times> double) list \<Rightarrow> PnlState \<Rightarrow> PnlState" where
  "book_fills fs a = foldl (\<lambda>a (px, q). fill_state px q a) a fs"

definition ledger :: "RuntimeConfig \<Rightarrow> runtime \<Rightarrow> (double \<times> double) list \<Rightarrow> bool" where
  "ledger c r fs \<longleftrightarrow> c_symbolId (cfg r) = c_symbolId c \<and> c_initial_cash (cfg r) = c_initial_cash c \<and>
     fillCount (metrics r) = of_nat (length fs) \<and> strat_state (strat r) = book_fills fs (opening_account c) \<and>
     position (c_symbolId c) (risk_mgr r) = foldl (+) 0 (map snd fs)"

lemma ledger_cong:
  assumes "c_symbolId (cfg r') = c_symbolId (cfg r)" "c_initial_cash (cfg r') = c_initial_cash (cfg r)"
    "fillCount (metrics r') = fillCount (metrics r)" "strat_state (strat r') = strat_state (strat r)" "risk_mgr r' = risk_mgr r"
  shows "ledger c r' = ledger c r"
  using assms by (intro ext) (simp add: ledger_def)

lemma ledger_new:
  assumes "sym (c_symbolId c) < MAX_SYMBOLS" "0 \<le> c_initial_cash c"
  shows "ledger c (new_runtime cap qcap c) []"
proof -
  have "strat_state (setInitialCash (c_initial_cash c) (setSymbol (c_symbolId c) (c_tick_size c) (new_strategy (c_strategy c)))) = opening_account c"
    using assms by (simp add: setInitialCash_def setSymbol_def strat_state_def pnl_state_def seedCash_def new_pnl_def new_strategy_def opening_account_def)
  moreover have "position i (configure i m ch t new_risk) = 0" for i m ch t
    by (simp add: position_def configure_def new_risk_def Let_def)
  ultimately show ?thesis by (simp add: new_runtime_def ledger_def book_fills_def) (simp add: new_metrics_def)
qed

lemma dispatch_fillCount:
  "fillCount (metrics (dispatchOrder oor cap clk sg r)) = fillCount (metrics r) + (if executed oor cap clk sg r then 1 else 0)"
  unfolding dispatchOrder_def executed_def report_for_def order_for_def Let_def by simp

lemma ledger_dispatch:
  assumes "runtime_inv cap r" "ledger c r fs"
  shows "\<exists>fs'. ledger c (dispatchOrder oor cap clk sg r) fs'"
proof (cases "executed oor cap clk sg r")
  case True
  let ?r = "report_for oor cap clk sg r" and ?i = "c_symbolId (cfg r)"
  define f where "f = (toDouble (r_execPrice ?r) (tick_size (strat r)), qvalue (r_execQty ?r) * side_sign (r_side ?r))"
  have i: "risk_wf (risk_mgr r)" "strat_inv (strat r)" "symbol (strat r) = ?i" using assms(1) by (simp_all add: runtime_inv_def)
  have e: "r_isFill ?r" "sym ?i < MAX_SYMBOLS" "r_symbolId ?r = ?i"
    using True by (auto simp: executed_def approve_def order_for_def report_fields split: if_splits)
  have "strat_state (strat_onFill ?r (strat r)) = fill_state (fst f) (snd f) (strat_state (strat r))"
    using e i(2,3) by (simp add: f_def strat_state_def strat_onFill_def pnl_state_def Pnl_Tracker.onFill_def strat_inv_def)
  then have "ledger c (dispatchOrder oor cap clk sg r) (fs @ [f])"
    using assms(2) True position_onFill(1)[OF i(1) e(1)] e(2,3)
    by (simp add: ledger_def dispatch_fields dispatch_fillCount book_fills_def f_def)
  then show ?thesis by blast
next
  case False
  then have "ledger c (dispatchOrder oor cap clk sg r) = ledger c r"
    by (intro ledger_cong) (simp_all add: dispatch_fields dispatch_fillCount)
  then show ?thesis using assms(2) by auto
qed

lemma ledger_signalled: "ledger c (snd (signalled oor cap clk recv r)) = ledger c r"
proof (rule ledger_cong)
  show "fillCount (metrics (snd (signalled oor cap clk recv r))) = fillCount (metrics r)"
    by (simp add: signalled_def Let_def split: prod.split)
qed (simp_all add: signalled_fields update_state)

lemma ledger_after_book:
  assumes "runtime_inv cap r" "ledger c r fs" shows "\<exists>fs'. ledger c (after_book oor cap clk recv r) fs'"
  using assms(2) ledger_dispatch[OF signalled_inv[OF assms(1)]] by (auto simp: after_book_eq ledger_signalled)

lemma ledger_process:
  assumes "runtime_inv cap r" "ledger c r fs" shows "\<exists>fs'. ledger c (processEvent oor cap clk ev r) fs'"
proof -
  have f: "ledger c (r\<lparr>rt_book := b, bookReady := v\<rparr>) = ledger c r" "ledger c (r\<lparr>rt_book := b\<rparr>) = ledger c r" "ledger c (r\<lparr>brk := k\<rparr>) = ledger c r"
    "ledger c (r\<lparr>brk := k, rt_book := b, bookReady := v\<rparr>) = ledger c r" "ledger c (r\<lparr>brk := k, rt_book := b\<rparr>) = ledger c r" 
    "ledger c (r\<lparr>brk := k, metrics := (metrics r)\<lparr>preSnapshotDrops := n\<rparr>\<rparr>) = ledger c r" for b v k n
    by (rule ledger_cong; simp)+
  have "book_inv cap (rt_book r)" using assms(1) by (simp add: runtime_inv_def)
  then show ?thesis using assms book_inv_snapshot book_inv_changes
    by (auto simp: processEvent_def Let_def runtime_inv_frame f intro!: ledger_after_book split: EventBody.split)
qed

section \<open>The threads\<close>

text \<open>
  The loop of \<^verbatim>\<open>strategyLoop\<close> is at one of these points; processing an event touches no state that the
  network thread touches, so it is one step with the pop. The network thread makes attempts to
  push and, in the reconnect callback, sets the invalidation flag; it changes only its own
  counters. \<open>sent\<close> and \<open>seen\<close> record the events accepted by the queue and processed.
\<close>

datatype strategy_pc = NotStarted | Checking | Popping | Draining | Finished

record sys =
  rt :: runtime
  pc :: strategy_pc
  ws_on :: bool
  sent :: "MarketEvent list"
  seen :: "MarketEvent list"

definition sys_start :: "nat \<Rightarrow> nat \<Rightarrow> RuntimeConfig \<Rightarrow> sys" where
  "sys_start cap qcap c = \<lparr>rt = new_runtime cap qcap c, pc = NotStarted, ws_on = False, sent = [], seen = []\<rparr>"

definition strategy_counters :: "Metrics \<Rightarrow> u64 list" where
  "strategy_counters m = [signalsGenerated m, ordersSent m, ordersApproved m, ordersRejected m, fillCount m, partialFills m,
     circuitBlocked m, preSnapshotDrops m]"

inductive loop_step :: "(double \<Rightarrow> int) \<Rightarrow> nat \<Rightarrow> nat \<Rightarrow> sys \<Rightarrow> sys \<Rightarrow> bool" for oor :: "double \<Rightarrow> int" and cap qcap :: nat where
  check_quiet: "pc s = Checking \<Longrightarrow> running (rt s) \<Longrightarrow> \<not> bookInvalidate (rt s) \<Longrightarrow> loop_step oor cap qcap s (s\<lparr>pc := Popping\<rparr>)"
| check_reset: "pc s = Checking \<Longrightarrow> running (rt s) \<Longrightarrow> bookInvalidate (rt s) \<Longrightarrow>
    loop_step oor cap qcap s (s\<lparr>rt := reset_on_reconnect (rt s), pc := Popping\<rparr>)"
| check_stop: "pc s = Checking \<Longrightarrow> \<not> running (rt s) \<Longrightarrow> loop_step oor cap qcap s (s\<lparr>pc := Draining\<rparr>)"
| pop_none: "pc s = Popping \<Longrightarrow> try_pop qcap (queue (rt s)) = (None, q) \<Longrightarrow>
    loop_step oor cap qcap s (s\<lparr>rt := (rt s)\<lparr>queue := q\<rparr>, pc := Checking\<rparr>)"
| pop_event: "pc s = Popping \<or> pc s = Draining \<Longrightarrow> try_pop qcap (queue (rt s)) = (Some ev, q) \<Longrightarrow>
    loop_step oor cap qcap s (s\<lparr>rt := processEvent oor cap clk ev ((rt s)\<lparr>queue := q\<rparr>),
      pc := (if pc s = Popping then Checking else Draining), seen := seen s @ [ev]\<rparr>)"
| drain_done: "pc s = Draining \<Longrightarrow> try_pop qcap (queue (rt s)) = (None, q) \<Longrightarrow>
    loop_step oor cap qcap s (s\<lparr>rt := (rt s)\<lparr>queue := q\<rparr>, pc := Finished\<rparr>)"

inductive_simps loop_step_iff: "loop_step oor cap qcap s s'"

text \<open>
  The loop against any network thread: it may attempt to push any event, change its own counters
  and make the two callbacks, until it is joined in \<^verbatim>\<open>stop\<close>.
\<close>

inductive sys_step :: "(double \<Rightarrow> int) \<Rightarrow> nat \<Rightarrow> nat \<Rightarrow> sys \<Rightarrow> sys \<Rightarrow> bool" for oor :: "double \<Rightarrow> int" and cap qcap :: nat where
  start: "\<not> started (rt s) \<Longrightarrow> \<not> running (rt s) \<Longrightarrow> pc s = NotStarted \<or> pc s = Finished \<Longrightarrow>
    sys_step oor cap qcap s (s\<lparr>rt := start_flags (rt s), pc := Checking, ws_on := True\<rparr>)"
| loop: "loop_step oor cap qcap s s' \<Longrightarrow> sys_step oor cap qcap s s'"
| net_push: "ws_on s \<Longrightarrow> try_push qcap ev (queue (rt s)) = (ok, q) \<Longrightarrow> strategy_counters m = strategy_counters (metrics (rt s)) \<Longrightarrow>
    sys_step oor cap qcap s (s\<lparr>rt := (rt s)\<lparr>queue := q, metrics := m\<rparr>, sent := (if ok then sent s @ [ev] else sent s)\<rparr>)"
| net_count: "ws_on s \<Longrightarrow> strategy_counters m = strategy_counters (metrics (rt s)) \<Longrightarrow>
    sys_step oor cap qcap s (s\<lparr>rt := (rt s)\<lparr>metrics := m\<rparr>\<rparr>)"
| net_parse_error: "ws_on s \<Longrightarrow> sys_step oor cap qcap s (s\<lparr>rt := parseErrorCallback (rt s)\<rparr>)"
| net_reconnect: "ws_on s \<Longrightarrow> sys_step oor cap qcap s (s\<lparr>rt := reconnectCallback (rt s)\<rparr>)"
| stop_network: "started (rt s) \<Longrightarrow> sys_step oor cap qcap s (s\<lparr>rt := stop_started (rt s)\<rparr>)"
| net_joined: "\<not> started (rt s) \<Longrightarrow> sys_step oor cap qcap s (s\<lparr>ws_on := False\<rparr>)"
| stop_loop: "\<not> started (rt s) \<Longrightarrow> \<not> ws_on s \<Longrightarrow> running (rt s) \<Longrightarrow> sys_step oor cap qcap s (s\<lparr>rt := stop_running (rt s)\<rparr>)"

definition sys_inv :: "nat \<Rightarrow> nat \<Rightarrow> sys \<Rightarrow> bool" where
  "sys_inv cap qcap s \<longleftrightarrow> runtime_inv cap (rt s) \<and> counted (rt s) 0 \<and> spsc_inv qcap (queue (rt s)) \<and>
     sent s = seen s @ spsc_contents qcap (queue (rt s)) \<and> (ws_on s \<longrightarrow> running (rt s)) \<and>
     (pc s = Draining \<or> pc s = Finished \<longrightarrow> \<not> running (rt s)) \<and> (pc s = Finished \<longrightarrow> spsc_contents qcap (queue (rt s)) = [])"

lemma process_fields [simp]:
  "queue (processEvent oor cap clk ev r) = queue r" "running (processEvent oor cap clk ev r) = running r"
  "bookInvalidate (processEvent oor cap clk ev r) = bookInvalidate r"
  by (simp_all add: processEvent_def Let_def after_book_eq signalled_fields dispatch_fields split: EventBody.split)

lemma reset_inv: "runtime_inv cap r \<Longrightarrow> runtime_inv cap (reset_on_reconnect r)"
proof -
  have "strat_state (onReconnect st) = strat_state st" "symbol (onReconnect st) = symbol st" "tick_size (onReconnect st) = tick_size st" for st
    by (simp_all add: strat_state_def onReconnect_def)
  then show "runtime_inv cap r \<Longrightarrow> runtime_inv cap (reset_on_reconnect r)"
    by (simp add: runtime_inv_def reset_on_reconnect_def published_def cash_agrees_def strat_inv_ops)
qed

lemma counted_frame [frame_simps]:
  "strategy_counters m = strategy_counters (metrics r) \<Longrightarrow> counted (r\<lparr>queue := q, metrics := m\<rparr>) d = counted r d"
  "strategy_counters m = strategy_counters (metrics r) \<Longrightarrow> counted (r\<lparr>metrics := m\<rparr>) d = counted r d"
  "counted (r\<lparr>queue := q\<rparr>) d = counted r d" "counted (r\<lparr>running := v\<rparr>) d = counted r d" "counted (r\<lparr>started := v\<rparr>) d = counted r d"
  "counted (reset_on_reconnect r) d = counted r d" "counted (r\<lparr>bookInvalidate := v\<rparr>) d = counted r d"
  by (simp_all add: counted_def strategy_counters_def reset_on_reconnect_def Let_def)

lemma pop_queue:
  assumes "spsc_inv qcap q" "try_pop qcap q = (x, q')"
  shows "spsc_inv qcap q'" "spsc_contents qcap q = (case x of None \<Rightarrow> [] | Some v \<Rightarrow> [v]) @ spsc_contents qcap q'" "x = None \<Longrightarrow> spsc_contents qcap q' = []"
proof -
  show "spsc_inv qcap q'" using spsc.inv_pop[OF assms(1)] assms(2) by simp
  show "spsc_contents qcap q = (case x of None \<Rightarrow> [] | Some v \<Rightarrow> [v]) @ spsc_contents qcap q'" "x = None \<Longrightarrow> spsc_contents qcap q' = []"
    using spsc.pop_none[OF assms(1)] spsc.pop_some[OF assms(1)] assms(2) by (cases "spsc_contents qcap q"; fastforce)+
qed

lemma push_queue:
  assumes "spsc_inv qcap q" "try_push qcap v q = (ok, q')"
  shows "spsc_inv qcap q'" "spsc_contents qcap q' = spsc_contents qcap q @ (if ok then [v] else [])"
proof -
  show "spsc_inv qcap q'" using spsc.inv_push[OF assms(1), of v] assms(2) by simp
  show "spsc_contents qcap q' = spsc_contents qcap q @ (if ok then [v] else [])"
    using spsc.push_ok[OF assms(1), of v] spsc.push_full[OF assms(1), of v] spsc.bounded[OF assms(1)] assms(2)
    by (cases "length (spsc_contents qcap q) < qcap") auto
qed

lemma sys_inv_loop:
  assumes "loop_step oor cap qcap s s'" "sys_inv cap qcap s" shows "sys_inv cap qcap s'"
  using assms(1)
proof (cases rule: loop_step.cases)
  case (check_reset)
  then show ?thesis using assms(2) reset_inv by (simp add: sys_inv_def counted_frame) (simp add: reset_on_reconnect_def)
next
  case (pop_none q)
  then show ?thesis using assms(2) pop_queue[OF _ pop_none(3)] by (simp add: sys_inv_def frame_simps)
next
  case (pop_event ev q clk)
  then show ?thesis using assms(2) pop_queue[OF _ pop_event(3)]
    by (auto simp: sys_inv_def frame_simps intro!: process_inv process_counted)
next
  case (drain_done q)
  then show ?thesis using assms(2) pop_queue[OF _ drain_done(3)] by (auto simp: sys_inv_def frame_simps)
qed (use assms(2) in \<open>auto simp: sys_inv_def\<close>)

lemma sys_inv_step:
  assumes "sys_step oor cap qcap s s'" "sys_inv cap qcap s" shows "sys_inv cap qcap s'"
  using assms(1)
proof (cases rule: sys_step.cases)
  case loop
  then show ?thesis using sys_inv_loop assms(2) by blast
next
  case (net_push ev ok q m)
  then show ?thesis using assms(2) push_queue[OF _ net_push(3)]
    by (auto simp: sys_inv_def frame_simps)
next
  case net_reconnect
  then show ?thesis using assms(2) by (auto simp: sys_inv_def reconnectCallback_def runtime_inv_frame counted_def Let_def)
next
  case net_parse_error
  then show ?thesis using assms(2) by (auto simp: sys_inv_def parseErrorCallback_def runtime_inv_frame counted_def Let_def)
qed (use assms(2) in \<open>auto simp: sys_inv_def start_flags_def stop_started_def stop_running_def frame_simps\<close>)

lemma sys_inv_start:
  assumes "book_cap cap" "queue_cap qcap" shows "sys_inv cap qcap (sys_start cap qcap c)"
proof -
  have "queue (new_runtime cap qcap c) = spsc_new qcap new_event" "\<not> running (new_runtime cap qcap c)" "counted (new_runtime cap qcap c) 0"
    by (simp_all add: new_runtime_def counted_def) (simp_all add: new_metrics_def publishPnl_def Let_def)
  then show ?thesis
    using runtime_inv_new[OF assms(1), of qcap c] spsc_new_inv[OF assms(2), of new_event] by (simp add: sys_inv_def sys_start_def)
qed

interpretation sy: step_invariant "sys_step oor cap qcap" "sys_inv cap qcap" for oor cap qcap
  by unfold_locales (rule sys_inv_step)

lemma sys_inv_reachable:
  assumes "book_cap cap" "queue_cap qcap" "(sys_step oor cap qcap)\<^sup>*\<^sup>* (sys_start cap qcap c) s"
  shows "sys_inv cap qcap s"
  by (rule sy.run_inv[OF assms(3) sys_inv_start[OF assms(1,2)]])

text \<open>The accounts of the two threads: only the processing of an event books a fill.\<close>

definition has_ledger :: "RuntimeConfig \<Rightarrow> nat \<Rightarrow> nat \<Rightarrow> sys \<Rightarrow> bool" where
  "has_ledger c cap qcap s \<longleftrightarrow> sys_inv cap qcap s \<and> (\<exists>fs. ledger c (rt s) fs)"

lemma ledger_frame:
  "ledger c (r\<lparr>queue := q\<rparr>) = ledger c r" "ledger c (start_flags r) = ledger c r" "ledger c (stop_started r) = ledger c r"
  "ledger c (stop_running r) = ledger c r" "ledger c (reset_on_reconnect r) = ledger c r" "ledger c (reconnectCallback r) = ledger c r"
  "ledger c (parseErrorCallback r) = ledger c r"
  "strategy_counters m = strategy_counters (metrics r) \<Longrightarrow> ledger c (r\<lparr>queue := q, metrics := m\<rparr>) = ledger c r"
  "strategy_counters m = strategy_counters (metrics r) \<Longrightarrow> ledger c (r\<lparr>metrics := m\<rparr>) = ledger c r"
proof -
  have "strat_state (onReconnect st) = strat_state st" for st by (simp add: strat_state_def onReconnect_def)
  then show "ledger c (reset_on_reconnect r) = ledger c r" by (intro ledger_cong) (simp_all add: reset_on_reconnect_def)
qed (rule ledger_cong; simp add: start_flags_def stop_started_def stop_running_def reconnectCallback_def parseErrorCallback_def
  strategy_counters_def Let_def)+

lemma ledger_loop:
  assumes "loop_step oor cap qcap s s'" "sys_inv cap qcap s" "ledger c (rt s) fs"
  shows "\<exists>fs'. ledger c (rt s') fs'"
  using assms(1)
proof (cases rule: loop_step.cases)
  case (pop_event ev q clk)
  have "runtime_inv cap ((rt s)\<lparr>queue := q\<rparr>)" using assms(2) by (simp add: sys_inv_def runtime_inv_frame)
  then show ?thesis using ledger_process[of cap "(rt s)\<lparr>queue := q\<rparr>" c fs oor clk ev] assms(3) pop_event by (simp add: ledger_frame)
qed (use assms(3) in \<open>auto simp: ledger_frame\<close>)

lemma has_ledger_step:
  assumes "sys_step oor cap qcap s s'" "has_ledger c cap qcap s" shows "has_ledger c cap qcap s'"
proof -
  obtain fs where fs: "sys_inv cap qcap s" "ledger c (rt s) fs" using assms(2) by (auto simp: has_ledger_def)
  have "\<exists>fs'. ledger c (rt s') fs'"
    using assms(1) by (cases rule: sys_step.cases) (use fs ledger_loop[OF _ fs] in \<open>auto simp: ledger_frame\<close>)
  then show ?thesis using sys_inv_step[OF assms(1) fs(1)] by (simp add: has_ledger_def)
qed

interpretation ac: step_invariant "sys_step oor cap qcap" "has_ledger c cap qcap" for oor cap qcap c
  by unfold_locales (rule has_ledger_step)

text \<open>
  The strategy forgets a position of at most \<open>DUST\<close>. As long as the running sum of the fills is
  never such a remainder, the two positions are the same.
\<close>

definition dust_free :: "double list \<Rightarrow> bool" where
  "dust_free qs \<longleftrightarrow> (\<forall>n \<le> length qs. let p = foldl (+) 0 (take n qs) in \<bar>p\<bar> \<le> DUST \<longrightarrow> p = 0)"

lemma dust_free_snoc: "dust_free (qs @ [q]) \<Longrightarrow> dust_free qs"
  unfolding dust_free_def by (metis diff_is_0_eq' le_SucI length_append_singleton take_append take0 append_Nil2)

lemma book_fills_position:
  "p_position (book_fills fs a) = foldl (\<lambda>p q. let n = p + q in if \<bar>n\<bar> \<le> DUST then 0 else n) (p_position a) (map snd fs)"
  by (induction fs arbitrary: a) (auto simp: book_fills_def fill_position Let_def)

lemma book_fills_cash: "p_cash (book_fills fs a) = foldl (\<lambda>m (px, q). m - q * px) (p_cash a) fs"
  by (induction fs arbitrary: a) (auto simp: book_fills_def fill_cash)

lemma dust_free_sum:
  assumes "dust_free qs"
  shows "foldl (\<lambda>p q. let n = p + q in if \<bar>n\<bar> \<le> DUST then 0 else n) 0 qs = foldl (+) 0 qs"
  using assms
proof (induction qs rule: rev_induct)
  case (snoc q qs)
  have "\<bar>foldl (+) 0 qs + q\<bar> \<le> DUST \<longrightarrow> foldl (+) 0 qs + q = 0"
    using snoc.prems spec[of _ "length (qs @ [q])"] by (auto simp: dust_free_def Let_def)
  then show ?case using snoc.IH[OF dust_free_snoc[OF snoc.prems]] by (auto simp: Let_def)
qed simp

section \<open>The book of the runtime\<close>

definition snapshot_updates :: "PriceLevel list \<Rightarrow> PriceLevel list \<Rightarrow> level_update list" where
  "snapshot_updates bs as = map (\<lambda>l. (Bid, pl_price l, pl_qty l)) bs @ map (\<lambda>l. (Ask, pl_price l, pl_qty l)) as"

definition change_updates :: "(double \<Rightarrow> int) \<Rightarrow> double \<Rightarrow> CoinbaseChange list \<Rightarrow> level_update list" where
  "change_updates oor k cs = map (\<lambda>c. (ch_side c, fromDouble oor (ch_price c) k, Qty (ch_qty c))) cs"

text \<open>The feed's own picture of a side after an event.\<close>

definition feed_event :: "(double \<Rightarrow> int) \<Rightarrow> double \<Rightarrow> Side \<Rightarrow> MarketEvent \<Rightarrow> (int \<rightharpoonup> double) \<Rightarrow> (int \<rightharpoonup> double)" where
  "feed_event oor k s ev m = (case body ev of
     Snapshot bs as \<Rightarrow> feed_levels s (snapshot_updates bs as) Map.empty
   | L2Update cs \<Rightarrow> feed_levels s (change_updates oor k cs) m
   | Heartbeat \<Rightarrow> m)"

definition event_ticks_ok :: "(double \<Rightarrow> int) \<Rightarrow> double \<Rightarrow> MarketEvent \<Rightarrow> bool" where
  "event_ticks_ok oor k ev = (case body ev of
     Snapshot bs as \<Rightarrow> list_all (\<lambda>(s, p, q). tick_bound (ticks p)) (snapshot_updates bs as)
   | L2Update cs \<Rightarrow> list_all (\<lambda>(s, p, q). tick_bound (ticks p)) (change_updates oor k cs)
   | Heartbeat \<Rightarrow> True)"

lemma changes_updates: "apply_changes oor cap k cs b = apply_updates cap (change_updates oor k cs) b"
  by (simp add: apply_changes_def apply_updates_def change_updates_def fold_map comp_def)

lemma best_tick:
  assumes "\<forall>l \<in> set ls. tick_bound (ticks (pl_price l))" "\<And>a b. f a b = a \<or> f a b = (b :: int)" "tick_bound m \<or> m = z"
  shows "tick_bound (fold (\<lambda>l m. if 0 < qvalue (pl_qty l) then f m (ticks (pl_price l)) else m) ls m) \<or>
    fold (\<lambda>l m. if 0 < qvalue (pl_qty l) then f m (ticks (pl_price l)) else m) ls m = z"
  using assms(1,3)
proof (induction ls arbitrary: m)
  case (Cons l ls)
  have "tick_bound (f m (ticks (pl_price l))) \<or> f m (ticks (pl_price l)) = z" using assms(2)[of m "ticks (pl_price l)"] Cons.prems by auto
  then show ?case using Cons.IH[of m] Cons.IH[of "f m (ticks (pl_price l))"] Cons.prems by simp
qed simp

lemma mid_bound:
  assumes "tick_bound a" "tick_bound b" shows "tick_bound (wrap64 (a + wrap64 (b - a) sdiv 2))"
proof -
  have i: "in_i64 (b - a)" using assms by (auto simp: tick_bound_def in_i64_def)
  have d: "min 0 (b - a) \<le> (b - a) sdiv 2" "(b - a) sdiv 2 \<le> max 0 (b - a)"
    by (auto simp: signed_divide_int_def sgn_if)
  then have m: "\<bar>a + (b - a) sdiv 2\<bar> \<le> 2 ^ 61" using assms unfolding tick_bound_def by linarith
  then have "in_i64 (a + (b - a) sdiv 2)" by (auto simp: in_i64_def)
  then show ?thesis using m i by (simp add: tick_bound_def)
qed

lemma snapshot_book:
  assumes "book_ok cap b" "list_all (\<lambda>(s, p, q). tick_bound (ticks p)) (snapshot_updates bs as)"
  shows "book_ok cap (apply_snapshot cap bs as b)" "levels cap s (apply_snapshot cap bs as b) \<subseteq>\<^sub>m feed_levels s (snapshot_updates bs as) Map.empty"
proof -
  define x where "x = fold (\<lambda>l m. if 0 < qvalue (pl_qty l) then max m (ticks (pl_price l)) else m) bs INT64_MIN"
  define y where "y = fold (\<lambda>l m. if 0 < qvalue (pl_qty l) then min m (ticks (pl_price l)) else m) as INT64_MAX"
  define b1 where "b1 = (if x \<noteq> INT64_MIN \<and> y \<noteq> INT64_MAX then seedReference (fromTicks (wrap64 (x + wrap64 (y - x) sdiv 2))) (clear cap b) else clear cap b)"
  have u: "\<forall>(s, p, q) \<in> set (snapshot_updates bs as). tick_bound (ticks p)" using assms(2) by (simp add: list_all_iff)
  have t: "\<forall>l \<in> set bs. tick_bound (ticks (pl_price l))" "\<forall>l \<in> set as. tick_bound (ticks (pl_price l))"
    using assms(2) unfolding snapshot_updates_def list_all_append list.pred_map by (simp_all add: comp_def list_all_iff)
  have "tick_bound x \<or> x = INT64_MIN" unfolding x_def by (rule best_tick[OF t(1)]) (auto simp: max_def)
  moreover have "tick_bound y \<or> y = INT64_MAX" unfolding y_def by (rule best_tick[OF t(2)]) (auto simp: min_def)
  moreover have "levels cap s (seedReference p (clear cap b)) = Map.empty" for p
    using levels_empty(2)[of cap s b] by (auto simp: levels_def seedReference_def clear_def ladder_def in_window_def tick_idx_def fun_eq_iff)
  ultimately have c: "book_ok cap b1 \<and> levels cap s b1 = Map.empty"
    using book_ok_clear[OF assms(1)] book_ok_seed[OF book_ok_clear[OF assms(1)]] mid_bound[of x y] levels_empty
    by (auto simp: b1_def fromTicks_def)
  have e: "apply_snapshot cap bs as b = apply_updates cap (snapshot_updates bs as) b1"
    by (simp add: apply_snapshot_def Let_def x_def[symmetric] y_def[symmetric] b1_def apply_updates_def snapshot_updates_def fold_map comp_def)
  show "book_ok cap (apply_snapshot cap bs as b)" unfolding e using c u by (intro apply_updates_ok) simp_all
  show "levels cap s (apply_snapshot cap bs as b) \<subseteq>\<^sub>m feed_levels s (snapshot_updates bs as) Map.empty"
    unfolding e using c u by (intro apply_updates_feed) simp_all
qed

lemma process_book:
  "rt_book (processEvent oor cap clk ev r) = (case body ev of Snapshot bs as \<Rightarrow> apply_snapshot cap bs as (rt_book r)
     | L2Update cs \<Rightarrow> if bookReady r then apply_changes oor cap (c_tick_size (cfg r)) cs (rt_book r) else rt_book r | Heartbeat \<Rightarrow> rt_book r)"
  "bookReady (processEvent oor cap clk ev r) = (bookReady r \<or> (case body ev of Snapshot _ _ \<Rightarrow> True | _ \<Rightarrow> False))"
  "cfg (processEvent oor cap clk ev r) = cfg r"
  by (simp_all add: processEvent_def Let_def after_book_eq signalled_fields dispatch_fields split: EventBody.split)

lemma process_feed:
  assumes "book_ok cap (rt_book r)" "event_ticks_ok oor (c_tick_size (cfg r)) ev" "bookReady r \<or> (case body ev of Snapshot _ _ \<Rightarrow> True | _ \<Rightarrow> False)"
    "bookReady r \<Longrightarrow> levels cap s (rt_book r) \<subseteq>\<^sub>m m"
  shows "book_ok cap (rt_book (processEvent oor cap clk ev r))"
    "levels cap s (rt_book (processEvent oor cap clk ev r)) \<subseteq>\<^sub>m feed_event oor (c_tick_size (cfg r)) s ev m"
proof -
  show "book_ok cap (rt_book (processEvent oor cap clk ev r))"
  proof (cases "body ev")
    case (L2Update cs)
    then show ?thesis using assms(1-3) apply_updates_ok[OF assms(1)] by (simp add: process_book changes_updates event_ticks_ok_def list_all_iff)
  qed (use assms snapshot_book in \<open>simp_all add: process_book event_ticks_ok_def\<close>)
  show "levels cap s (rt_book (processEvent oor cap clk ev r)) \<subseteq>\<^sub>m feed_event oor (c_tick_size (cfg r)) s ev m"
  proof (cases "body ev")
    case (L2Update cs)
    then show ?thesis using assms apply_updates_feed[OF assms(1), of _ s m] by (simp add: process_book changes_updates event_ticks_ok_def list_all_iff feed_event_def)
  qed (use assms snapshot_book in \<open>simp_all add: process_book event_ticks_ok_def feed_event_def\<close>)
qed

definition process_all :: "(double \<Rightarrow> int) \<Rightarrow> nat \<Rightarrow> (clock_readings \<times> MarketEvent) list \<Rightarrow> runtime \<Rightarrow> runtime" where
  "process_all oor cap evs r = fold (\<lambda>(clk, ev). processEvent oor cap clk ev) evs r"

lemma process_all_feed:
  assumes "book_ok cap (rt_book r)" "bookReady r" "levels cap s (rt_book r) \<subseteq>\<^sub>m m" "\<forall>(clk, ev) \<in> set evs. event_ticks_ok oor (c_tick_size (cfg r)) ev"
  shows "book_ok cap (rt_book (process_all oor cap evs r)) \<and>
    levels cap s (rt_book (process_all oor cap evs r)) \<subseteq>\<^sub>m fold (\<lambda>(clk, ev). feed_event oor (c_tick_size (cfg r)) s ev) evs m"
  using assms
proof (induction evs arbitrary: r m)
  case (Cons e evs)
  obtain clk ev where e: "e = (clk, ev)" by (cases e)
  have t: "event_ticks_ok oor (c_tick_size (cfg r)) ev" using Cons.prems(4) e by simp
  note p = process_feed[OF Cons.prems(1) t, of s m clk]
  show ?case
    using Cons.IH[of "processEvent oor cap clk ev r" "feed_event oor (c_tick_size (cfg r)) s ev m"] p Cons.prems(2-4)
    by (simp add: e process_all_def process_book)
qed (simp add: process_all_def)

section \<open>The position limit through dispatch\<close>

text \<open>What is executed of an order of a positive quantity.\<close>

lemma report_qty:
  assumes "walkable (c_tick_size (cfg r)) (depth cap (opposite (if s_action sg = Buy then Bid else Ask)) MAX_BOOK_WALK (rt_book r))"
    "is_fin (qvalue (s_qty sg))" "0 < dval (qvalue (s_qty sg))" "dval (qvalue (s_qty sg)) \<le> big"
  shows "is_fin (qvalue (r_execQty (report_for oor cap clk sg r)))" "0 \<le> dval (qvalue (r_execQty (report_for oor cap clk sg r)))"
    "dval (qvalue (r_execQty (report_for oor cap clk sg r))) \<le> dval (qvalue (s_qty sg)) * (1 + 1 / 2 ^ 45)"
  unfolding report_for_def using simulate_qty_fin(1-3)[of "c_tick_size (cfg r)" cap "order_for clk sg r" "rt_book r"] assms
  by (simp_all add: order_for_def)

lemma dispatch_near_limit:
  assumes "runtime_inv cap r" "near_limit (c_symbolId (cfg r)) (risk_mgr r)"
    "walkable (c_tick_size (cfg r)) (depth cap (opposite (if s_action sg = Buy then Bid else Ask)) MAX_BOOK_WALK (rt_book r))"
    "is_fin (qvalue (s_qty sg))" "0 < dval (qvalue (s_qty sg))" "dval (qvalue (s_qty sg)) \<le> big"
  shows "near_limit (c_symbolId (cfg r)) (risk_mgr (dispatchOrder oor cap clk sg r))"
proof (cases "executed oor cap clk sg r")
  case True
  let ?o = "order_for clk sg r" and ?r = "report_for oor cap clk sg r"
  have f: "o_symbolId ?o = c_symbolId (cfg r)" "o_side ?o = (if s_action sg = Buy then Bid else Ask)" "o_qty ?o = s_qty sg" by (simp_all add: order_for_def)
  have w: "risk_wf (risk_mgr r)" "approve ?o (risk_mgr r)" using assms(1) True by (simp_all add: runtime_inv_def executed_def)
  show ?thesis
    using near_limit_fill[OF w(1) _ w(2), of ?r] assms(2,4) report_qty[OF assms(3-6), of oor clk] True by (simp add: dispatch_fields f report_fields)
qed (use assms(2) in \<open>simp add: dispatch_fields\<close>)

section \<open>Properties of the runtime\<close>

text \<open>
  C7. In every state the two threads can reach, under every interleaving of messages, reconnects and
  stops: each order sent was blocked, rejected or approved and carries the next identifier; the
  published figures are those of the strategy; the cash that the risk check uses equals the cash
  that the strategy sizes its orders with, bit for bit; the events processed are the first of the
  accepted ones, in order, and all of them once the thread has finished.
\<close>

theorem runtime_invariant:
  assumes "book_cap cap" "queue_cap qcap" "(sys_step oor cap qcap)\<^sup>*\<^sup>* (sys_start cap qcap c) s"
  shows "counted (rt s) 0 \<and> published (rt s) \<and> cash_agrees (rt s) \<and> strat_inv (strat (rt s)) \<and> book_inv cap (rt_book (rt s)) \<and>
    sent s = seen s @ spsc_contents qcap (queue (rt s)) \<and> (pc s = Finished \<longrightarrow> seen s = sent s)"
  using sys_inv_reachable[OF assms] by (auto simp: sys_inv_def runtime_inv_def)

text \<open>
  A change that arrives before a snapshot is counted and has no other effect: book, strategy,
  risk, published figures and marks are as before. A heartbeat only counts as a message of the
  breaker.
\<close>

theorem pre_snapshot_dropped:
  assumes "\<not> bookReady r \<and> body ev = L2Update cs \<or> body ev = Heartbeat"
  shows "processEvent oor cap clk ev r = r\<lparr>brk := recordMessage (brk r),
     metrics := (metrics r)\<lparr>preSnapshotDrops := preSnapshotDrops (metrics r) + (if body ev = Heartbeat then 0 else 1)\<rparr>\<rparr>"
  using assms by (auto simp: processEvent_def)

text \<open>
  C40. A race on reconnection: from every state in which the loop has checked the invalidation flag
  and finds the queue empty, the network thread may reconnect and enqueue the new snapshot before
  the pop. The snapshot is then processed first and the flag seen afterwards: the book is marked
  as not ready although its snapshot has been consumed, so all changes are dropped until the next
  reconnect.
\<close>

theorem reconnect_race:
  assumes "pc s = Popping" "ws_on s" "running (rt s)" "spsc_inv qcap (queue (rt s))" "spsc_contents qcap (queue (rt s)) = []" "0 < qcap"
    and snap: "body ev = Snapshot bs as"
  shows "\<exists>s'. (sys_step oor cap qcap)\<^sup>*\<^sup>* s s' \<and> seen s' = seen s @ [ev] \<and> \<not> bookReady (rt s') \<and> \<not> bookInvalidate (rt s') \<and>
    spsc_contents qcap (queue (rt s')) = [] \<and> pc s' = Popping"
proof -
  define s1 where "s1 = s\<lparr>rt := reconnectCallback (rt s)\<rparr>"
  have 1: "sys_step oor cap qcap s s1" unfolding s1_def by (rule net_reconnect[OF assms(2)])
  have q1: "queue (rt s1) = queue (rt s)" "ws_on s1" "pc s1 = Popping" "running (rt s1)" "bookInvalidate (rt s1)" "seen s1 = seen s"
    using assms(1-3) by (simp_all add: s1_def reconnectCallback_def)
  obtain ok q where p: "try_push qcap ev (queue (rt s1)) = (ok, q)" by fastforce
  have q: "ok" "spsc_contents qcap q = [ev]" "spsc_inv qcap q"
    using spsc.push_ok[OF assms(4), of ev] spsc.inv_push[OF assms(4), of ev] assms(5,6) p q1(1) by simp_all
  define s2 where "s2 = s1\<lparr>rt := (rt s1)\<lparr>queue := q, metrics := metrics (rt s1)\<rparr>, sent := (if ok then sent s1 @ [ev] else sent s1)\<rparr>"
  have 2: "sys_step oor cap qcap s1 s2" unfolding s2_def by (rule net_push[OF q1(2) p]) simp
  have q2: "queue (rt s2) = q" "pc s2 = Popping" "running (rt s2)" "bookInvalidate (rt s2)" "seen s2 = seen s" using q1 by (simp_all add: s2_def)
  obtain x q' where pp: "try_pop qcap (queue (rt s2)) = (x, q')" by fastforce
  have x: "x = Some ev" "spsc_contents qcap q' = []" using spsc.pop_some[OF q(3,2)] pp q2(1) by simp_all
  fix clk :: clock_readings
  define s3 where "s3 = s2\<lparr>rt := processEvent oor cap clk ev ((rt s2)\<lparr>queue := q'\<rparr>), pc := (if pc s2 = Popping then Checking else Draining), seen := seen s2 @ [ev]\<rparr>"
  have 3: "sys_step oor cap qcap s2 s3" unfolding s3_def by (rule loop, rule pop_event) (use q2 pp x in simp_all)
  have q3: "queue (rt s3) = q'" "pc s3 = Checking" "running (rt s3)" "bookInvalidate (rt s3)" "seen s3 = seen s @ [ev]"
    using q2 by (simp_all add: s3_def)
  define s4 where "s4 = s3\<lparr>rt := reset_on_reconnect (rt s3), pc := Popping\<rparr>"
  have 4: "sys_step oor cap qcap s3 s4" unfolding s4_def by (rule loop, rule check_reset) (use q3 in simp_all)
  have "(sys_step oor cap qcap)\<^sup>*\<^sup>* s s4" using 1 2 3 4 by (meson converse_rtranclp_into_rtranclp rtranclp.rtrancl_refl)
  then show ?thesis using q3 x by (intro exI[of _ s4]) (simp add: s4_def reset_on_reconnect_def)
qed

text \<open>
  The book of the runtime never shows a stale or invented level: from the first snapshot on,
  after any sequence of snapshots, batches of changes and heartbeats, every level that it holds
  is the last one that the feed sent for that side and price since the last snapshot, and the
  book keeps the invariant on which its readers rely.
\<close>

theorem runtime_book_never_stale:
  assumes "book_ok cap (rt_book r)" "body snap = Snapshot bs as" "\<forall>(clk, ev) \<in> set ((clk0, snap) # evs). event_ticks_ok oor (c_tick_size (cfg r)) ev"
  shows "book_ok cap (rt_book (process_all oor cap ((clk0, snap) # evs) r)) \<and>
    levels cap s (rt_book (process_all oor cap ((clk0, snap) # evs) r)) \<subseteq>\<^sub>m
      fold (\<lambda>(clk, ev). feed_event oor (c_tick_size (cfg r)) s ev) ((clk0, snap) # evs) m"
proof -
  let ?r = "processEvent oor cap clk0 snap (r\<lparr>bookReady := False\<rparr>)"
  have t: "event_ticks_ok oor (c_tick_size (cfg r)) snap" using assms(3) by simp
  define r1 where "r1 = processEvent oor cap clk0 snap r"
  have b: "rt_book r1 = apply_snapshot cap bs as (rt_book r)" "bookReady r1" "cfg r1 = cfg r" by (simp_all add: r1_def process_book assms(2))
  have f: "feed_event oor (c_tick_size (cfg r)) s snap m = feed_levels s (snapshot_updates bs as) Map.empty" by (simp add: feed_event_def assms(2))
  have "book_ok cap (rt_book r1)" "levels cap s (rt_book r1) \<subseteq>\<^sub>m feed_levels s (snapshot_updates bs as) Map.empty"
    unfolding b(1) using snapshot_book[OF assms(1), of bs as] t by (simp_all add: event_ticks_ok_def assms(2))
  from process_all_feed[OF this(1) b(2) this(2), of evs oor] assms(3) show ?thesis
    by (simp add: process_all_def r1_def[symmetric] b(3) f)
qed

text \<open>
  The position limit through dispatch: whatever signal is dispatched, after breaker, risk check, fill
  simulation and booking the position of the risk manager is finite and within its limit up to
  one part in \<open>2 ^ 40\<close>, which covers the rounding of the fills; the bound is inductive.
\<close>

theorem dispatch_position_limit:
  assumes "runtime_inv cap r" "near_limit (c_symbolId (cfg r)) (risk_mgr r)" "normal (qvalue (s_qty sg))"
    "walkable (c_tick_size (cfg r)) (depth cap (opposite (if s_action sg = Buy then Bid else Ask)) MAX_BOOK_WALK (rt_book r))"
  shows "near_limit (c_symbolId (cfg r)) (risk_mgr (dispatchOrder oor cap clk sg r))"
  using dispatch_near_limit[OF assms(1,2,4)] assms(3) normal_pos by (auto simp: normal_def)

text \<open>
  C35. The two books of account, in every state the threads can reach: strategy and risk manager have
  booked the same fills \<open>fs\<close> in the same order, as many as the counter of fills says. The account
  of the strategy is the opening account after \<open>fs\<close>, and its cash is that of the risk manager. The
  position of the risk manager is the sum of the fills, while the strategy sets a sum of at most
  \<open>DUST\<close> to zero after each of them, so the positions are equal unless some running sum is
  a remainder other than zero of at most \<open>DUST\<close>.
\<close>

theorem positions_agree_up_to_dust:
  assumes "book_cap cap" "queue_cap qcap" "(sys_step oor cap qcap)\<^sup>*\<^sup>* (sys_start cap qcap c) s"
    "sym (c_symbolId c) < MAX_SYMBOLS" "0 \<le> c_initial_cash c"
  shows "\<exists>fs. fillCount (metrics (rt s)) = of_nat (length fs) \<and>
    strat_state (strat (rt s)) = book_fills fs (opening_account c) \<and>
    cash (c_symbolId c) (risk_mgr (rt s)) = foldl (\<lambda>m (px, q). m - q * px) (c_initial_cash c) fs \<and>
    position (c_symbolId c) (risk_mgr (rt s)) = foldl (+) 0 (map snd fs) \<and>
    p_position (strat_state (strat (rt s))) = foldl (\<lambda>p q. let n = p + q in if \<bar>n\<bar> \<le> DUST then 0 else n) 0 (map snd fs) \<and>
    (dust_free (map snd fs) \<longrightarrow> p_position (strat_state (strat (rt s))) = position (c_symbolId c) (risk_mgr (rt s)))"
proof -
  have "has_ledger c cap qcap s"
    using sys_inv_start[OF assms(1,2)] ledger_new[OF assms(4,5)]
    by (intro ac.run_inv[OF assms(3)]) (auto simp: has_ledger_def sys_start_def)
  then obtain fs where fs: "sys_inv cap qcap s" "ledger c (rt s) fs" by (auto simp: has_ledger_def)
  have "cash (c_symbolId c) (risk_mgr (rt s)) = p_cash (strat_state (strat (rt s)))"
    using fs assms(4,5) by (simp add: sys_inv_def runtime_inv_def cash_agrees_def ledger_def Let_def)
  then show ?thesis
    using fs(2) dust_free_sum by (intro exI[of _ fs]) (simp add: ledger_def book_fills_cash book_fills_position opening_account_def empty_pnl_def)
qed

definition idle_clock :: clock_readings where
  "idle_clock = \<lparr>bookStart = 0, bookDone = 0, signalDone = 0, orderDone = 0, simulatedAt = 0, fillDone = 0\<rparr>"

definition sample_runtime :: runtime where
  "sample_runtime = new_runtime 64 4 default_config"

definition sample_idle :: sys where
  "sample_idle = \<lparr>rt = sample_runtime\<lparr>started := True, running := True\<rparr>, pc = Popping, ws_on = True, sent = [], seen = []\<rparr>"

lemma sample_runtime_fields:
  "queue sample_runtime = spsc_new 4 new_event" "\<not> bookReady sample_runtime" "rt_book sample_runtime = new_book 64"
  by (simp_all add: sample_runtime_def new_runtime_def) (simp add: publishPnl_def Let_def)?

text \<open>
  A run in which the network thread enqueues a snapshot and the loop processes it; the strategy sells
  one unit and the order fills.
\<close>

definition sample_snapshot :: MarketEvent where
  "sample_snapshot = \<lparr>recvNs = 0, body = Snapshot [\<lparr>pl_price = Price 971, pl_qty = Qty 1\<rparr>] [\<lparr>pl_price = Price 1009, pl_qty = Qty (dbl 3)\<rparr>]\<rparr>"

definition sample_config :: RuntimeConfig where
  "sample_config = default_config\<lparr>c_tick_size := 1, c_strategy := sample_params, c_initial_cash := dbl 990\<rparr>"

definition sample_clock :: clock_readings where
  "sample_clock = idle_clock\<lparr>bookDone := 3000000000\<rparr>"

definition sell_one :: Signal where
  "sell_one = \<lparr>s_action = Sell, s_price = Price 971, s_qty = Qty 1, s_ts = 0\<rparr>"

lemma sell_executed:
  assumes "c_symbolId (cfg r) = 0" "c_tick_size (cfg r) = 1" "rt_book r = lean_book" "\<not> isTripped (brk r)"
    "risk_mgr r = configure 0 (dbl 5) ch 1 new_risk"
  shows "executed (\<lambda>_. 0) 64 clk (sell_one\<lparr>s_ts := t\<rparr>) r"
proof -
  let ?o = "order_for clk (sell_one\<lparr>s_ts := t\<rparr>) r"
  have o: "o_side ?o = Ask" "o_price ?o = Price 971" "o_qty ?o = Qty 1" "o_symbolId ?o = 0" by (simp_all add: order_for_def sell_one_def assms)
  have "approve ?o (risk_mgr r)"
    by (simp add: approve_def o assms configure_def new_risk_def sym_def MAX_SYMBOLS_def side_sign_def Let_def literal_eval del: one_dbl zero_dbl dbl_0)
  moreover have "order_fills 64 ?o lean_book 1 = [(1, dbl 971)]"
    using lean_depth[of 32] tick_one[of 971] by (simp add: order_fills_def o opposite_def MAX_BOOK_WALK_def crosses_def dbl_eval Let_def)
  then have "r_isFill (report_for (\<lambda>_. 0) 64 clk (sell_one\<lparr>s_ts := t\<rparr>) r)"
    by (simp add: report_for_def simulate_fields assms literal_eval del: one_dbl zero_dbl dbl_0)
  ultimately show ?thesis by (simp add: executed_def assms)
qed

lemma sample_process:
  assumes "cfg r = cfg (new_runtime 64 4 sample_config)" "strat r = sample_strategy" "rt_book r = new_book 64"
    "risk_mgr r = configure 0 (dbl 5) (dbl 990) 1 new_risk" "\<not> isTripped (recordMessage (brk r))" "fillCount (metrics r) = 0"
  shows "fillCount (metrics (processEvent (\<lambda>_. 0) 64 sample_clock sample_snapshot r)) = 1"
proof -
  define r1 where "r1 = r\<lparr>brk := recordMessage (brk r), rt_book := lean_book, bookReady := True\<rparr>"
  define r2 where "r2 = snd (signalled (\<lambda>_. 0) 64 sample_clock 0 r1)"
  have b: "apply_snapshot 64 [\<lparr>pl_price = Price 971, pl_qty = Qty 1\<rparr>] [\<lparr>pl_price = Price 1009, pl_qty = Qty (dbl 3)\<rparr>] (new_book 64) = lean_book"
    using dbl_sign(1)[of 1] dbl_sign(1)[of 3] wrap64_id[of 38] wrap64_id[of 990]
    by (simp add: apply_snapshot_def lean_book_def Let_def clear_def new_book_def INT64_MIN_def INT64_MAX_def fromTicks_def in_i64_def
      signed_divide_int_def)
  have sg: "fst (signalled (\<lambda>_. 0) 64 sample_clock 0 r1) = sell_one\<lparr>s_ts := 3000000000\<rparr>"
    using assms(2) by (simp add: signalled_fields r1_def sample_clock_def idle_clock_def sample_signal(3) sell_one_def)
  have "processEvent (\<lambda>_. 0) 64 sample_clock sample_snapshot r = after_book (\<lambda>_. 0) 64 sample_clock 0 r1"
    using b assms(3) by (simp add: processEvent_def sample_snapshot_def r1_def Let_def)
  also have "\<dots> = dispatchOrder (\<lambda>_. 0) 64 sample_clock (sell_one\<lparr>s_ts := 3000000000\<rparr>) r2"
    unfolding after_book_eq sg r2_def[symmetric] by (simp add: sell_one_def isActionable_def)
  finally have p: "processEvent (\<lambda>_. 0) 64 sample_clock sample_snapshot r = dispatchOrder (\<lambda>_. 0) 64 sample_clock (sell_one\<lparr>s_ts := 3000000000\<rparr>) r2" .
  have "executed (\<lambda>_. 0) 64 sample_clock (sell_one\<lparr>s_ts := 3000000000\<rparr>) r2"
    by (rule sell_executed[where ch = "dbl 990"])
      (use assms in \<open>simp_all add: r2_def signalled_fields r1_def new_runtime_def sample_config_def default_config_def\<close>)
  moreover have "fillCount (metrics r2) = 0" using assms(6) by (simp add: r2_def r1_def signalled_def Let_def split: prod.split)
  ultimately show ?thesis by (simp add: p dispatch_fillCount)
qed

lemma sample_run:
  "\<exists>s. (sys_step (\<lambda>_. 0) 64 4)\<^sup>*\<^sup>* (sys_start 64 4 sample_config) s \<and> seen s = [sample_snapshot] \<and> bookReady (rt s) \<and> fillCount (metrics (rt s)) = 1"
proof -
  let ?R = "sys_step (\<lambda>_. 0) 64 4" and ?r = "new_runtime 64 4 sample_config" and ?s0 = "sys_start 64 4 sample_config"
  define s1 where "s1 = ?s0\<lparr>rt := start_flags ?r, pc := Checking, ws_on := True\<rparr>"
  have f: "\<not> started ?r" "\<not> running ?r" "\<not> bookInvalidate ?r" "queue ?r = spsc_new 4 new_event" by (simp_all add: new_runtime_def)
  have 1: "?R ?s0 s1" using start[of ?s0 "\<lambda>_. 0" 64 4] f by (simp add: s1_def sys_start_def)
  have r1: "rt s1 = ?r\<lparr>started := True, running := True\<rparr>" "ws_on s1" "pc s1 = Checking" "seen s1 = []"
    using f by (simp_all add: s1_def sys_start_def start_flags_def)
  have q0: "spsc_inv 4 (queue (rt s1))" "spsc_contents 4 (queue (rt s1)) = []"
    using spsc_new_inv[OF queue_cap_4, of new_event] by (simp_all add: r1(1) f)
  obtain ok q where p: "try_push 4 sample_snapshot (queue (rt s1)) = (ok, q)" by fastforce
  have q: "ok" "spsc_contents 4 q = [sample_snapshot]" "spsc_inv 4 q"
    using spsc.push_ok[OF q0(1), of sample_snapshot] spsc.inv_push[OF q0(1), of sample_snapshot] q0(2) p by simp_all
  define s2 where "s2 = s1\<lparr>rt := (rt s1)\<lparr>queue := q, metrics := metrics (rt s1)\<rparr>, sent := (if ok then sent s1 @ [sample_snapshot] else sent s1)\<rparr>"
  have 2: "?R s1 s2" unfolding s2_def by (rule net_push[OF r1(2) p]) simp
  define s3 where "s3 = s2\<lparr>pc := Popping\<rparr>"
  have 3: "?R s2 s3" unfolding s3_def by (rule loop, rule check_quiet) (use r1 f in \<open>simp_all add: s2_def\<close>)
  obtain x q' where pp: "try_pop 4 (queue (rt s3)) = (x, q')" by fastforce
  have x: "x = Some sample_snapshot" using spsc.pop_some[OF q(3,2)] pp by (simp add: s3_def s2_def)
  define s4 where "s4 = s3\<lparr>rt := processEvent (\<lambda>_. 0) 64 sample_clock sample_snapshot ((rt s3)\<lparr>queue := q'\<rparr>),
    pc := (if pc s3 = Popping then Checking else Draining), seen := seen s3 @ [sample_snapshot]\<rparr>"
  have 4: "?R s3 s4" unfolding s4_def by (rule loop, rule pop_event) (use pp x in \<open>simp_all add: s3_def\<close>)
  have "?R\<^sup>*\<^sup>* ?s0 s4" using 1 2 3 4 by (meson converse_rtranclp_into_rtranclp rtranclp.rtrancl_refl)
  moreover have "fillCount (metrics (processEvent (\<lambda>_. 0) 64 sample_clock sample_snapshot ((rt s3)\<lparr>queue := q'\<rparr>))) = 1"
  proof (rule sample_process)
    show "strat ((rt s3)\<lparr>queue := q'\<rparr>) = sample_strategy"
      by (simp add: s3_def s2_def r1 new_runtime_def sample_config_def default_config_def sample_strategy_def)
  qed (simp_all add: s3_def s2_def r1 new_runtime_def sample_config_def default_config_def new_breaker_def recordMessage_def isTripped_def new_metrics_def Let_def)
  ultimately show ?thesis using r1(4) by (intro exI[of _ s4]) (simp add: s4_def s3_def s2_def process_book sample_snapshot_def)
qed

theorem runtime_invariant_witness:
  "\<exists>s. (sys_step (\<lambda>_. 0) 64 4)\<^sup>*\<^sup>* (sys_start 64 4 sample_config) s \<and> seen s = [sample_snapshot] \<and> bookReady (rt s) \<and>
     fillCount (metrics (rt s)) = 1 \<and> cash_agrees (rt s) \<and> counted (rt s) 0"
  using sample_run runtime_invariant[OF book_cap_64 queue_cap_4] by blast

theorem pre_snapshot_dropped_witness:
  "rt_book (processEvent (\<lambda>_. 0) 64 idle_clock \<lparr>recvNs = 0, body = L2Update []\<rparr> sample_runtime) = new_book 64"
  using pre_snapshot_dropped[of sample_runtime "\<lparr>recvNs = 0, body = L2Update []\<rparr>" "[]" "\<lambda>_. 0" 64 idle_clock] sample_runtime_fields by simp

theorem reconnect_race_witness:
  "\<exists>s'. (sys_step (\<lambda>_. 0) 64 4)\<^sup>*\<^sup>* sample_idle s' \<and> seen s' = [\<lparr>recvNs = 0, body = Snapshot [] []\<rparr>] \<and> \<not> bookReady (rt s')"
proof -
  have q: "spsc_inv 4 (spsc_new 4 new_event)" "spsc_contents 4 (spsc_new 4 new_event) = []"
    using spsc_new_inv[OF queue_cap_4, of new_event] by simp_all
  show ?thesis
    using reconnect_race[of sample_idle 4 "\<lparr>recvNs = 0, body = Snapshot [] []\<rparr>" "[]" "[]" "\<lambda>_. 0" 64] q
    by (auto simp: sample_idle_def sample_runtime_fields)
qed

theorem runtime_book_never_stale_witness:
  "book_ok 64 (rt_book (process_all (\<lambda>_. 0) 64 [(idle_clock, \<lparr>recvNs = 0, body = Snapshot [\<lparr>pl_price = Price 5, pl_qty = Qty 1\<rparr>] []\<rparr>)] sample_runtime))"
  using runtime_book_never_stale[of 64 sample_runtime "\<lparr>recvNs = 0, body = Snapshot [\<lparr>pl_price = Price 5, pl_qty = Qty 1\<rparr>] []\<rparr>"
      "[\<lparr>pl_price = Price 5, pl_qty = Qty 1\<rparr>]" "[]" idle_clock "[]" "\<lambda>_. 0" Bid Map.empty]
    book_ok_new[OF book_cap_64]
  by (simp add: sample_runtime_fields event_ticks_ok_def snapshot_updates_def tick_bound_def)

definition trading_runtime :: runtime where
  "trading_runtime = (new_runtime 64 4 (default_config\<lparr>c_tick_size := 1\<rparr>))\<lparr>rt_book := lean_book\<rparr>"

lemma trading_fields:
  "runtime_inv 64 trading_runtime" "c_symbolId (cfg trading_runtime) = 0" "c_tick_size (cfg trading_runtime) = 1" "rt_book trading_runtime = lean_book"
  "\<not> isTripped (brk trading_runtime)" "risk_mgr trading_runtime = configure 0 (dbl 5) (dbl 10000) 1 new_risk"
proof -
  show "runtime_inv 64 trading_runtime"
    unfolding trading_runtime_def by (intro runtime_inv_frame(2) runtime_inv_new book_cap_64 book_ok_inv lean_ok)
qed (simp_all add: trading_runtime_def new_runtime_def default_config_def new_breaker_def isTripped_def)

lemma trading_limit: "near_limit 0 (risk_mgr trading_runtime)" "position 0 (risk_mgr trading_runtime) = 0"
proof -
  have "5 \<le> big" using p2_mono[of 3 400] by (simp add: big_def)
  then show "near_limit 0 (risk_mgr trading_runtime)" "position 0 (risk_mgr trading_runtime) = 0"
    by (simp_all add: near_limit_def trading_fields position_def limit_def configure_def new_risk_def sym_def MAX_SYMBOLS_def Let_def dbl_eval)
qed


theorem dispatch_position_limit_witness: "near_limit 0 (risk_mgr (dispatchOrder (\<lambda>_. 0) 64 idle_clock sell_one trading_runtime))"
proof -
  have "normal (1 :: double)" using small_normal[of 1] by simp
  moreover have "walkable 1 (depth 64 Bid MAX_BOOK_WALK lean_book)"
    using lean_depth[of 32] px_ok_unit[of 971] small_normal[of 1] by (simp add: walkable_def MAX_BOOK_WALK_def size_of_def)
  ultimately show ?thesis
    using dispatch_position_limit[of 64 trading_runtime sell_one "\<lambda>_. 0" idle_clock] trading_limit trading_fields by (simp add: sell_one_def opposite_def)
qed

theorem positions_agree_up_to_dust_witness:
  "\<exists>s fs. (sys_step (\<lambda>_. 0) 64 4)\<^sup>*\<^sup>* (sys_start 64 4 sample_config) s \<and> seen s = [sample_snapshot] \<and> fs \<noteq> [] \<and>
     strat_state (strat (rt s)) = book_fills fs (opening_account sample_config) \<and> position 0 (risk_mgr (rt s)) = foldl (+) 0 (map snd fs)"
proof -
  have c: "sym (c_symbolId sample_config) < MAX_SYMBOLS" "0 \<le> c_initial_cash sample_config" "c_symbolId sample_config = 0"
    by (simp_all add: sample_config_def default_config_def sym_def MAX_SYMBOLS_def literal_eval del: one_dbl zero_dbl dbl_0)
  obtain s where s: "(sys_step (\<lambda>_. 0) 64 4)\<^sup>*\<^sup>* (sys_start 64 4 sample_config) s" "seen s = [sample_snapshot]" "fillCount (metrics (rt s)) = 1"
    using sample_run by blast
  obtain fs where fs: "fillCount (metrics (rt s)) = of_nat (length fs)" "strat_state (strat (rt s)) = book_fills fs (opening_account sample_config)"
    "position 0 (risk_mgr (rt s)) = foldl (+) 0 (map snd fs)"
    using positions_agree_up_to_dust[OF book_cap_64 queue_cap_4 s(1) c(1,2)] unfolding c(3) by blast
  have "fs \<noteq> []" using fs(1) s(3) by auto
  then show ?thesis using s(1,2) fs(2,3) by blast
qed

end
