(* ===== verification/Coinbase_Parser.thy ===== *)
theory Coinbase_Parser
  imports Market_Events
begin

text \<open>
  The parser of feed messages (\<^verbatim>\<open>src/md/coinbase_parser.cpp\<close>). The JSON library is a parameter, the
  record \<open>simdjson\<close> of the calls the parser makes, with \<open>None\<close> for an error code. All of these calls
  report errors as codes and none throws, so the handler at the end of \<^verbatim>\<open>parse\<close> has no case here; an array
  that breaks off is a list whose last item is an error. A lookup finds a field whatever was read
  before, as the library documents for its \<^verbatim>\<open>operator[]\<close>. \<^verbatim>\<open>std::strtod\<close> is modelled in the C locale, with the
  correctly rounded result of the C library.
\<close>

section \<open>Reading numbers\<close>

definition char_nat :: "char \<Rightarrow> nat" where
  "char_nat c = of_char c"

definition is_space :: "char \<Rightarrow> bool" where
  "is_space c \<longleftrightarrow> char_nat c = 32 \<or> 9 \<le> char_nat c \<and> char_nat c \<le> 13"

definition is_digit :: "char \<Rightarrow> bool" where
  "is_digit c \<longleftrightarrow> 48 \<le> char_nat c \<and> char_nat c \<le> 57"

definition lower :: "char \<Rightarrow> nat" where
  "lower c = (if 65 \<le> char_nat c \<and> char_nat c \<le> 90 then char_nat c + 32 else char_nat c)"

definition is_hex :: "char \<Rightarrow> bool" where
  "is_hex c \<longleftrightarrow> is_digit c \<or> 97 \<le> lower c \<and> lower c \<le> 102"

definition digit_val :: "char \<Rightarrow> nat" where
  "digit_val c = (if is_digit c then char_nat c - 48 else lower c - 87)"

definition number_of :: "nat \<Rightarrow> string \<Rightarrow> nat" where
  "number_of base ds = foldl (\<lambda>a c. base * a + digit_val c) 0 ds"

text \<open>An optional exponent: its value and the number of characters it takes.\<close>

definition exponent :: "nat \<Rightarrow> string \<Rightarrow> int \<times> nat" where
  "exponent mark s = (case s of [] \<Rightarrow> (0, 0)
     | c # r \<Rightarrow> if lower c \<noteq> mark then (0, 0)
       else let neg = (r \<noteq> [] \<and> hd r = CHR ''-''); signed = (r \<noteq> [] \<and> (hd r = CHR ''-'' \<or> hd r = CHR ''+''));
                ds = takeWhile is_digit (if signed then tl r else r) in
         if ds = [] then (0, 0)
         else ((if neg then - int (number_of 10 ds) else int (number_of 10 ds)), 1 + (if signed then 1 else 0) + length ds))"

text \<open>
  Digits with an optional point: the exact value, with \<open>per\<close> powers of \<open>ebase\<close> for each digit
  after the point, and the length; \<open>None\<close> without a digit.
\<close>

definition mantissa :: "(char \<Rightarrow> bool) \<Rightarrow> nat \<Rightarrow> nat \<Rightarrow> rat \<Rightarrow> int \<Rightarrow> string \<Rightarrow> (rat \<times> nat) option" where
  "mantissa dig base mark ebase per s =
     (let ds = takeWhile dig s; r = drop (length ds) s;
          fs = (if r \<noteq> [] \<and> hd r = CHR ''.'' then takeWhile dig (tl r) else []);
          point = (r \<noteq> [] \<and> hd r = CHR ''.'' \<and> (ds \<noteq> [] \<or> fs \<noteq> []));
          n = length ds + (if point then 1 + length fs else 0);
          (e, k) = exponent mark (drop n s) in
      if ds = [] \<and> fs = [] then None
      else Some (of_nat (number_of base (ds @ fs)) * power_int ebase (e - per * int (length fs)), n + k))"

definition matches :: "string \<Rightarrow> string \<Rightarrow> bool" where
  "matches w s \<longleftrightarrow> length w \<le> length s \<and> map lower (take (length w) s) = map lower w"

definition unsigned_value :: "string \<Rightarrow> double \<times> nat" where
  "unsigned_value s =
     (if matches ''infinity'' s then (d_inf False, 8)
      else if matches ''inf'' s then (d_inf False, 3)
      else if matches ''nan'' s then
        (d_nan, let r = drop 3 s; w = takeWhile (\<lambda>c. is_digit c \<or> 97 \<le> lower c \<and> lower c \<le> 122 \<or> c = CHR ''_'') (tl r) in
           if r \<noteq> [] \<and> hd r = CHR ''('' \<and> drop (length w) (tl r) \<noteq> [] \<and> hd (drop (length w) (tl r)) = CHR '')'' then 5 + length w else 3)
      else case (if matches ''0x'' s then mantissa is_hex 16 112 2 4 (drop 2 s) else None) of
        Some (x, n) \<Rightarrow> (dbl x, 2 + n)
      | None \<Rightarrow> (case mantissa is_digit 10 101 10 1 s of Some (x, n) \<Rightarrow> (dbl x, n) | None \<Rightarrow> (0, 0)))"

text \<open>\<open>strtod s\<close> is the value and the number of characters consumed, 0 if there is no number.\<close>

definition strtod :: "string \<Rightarrow> double \<times> nat" where
  "strtod s =
     (let ws = takeWhile is_space s; r = drop (length ws) s;
          signed = (r \<noteq> [] \<and> (hd r = CHR ''-'' \<or> hd r = CHR ''+''));
          (x, n) = unsigned_value (if signed then tl r else r) in
      if n = 0 then (0, 0)
      else (if signed \<and> hd r = CHR ''-'' then - x else x, length ws + (if signed then 1 else 0) + n))"

definition parseDouble :: "string \<Rightarrow> double option" where
  "parseDouble s =
     (if 64 \<le> length s then None
      else let buf = takeWhile (\<lambda>c. c \<noteq> CHR 0x00) s; (x, n) = strtod buf in if n \<noteq> 0 then Some x else None)"


section \<open>The parser\<close>

definition typeFromString :: "string \<Rightarrow> CoinbaseMsgType" where
  "typeFromString s =
     (if s = ''subscriptions'' then MsgSubscriptions
      else if s = ''snapshot'' then MsgSnapshot
      else if s = ''l2update'' then MsgL2Update
      else if s = ''heartbeat'' then MsgHeartbeat
      else if s = ''error'' then MsgError
      else MsgUnknown)"

record 'v simdjson =
  sj_iterate :: "string \<Rightarrow> 'v option"
  sj_object :: "'v \<Rightarrow> 'v option"
  sj_field :: "'v \<Rightarrow> string \<Rightarrow> 'v option"
  sj_string :: "'v \<Rightarrow> string option"
  sj_array :: "'v \<Rightarrow> 'v list option"
  sj_uint64 :: "'v \<Rightarrow> u64 option"

text \<open>
  The loop over the items of a level; the fields of \<^verbatim>\<open>entry\<close> have no initial value in the code:
  it is the argument \<open>uninit\<close>.
\<close>

definition level_item :: "'v simdjson \<Rightarrow> 'v \<Rightarrow> nat \<times> CoinbasePriceLevel \<Rightarrow> nat \<times> CoinbasePriceLevel" where
  "level_item api item st = (case st of (slot, entry) \<Rightarrow>
     case sj_string api item of None \<Rightarrow> st
     | Some sv \<Rightarrow> (case parseDouble sv of None \<Rightarrow> st
       | Some v \<Rightarrow> (slot + 1, if slot = 0 then entry\<lparr>lv_price := v\<rparr> else if slot = 1 then entry\<lparr>lv_qty := v\<rparr> else entry)))"

definition read_level :: "'v simdjson \<Rightarrow> CoinbasePriceLevel \<Rightarrow> 'v \<Rightarrow> CoinbasePriceLevel option" where
  "read_level api uninit lvl = (case sj_array api lvl of None \<Rightarrow> None
     | Some items \<Rightarrow> (case fold (level_item api) items (0, uninit) of (slot, entry) \<Rightarrow> if 2 \<le> slot then Some entry else None))"

definition change_item :: "'v simdjson \<Rightarrow> 'v \<Rightarrow> nat \<times> CoinbaseChange \<Rightarrow> nat \<times> CoinbaseChange" where
  "change_item api item st = (case st of (slot, cg) \<Rightarrow>
     case sj_string api item of None \<Rightarrow> st
     | Some sv \<Rightarrow>
         if slot = 0 then (slot + 1, cg\<lparr>ch_side := (if sv = ''buy'' then Bid else Ask)\<rparr>)
         else (case parseDouble sv of None \<Rightarrow> st
           | Some v \<Rightarrow> (slot + 1, if slot = 1 then cg\<lparr>ch_price := v\<rparr> else if slot = 2 then cg\<lparr>ch_qty := v\<rparr> else cg)))"

definition read_change :: "'v simdjson \<Rightarrow> 'v \<Rightarrow> CoinbaseChange option" where
  "read_change api ch = (case sj_array api ch of None \<Rightarrow> None
     | Some items \<Rightarrow>
        (case fold (change_item api) items (0, \<lparr>ch_side = Bid, ch_price = 0, ch_qty = 0\<rparr>) of (slot, cg) \<Rightarrow> if 3 \<le> slot then Some cg else None))"

text \<open>The rows of an array field; a field that is missing or no array has none.\<close>

definition read_rows :: "'v simdjson \<Rightarrow> ('v \<Rightarrow> 'a option) \<Rightarrow> 'v \<Rightarrow> string \<Rightarrow> 'a list" where
  "read_rows api f obj key = (case Option.bind (sj_field api obj key) (sj_array api) of None \<Rightarrow> [] | Some rows \<Rightarrow> List.map_filter f rows)"

definition parse :: "'v simdjson \<Rightarrow> CoinbasePriceLevel \<Rightarrow> string \<Rightarrow> CoinbaseMessage \<Rightarrow> Error \<times> CoinbaseMessage" where
  "parse api uninit jsonText out0 =
     (let out = out0\<lparr>m_bids := [], m_asks := [], m_changes := [], m_product_id := [], m_error_message := [], m_sequence := 0,
                     m_type := MsgUnknown\<rparr> in
      case sj_iterate api jsonText of None \<Rightarrow> (ParseMalformedJson, out)
      | Some doc \<Rightarrow> (case sj_object api doc of None \<Rightarrow> (ParseMalformedJson, out)
        | Some obj \<Rightarrow> (case Option.bind (sj_field api obj ''type'') (sj_string api) of None \<Rightarrow> (ParseUnexpectedShape, out)
          | Some typeStr \<Rightarrow>
            let out1 = out\<lparr>m_type := typeFromString typeStr\<rparr>;
                out2 = (case Option.bind (sj_field api obj ''product_id'') (sj_string api) of None \<Rightarrow> out1
                        | Some productId \<Rightarrow> out1\<lparr>m_product_id := productId\<rparr>);
                out3 = (case m_type out2 of
                   MsgSnapshot \<Rightarrow> out2\<lparr>m_bids := read_rows api (read_level api uninit) obj ''bids'',
                                        m_asks := read_rows api (read_level api uninit) obj ''asks''\<rparr>
                 | MsgL2Update \<Rightarrow> out2\<lparr>m_changes := read_rows api (read_change api) obj ''changes''\<rparr>
                 | MsgHeartbeat \<Rightarrow> (case Option.bind (sj_field api obj ''sequence'') (sj_uint64 api) of None \<Rightarrow> out2
                     | Some seq \<Rightarrow> out2\<lparr>m_sequence := seq\<rparr>)
                 | MsgError \<Rightarrow> (case Option.bind (sj_field api obj ''message'') (sj_string api) of None \<Rightarrow> out2
                     | Some msg \<Rightarrow> out2\<lparr>m_error_message := msg\<rparr>)
                 | _ \<Rightarrow> out2)
            in (Ok, out3))))"

section \<open>What a row means\<close>

text \<open>
  A level is given by the first two items that are strings with a number; a change by the first
  string and the first two later strings with a number.
\<close>

definition level_of :: "'v simdjson \<Rightarrow> 'v list \<Rightarrow> CoinbasePriceLevel option" where
  "level_of api items = (case List.map_filter (\<lambda>i. Option.bind (sj_string api i) parseDouble) items of
     p # q # _ \<Rightarrow> Some \<lparr>lv_price = p, lv_qty = q\<rparr> | _ \<Rightarrow> None)"

definition change_of :: "'v simdjson \<Rightarrow> 'v list \<Rightarrow> CoinbaseChange option" where
  "change_of api items = (case List.map_filter (sj_string api) items of [] \<Rightarrow> None
     | s # rest \<Rightarrow> (case List.map_filter parseDouble rest of
         p # q # _ \<Rightarrow> Some \<lparr>ch_side = (if s = ''buy'' then Bid else Ask), ch_price = p, ch_qty = q\<rparr> | _ \<Rightarrow> None))"

lemma map_filter_Cons: "List.map_filter f (x # xs) = (case f x of None \<Rightarrow> List.map_filter f xs | Some y \<Rightarrow> y # List.map_filter f xs)"
  by (simp add: map_filter_def split: option.split)

lemma map_filter_Nil [simp]: "List.map_filter f [] = []"
  by (simp add: map_filter_def)

lemma level_loop:
  "fold (level_item api) items (slot, e) =
     (let vs = List.map_filter (\<lambda>i. Option.bind (sj_string api i) parseDouble) items in
      (slot + length vs,
       case slot of 0 \<Rightarrow> (case vs of [] \<Rightarrow> e | [p] \<Rightarrow> e\<lparr>lv_price := p\<rparr> | p # q # _ \<Rightarrow> e\<lparr>lv_price := p, lv_qty := q\<rparr>)
       | Suc 0 \<Rightarrow> (case vs of [] \<Rightarrow> e | q # _ \<Rightarrow> e\<lparr>lv_qty := q\<rparr>)
       | _ \<Rightarrow> e))"
  by (induction items arbitrary: slot e)
    (auto simp: level_item_def map_filter_Cons Let_def split: nat.splits option.splits list.splits)

lemma change_loop_tail:
  "0 < slot \<Longrightarrow> fold (change_item api) items (slot, e) =
     (let vs = List.map_filter parseDouble (List.map_filter (sj_string api) items) in
      (slot + length vs,
       if slot = 1 then (case vs of [] \<Rightarrow> e | [p] \<Rightarrow> e\<lparr>ch_price := p\<rparr> | p # q # _ \<Rightarrow> e\<lparr>ch_price := p, ch_qty := q\<rparr>)
       else if slot = 2 then (case vs of [] \<Rightarrow> e | q # _ \<Rightarrow> e\<lparr>ch_qty := q\<rparr>)
       else e))"
  by (induction items arbitrary: slot e)
    (auto simp: change_item_def map_filter_Cons Let_def split: option.splits list.splits)

lemma read_level_spec: "read_level api uninit lvl = Option.bind (sj_array api lvl) (level_of api)"
  by (cases "sj_array api lvl") (auto simp: read_level_def level_loop level_of_def Let_def split: list.splits)

lemma change_loop:
  "(case fold (change_item api) items (0, e) of (slot, cg) \<Rightarrow> if 3 \<le> slot then Some cg else None) =
     map_option (\<lambda>c. e\<lparr>ch_side := ch_side c, ch_price := ch_price c, ch_qty := ch_qty c\<rparr>) (change_of api items)"
proof (induction items arbitrary: e)
  case (Cons i items)
  show ?case
  proof (cases "sj_string api i")
    case (Some s)
    then have "change_item api i (0, e) = (1, e\<lparr>ch_side := (if s = ''buy'' then Bid else Ask)\<rparr>)" by (simp add: change_item_def)
    then show ?thesis using Some
      by (auto simp: change_loop_tail change_of_def map_filter_Cons Let_def split: list.splits)
  qed (use Cons in \<open>simp add: change_item_def change_of_def map_filter_Cons\<close>)
qed (simp add: change_of_def)

lemma read_change_spec: "read_change api ch = Option.bind (sj_array api ch) (change_of api)"
proof (cases "sj_array api ch")
  case (Some items)
  have "map_option (\<lambda>c. \<lparr>ch_side = ch_side c, ch_price = ch_price c, ch_qty = ch_qty c\<rparr>) x = x" for x :: "CoinbaseChange option"
    by (cases x) simp_all
  then show ?thesis using change_loop[of api items "\<lparr>ch_side = Bid, ch_price = 0, ch_qty = 0\<rparr>"] Some
    by (simp add: read_change_def)
qed (simp add: read_change_def)


section \<open>Decimal numbers\<close>

lemma takeWhile_digits: "list_all P xs \<Longrightarrow> ys = [] \<or> \<not> P (hd ys) \<Longrightarrow> takeWhile P (xs @ ys) = xs"
  by (induction xs) (auto simp: takeWhile_eq_Nil_iff)

lemma digit_facts:
  assumes "is_digit c" shows "\<not> is_space c" "c \<noteq> CHR ''-''" "c \<noteq> CHR ''+''" "c \<noteq> CHR 0x00" "c \<noteq> CHR ''.''" "lower c = char_nat c"
  using assms by (auto simp: is_digit_def is_space_def lower_def char_nat_def)

lemma mantissa_decimal:
  assumes "list_all is_digit ds" "list_all is_digit fs" "ds \<noteq> []"
  shows "mantissa is_digit 10 101 10 1 (ds @ ''.'' @ fs) =
    Some (of_nat (number_of 10 (ds @ fs)) / 10 ^ length fs, length ds + 1 + length fs)"
proof -
  have d: "takeWhile is_digit (ds @ ''.'' @ fs) = ds"
    using assms(1) by (intro takeWhile_digits) (simp_all add: is_digit_def char_nat_def)
  have f: "takeWhile is_digit fs = fs" using takeWhile_digits[of is_digit fs "[]"] assms(2) by simp
  have e: "exponent 101 [] = (0, 0)" by (simp add: exponent_def)
  have "power_int (10 :: rat) (0 - 1 * int (length fs)) = 1 / 10 ^ length fs" by (simp add: power_int_minus divide_inverse)
  then show ?thesis unfolding mantissa_def Let_def d using f e assms(3) by (simp del: takeWhile_eq_all_conv)
qed

lemma unsigned_decimal:
  assumes "list_all is_digit ds" "list_all is_digit fs" "ds \<noteq> []"
  shows "unsigned_value (ds @ ''.'' @ fs) = (dbl (of_nat (number_of 10 (ds @ fs)) / 10 ^ length fs), length ds + 1 + length fs)"
proof -
  obtain c ds' where c: "ds = c # ds'" "is_digit c" using assms(1,3) by (cases ds) auto
  have l: "lower c \<le> 57" using c(2) digit_facts(6)[OF c(2)] by (simp add: is_digit_def)
  have w: "\<not> matches (x # xs) (ds @ r)" if "57 < lower x" for x xs r using that l c(1) by (auto simp: matches_def)
  have "lower CHR ''i'' = 105" "lower CHR ''n'' = 110" "lower CHR ''x'' = 120" "lower CHR ''.'' = 46" by (simp_all add: lower_def char_nat_def)
  then have n: "\<not> matches ''infinity'' (ds @ r)" "\<not> matches ''inf'' (ds @ r)" "\<not> matches ''nan'' (ds @ r)" for r by (simp_all add: w)
  have "\<not> matches ''0x'' (ds @ ''.'' @ fs)"
  proof (cases ds')
    case (Cons c' ds'')
    then have "lower c' \<le> 57" using assms(1) c(1) digit_facts(6)[of c'] by (simp add: is_digit_def)
    then show ?thesis using c(1) Cons \<open>lower CHR ''x'' = 120\<close> by (simp add: matches_def)
  qed (use c(1) \<open>lower CHR ''x'' = 120\<close> \<open>lower CHR ''.'' = 46\<close> in \<open>simp add: matches_def\<close>)
  then show ?thesis unfolding unsigned_value_def using n[of "''.'' @ fs"] mantissa_decimal[OF assms] by simp
qed

lemma parse_decimal:
  assumes "list_all is_digit ds" "list_all is_digit fs" "ds \<noteq> []" "length ds + length fs < 63"
  shows "parseDouble (ds @ ''.'' @ fs) = Some (dbl (of_nat (number_of 10 (ds @ fs)) / 10 ^ length fs))"
proof -
  obtain c ds' where c: "ds = c # ds'" "is_digit c" using assms(1,3) by (cases ds) auto
  have nz: "takeWhile (\<lambda>c. c \<noteq> CHR 0x00) (ds @ ''.'' @ fs) = ds @ ''.'' @ fs"
    using assms(1,2) digit_facts(4) by (intro takeWhile_eq_all_conv[THEN iffD2]) (auto simp: list_all_iff)
  have "strtod (ds @ ''.'' @ fs) = unsigned_value (ds @ ''.'' @ fs)"
    using digit_facts[OF c(2)] unsigned_decimal[OF assms(1-3)] by (simp add: strtod_def c(1) Let_def)
  then show ?thesis using assms(4) nz unsigned_decimal[OF assms(1-3)] by (simp add: parseDouble_def Let_def del: takeWhile_eq_all_conv)
qed


section \<open>Properties of the parser\<close>

definition row_list :: "'v simdjson \<Rightarrow> 'v \<Rightarrow> string \<Rightarrow> ('v list \<Rightarrow> 'a option) \<Rightarrow> 'a list" where
  "row_list api obj key f = (case Option.bind (sj_field api obj key) (sj_array api) of None \<Rightarrow> []
     | Some rows \<Rightarrow> List.map_filter (\<lambda>r. Option.bind (sj_array api r) f) rows)"

lemma rows_spec:
  "read_rows api (read_level api uninit) obj key = row_list api obj key (level_of api)"
  "read_rows api (read_change api) obj key = row_list api obj key (change_of api)"
  by (simp_all add: read_rows_def row_list_def read_level_spec[abs_def] read_change_spec[abs_def])

definition empty_message :: CoinbaseMessage where
  "empty_message = \<lparr>m_type = MsgUnknown, m_product_id = [], m_bids = [], m_asks = [], m_changes = [], m_sequence = 0, m_error_message = []\<rparr>"

lemma parse_forgets: "parse api uninit js buf = parse api uninit' js buf'"
proof -
  have "b\<lparr>m_bids := [], m_asks := [], m_changes := [], m_product_id := [], m_error_message := [], m_sequence := 0, m_type := MsgUnknown\<rparr> =
      empty_message" for b :: CoinbaseMessage by (cases b) (simp add: empty_message_def)
  then show ?thesis unfolding parse_def rows_spec by simp
qed

text \<open>
  C21. What parsing returns: the errors of malformed text and of a missing type; otherwise a message of
  its type whose rows are, in order, the ones that have the shape of a level (two numbers) or of a
  change (a side and two numbers). Nothing of the previous message that the buffer held remains,
  and no value that was never initialised is returned.
\<close>

theorem parse_result:
  shows "parse api uninit js buf = parse api uninit' js buf' \<and>
    (Option.bind (sj_iterate api js) (sj_object api) = None \<longrightarrow> fst (parse api uninit js buf) = ParseMalformedJson) \<and>
    (\<forall>obj. Option.bind (sj_iterate api js) (sj_object api) = Some obj \<longrightarrow>
       (case Option.bind (sj_field api obj ''type'') (sj_string api) of
          None \<Rightarrow> fst (parse api uninit js buf) = ParseUnexpectedShape
        | Some ty \<Rightarrow> fst (parse api uninit js buf) = Ok \<and> m_type (snd (parse api uninit js buf)) = typeFromString ty \<and>
            m_bids (snd (parse api uninit js buf)) = (if typeFromString ty = MsgSnapshot then row_list api obj ''bids'' (level_of api) else []) \<and>
            m_asks (snd (parse api uninit js buf)) = (if typeFromString ty = MsgSnapshot then row_list api obj ''asks'' (level_of api) else []) \<and>
            m_changes (snd (parse api uninit js buf)) = (if typeFromString ty = MsgL2Update then row_list api obj ''changes'' (change_of api) else [])))"
proof (intro conjI allI impI)
  show "parse api uninit js buf = parse api uninit' js buf'" by (rule parse_forgets)
  show "fst (parse api uninit js buf) = ParseMalformedJson" if "Option.bind (sj_iterate api js) (sj_object api) = None"
    using that by (auto simp: parse_def Let_def split: option.splits)
  fix obj assume "Option.bind (sj_iterate api js) (sj_object api) = Some obj"
  then obtain doc where d: "sj_iterate api js = Some doc" "sj_object api doc = Some obj" by (cases "sj_iterate api js") auto
  show "case Option.bind (sj_field api obj ''type'') (sj_string api) of
          None \<Rightarrow> fst (parse api uninit js buf) = ParseUnexpectedShape
        | Some ty \<Rightarrow> fst (parse api uninit js buf) = Ok \<and> m_type (snd (parse api uninit js buf)) = typeFromString ty \<and>
            m_bids (snd (parse api uninit js buf)) = (if typeFromString ty = MsgSnapshot then row_list api obj ''bids'' (level_of api) else []) \<and>
            m_asks (snd (parse api uninit js buf)) = (if typeFromString ty = MsgSnapshot then row_list api obj ''asks'' (level_of api) else []) \<and>
            m_changes (snd (parse api uninit js buf)) = (if typeFromString ty = MsgL2Update then row_list api obj ''changes'' (change_of api) else [])"
  proof (cases "Option.bind (sj_field api obj ''type'') (sj_string api)")
    case (Some ty)
    show ?thesis
      by (cases "typeFromString ty") (simp_all add: parse_def d Some Let_def rows_spec split: option.split)
  qed (simp add: parse_def d Let_def)
qed

datatype sample_value = JString string | JArray "sample_value list" | JObject "(string \<times> sample_value) list"

definition sample_json :: "sample_value \<Rightarrow> sample_value simdjson" where
  "sample_json doc = \<lparr>sj_iterate = \<lambda>_. Some doc, sj_object = \<lambda>v. (case v of JObject _ \<Rightarrow> Some v | _ \<Rightarrow> None),
     sj_field = \<lambda>v k. (case v of JObject fs \<Rightarrow> map_of fs k | _ \<Rightarrow> None), sj_string = \<lambda>v. (case v of JString s \<Rightarrow> Some s | _ \<Rightarrow> None),
     sj_array = \<lambda>v. (case v of JArray vs \<Rightarrow> Some vs | _ \<Rightarrow> None), sj_uint64 = \<lambda>_. None\<rparr>"

definition sample_doc :: sample_value where
  "sample_doc = JObject [(''type'', JString ''l2update''),
     (''changes'', JArray [JArray [JString ''buy'', JString ''101.25'', JString ''2.0''], JString ''x''])]"

theorem parse_result_witness:
  "m_changes (snd (parse (sample_json sample_doc) \<lparr>lv_price = 0, lv_qty = 0\<rparr> [] empty_message)) = [\<lparr>ch_side = Bid, ch_price = dbl (405 / 4), ch_qty = dbl 2\<rparr>]"
proof -
  have r: "parseDouble ''101.25'' = Some (dbl (405 / 4))" "parseDouble ''2.0'' = Some (dbl 2)"
    using parse_decimal[of "''101''" "''25''"] parse_decimal[of "''2''" "''0''"]
    by (simp_all add: is_digit_def char_nat_def number_of_def digit_val_def)
  show ?thesis
    using parse_result[of "sample_json sample_doc" "\<lparr>lv_price = 0, lv_qty = 0\<rparr>" "[]" empty_message "\<lparr>lv_price = 0, lv_qty = 0\<rparr>" empty_message] r
    by (simp add: sample_json_def sample_doc_def typeFromString_def row_list_def change_of_def map_filter_Cons)
qed

end
