(* ===== verification/Coinbase_Auth.thy ===== *)
theory Coinbase_Auth
  imports Runtime
begin

text \<open>
  Credentials and the subscription message (\<^verbatim>\<open>md/coinbase_auth.hpp\<close>, \<^verbatim>\<open>md/coinbase_auth.cpp\<close> and
  \<^verbatim>\<open>buildSubscribeMessage\<close> of \<^verbatim>\<open>md/coinbase_ws_client.cpp\<close>). Byte strings are HOL strings. OpenSSL is the
  record \<open>evp\<close>: decoding of a base64 block (\<open>None\<close> for a negative result), its encoding, and the
  HMAC with SHA-256. Each takes its input and the number of bytes to read of it, an \<^verbatim>\<open>int\<close> to which the
  source casts the size, so that it wraps for an input of \<open>2 ^ 31\<close> bytes. \<^verbatim>\<open>None\<close> as a result of the functions here means that the process ends: an
  exception leaves a \<^verbatim>\<open>noexcept\<close> function.
\<close>

definition int_size :: "string \<Rightarrow> int" where
  "int_size s = sint (of_nat (length s) :: 32 word)"

record evp =
  DecodeBlock :: "string \<Rightarrow> int \<Rightarrow> string option"
  EncodeBlock :: "string \<Rightarrow> int \<Rightarrow> string option"
  HMAC :: "string \<Rightarrow> int \<Rightarrow> string \<Rightarrow> string"

record CoinbaseAuth =
  a_key :: string
  a_secret_b64 :: string
  a_passphrase :: string

definition hasCredentials :: "CoinbaseAuth \<Rightarrow> bool" where
  "hasCredentials a \<longleftrightarrow> a_key a \<noteq> [] \<and> a_secret_b64 a \<noteq> []"

text \<open>
  The buffer holds the decoded bytes followed by zeros; it is resized to the number of bytes less
  the trailing \<^verbatim>\<open>=\<close> signs, a difference of type \<^verbatim>\<open>size_t\<close>. Below zero it wraps to a size that no string
  can have.
\<close>

definition padding :: "string \<Rightarrow> nat" where
  "padding s = length (takeWhile (\<lambda>c. c = CHR ''='') (rev s))"

definition base64Decode :: "evp \<Rightarrow> string \<Rightarrow> string option" where
  "base64Decode ssl s = (case DecodeBlock ssl s (int_size s) of None \<Rightarrow> Some []
     | Some bytes \<Rightarrow>
         let buf = bytes @ replicate ((length s + 3) div 4 * 3 - length bytes) CHR 0x00;
             n = (of_nat (length bytes) :: u64) - of_nat (padding s)
         in if unat n \<le> length buf then Some (take (unat n) buf) else None)"

definition base64Encode :: "evp \<Rightarrow> string \<Rightarrow> string" where
  "base64Encode ssl bytes = (case EncodeBlock ssl bytes (int_size bytes) of None \<Rightarrow> [] | Some t \<Rightarrow> t)"

definition VERIFY_PATH :: string where
  "VERIFY_PATH = ''GET/users/self/verify''"

definition sign :: "evp \<Rightarrow> CoinbaseAuth \<Rightarrow> string \<Rightarrow> string option" where
  "sign ssl a timestamp =
     (if \<not> hasCredentials a then Some []
      else case base64Decode ssl (a_secret_b64 a) of None \<Rightarrow> None
        | Some secret \<Rightarrow> if secret = [] then Some []
            else Some (base64Encode ssl (HMAC ssl secret (int_size secret) (timestamp @ VERIFY_PATH))))"

definition fromEnv :: "(string \<rightharpoonup> string) \<Rightarrow> CoinbaseAuth" where
  "fromEnv getenv = (case (getenv ''COINBASE_API_KEY'', getenv ''COINBASE_API_SECRET'') of
     (Some k, Some s) \<Rightarrow> \<lparr>a_key = k, a_secret_b64 = s,
        a_passphrase = (case getenv ''COINBASE_API_PASSPHRASE'' of None \<Rightarrow> [] | Some p \<Rightarrow> p)\<rparr>
   | _ \<Rightarrow> \<lparr>a_key = [], a_secret_b64 = [], a_passphrase = []\<rparr>)"

text \<open>The JSON body, as a map of its fields; the serialisation is the library's.\<close>

datatype field = FString string | FStrings "string list"

definition subscribe_body :: "evp \<Rightarrow> CoinbaseWSConfig \<Rightarrow> CoinbaseAuth \<Rightarrow> string \<Rightarrow> (string \<rightharpoonup> field) option" where
  "subscribe_body ssl c a ts =
     (let b = [''type'' \<mapsto> FString ''subscribe'', ''product_ids'' \<mapsto> FStrings (ws_product_ids c),
               ''channels'' \<mapsto> FStrings [ws_channel c, ''heartbeat'']] in
      if hasCredentials a
      then map_option (\<lambda>sg. b(''signature'' \<mapsto> FString sg, ''key'' \<mapsto> FString (a_key a),
                              ''passphrase'' \<mapsto> FString (a_passphrase a), ''timestamp'' \<mapsto> FString ts)) (sign ssl a ts)
      else Some b)"

definition buildSubscribeMessage :: "evp \<Rightarrow> ((string \<rightharpoonup> field) \<Rightarrow> string) \<Rightarrow> CoinbaseWSConfig \<Rightarrow> CoinbaseAuth \<Rightarrow> string \<Rightarrow> string option" where
  "buildSubscribeMessage ssl dump c a ts = map_option dump (subscribe_body ssl c a ts)"

section \<open>What decoding gives\<close>

lemma padding_le: "padding s \<le> length s"
  unfolding padding_def by (metis length_rev length_takeWhile_le)

lemma unat_diff_u64:
  "p \<le> n \<Longrightarrow> n < 2 ^ 64 \<Longrightarrow> unat ((of_nat n :: u64) - of_nat p) = n - p"
  by (simp add: unat_u64_of_nat unat_sub word_le_nat_alt)

lemma decode_some:
  assumes "DecodeBlock ssl s (int_size s) = Some bytes" "padding s \<le> length bytes" "length bytes < 2 ^ 64"
  shows "base64Decode ssl s = Some (take (length bytes - padding s) bytes)"
  using assms by (simp add: base64Decode_def unat_diff_u64)

lemma decode_wraps:
  assumes "DecodeBlock ssl s (int_size s) = Some bytes" "length bytes < padding s" "length s < 2 ^ 62" "length bytes \<le> length s"
  shows "base64Decode ssl s = None"
proof -
  have p: "padding s < 2 ^ 62" using padding_le[of s] assms(3) by simp
  define d where "d = padding s - length bytes"
  have d: "0 < d" "d < 2 ^ 62" using assms(2) p by (simp_all add: d_def)
  have "(of_nat (length bytes) :: u64) - of_nat (padding s) = - of_nat d" using assms(2) by (simp add: d_def of_nat_diff)
  moreover have "(- of_nat d :: u64) = of_nat (2 ^ 64 - d)" using d by (subst of_nat_diff) simp_all
  moreover have "unat (of_nat (2 ^ 64 - d) :: u64) = 2 ^ 64 - d" using d by (intro unat_u64_of_nat) simp
  ultimately have "unat ((of_nat (length bytes) :: u64) - of_nat (padding s)) = 2 ^ 64 - d" by simp
  moreover have "(length s + 3) div 4 * 3 + length bytes < 2 ^ 63" using assms(3,4) by simp
  ultimately show ?thesis using d by (simp add: base64Decode_def assms(1) Let_def)
qed

section \<open>Properties of the credentials\<close>

text \<open>
  C37. The signature. A secret whose base64 block decodes, with the padding at its end shown as zero
  bytes, gives the key without these bytes, and the signature is the encoded HMAC of the timestamp
  and the path under that key. Without credentials, or with a secret that does not decode, the
  signature is empty.
\<close>

theorem sign_result:
  assumes "length (a_secret_b64 a) < 2 ^ 62" "length bytes \<le> length (a_secret_b64 a)"
  shows "(DecodeBlock ssl (a_secret_b64 a) (int_size (a_secret_b64 a)) = Some (bytes @ replicate (padding (a_secret_b64 a)) CHR 0x00) \<longrightarrow> hasCredentials a \<longrightarrow> bytes \<noteq> [] \<longrightarrow>
      sign ssl a ts = Some (base64Encode ssl (HMAC ssl bytes (int_size bytes) (ts @ VERIFY_PATH)))) \<and>
    (\<not> hasCredentials a \<or> DecodeBlock ssl (a_secret_b64 a) (int_size (a_secret_b64 a)) = None \<longrightarrow> sign ssl a ts = Some [])"
proof (intro conjI impI)
  assume d: "DecodeBlock ssl (a_secret_b64 a) (int_size (a_secret_b64 a)) = Some (bytes @ replicate (padding (a_secret_b64 a)) CHR 0x00)" "hasCredentials a" "bytes \<noteq> []"
  have "length bytes + padding (a_secret_b64 a) < 2 ^ 64" using assms padding_le[of "a_secret_b64 a"] by simp
  then have "base64Decode ssl (a_secret_b64 a) = Some bytes" using decode_some[OF d(1)] by simp
  then show "sign ssl a ts = Some (base64Encode ssl (HMAC ssl bytes (int_size bytes) (ts @ VERIFY_PATH)))" using d by (simp add: sign_def)
next
  assume "\<not> hasCredentials a \<or> DecodeBlock ssl (a_secret_b64 a) (int_size (a_secret_b64 a)) = None"
  then show "sign ssl a ts = Some []" by (auto simp: sign_def base64Decode_def)
qed

text \<open>
  The padding is counted on the raw secret, but decoding trims trailing white space. If a secret
  with padding is followed by a line end, the zero bytes stay in the key, so the HMAC is taken
  under a different key. A block of padding signs alone makes the size wrap below zero, which
  ends the process.
\<close>

theorem padding_miscounted:
  assumes "length s < 2 ^ 61" "DecodeBlock ssl (s @ [CHR 0x0A]) (int_size (s @ [CHR 0x0A])) = Some bytes" "length bytes \<le> length s"
  shows "base64Decode ssl (s @ [CHR 0x0A]) = Some bytes \<and>
    (DecodeBlock ssl ''===='' (int_size ''===='') = Some (replicate 3 CHR 0x00) \<longrightarrow> base64Decode ssl ''===='' = None)"
proof
  have "padding (s @ [CHR 0x0A]) = 0" by (simp add: padding_def)
  then show "base64Decode ssl (s @ [CHR 0x0A]) = Some bytes" using decode_some[OF assms(2)] assms(1,3) by simp
  have "padding ''===='' = 4" by (simp add: padding_def)
  then show "DecodeBlock ssl ''===='' (int_size ''===='') = Some (replicate 3 CHR 0x00) \<longrightarrow> base64Decode ssl ''===='' = None"
    using decode_wraps[of ssl "''====''" "replicate 3 CHR 0x00"] by simp
qed

definition sample_evp :: evp where
  "sample_evp = \<lparr>DecodeBlock = \<lambda>s n. (if take 4 s = ''YWI='' then Some [CHR ''a'', CHR ''b'', CHR 0x00]
        else if s = ''===='' then Some (replicate 3 CHR 0x00) else None),
     EncodeBlock = \<lambda>s n. Some s, HMAC = \<lambda>k n m. k @ m\<rparr>"

definition sample_auth :: CoinbaseAuth where
  "sample_auth = \<lparr>a_key = ''k'', a_secret_b64 = ''YWI='', a_passphrase = []\<rparr>"

theorem sign_result_witness: "sign sample_evp sample_auth ''7'' = Some ''ab7GET/users/self/verify''"
  using sign_result[of sample_auth "''ab''" sample_evp "''7''"]
  by (simp add: sample_auth_def sample_evp_def padding_def hasCredentials_def base64Encode_def VERIFY_PATH_def)

theorem padding_miscounted_witness:
  "base64Decode sample_evp (''YWI='' @ [CHR 0x0A]) = Some [CHR ''a'', CHR ''b'', CHR 0x00] \<and> base64Decode sample_evp ''===='' = None"
  using padding_miscounted[of "''YWI=''" sample_evp "[CHR ''a'', CHR ''b'', CHR 0x00]"] by (simp add: sample_evp_def)

end
