(* ===== verification/Logger.thy ===== *)
theory Logger
  imports Spsc_Queue Transition_Systems
begin

text \<open>
  The logger (\<^verbatim>\<open>include/trading/core/logger.hpp\<close>, \<^verbatim>\<open>src/core/logger.cpp\<close>): any thread may log; a
  producer claims a position by compare-and-swap on the head, writes the record of its slot and
  stamps it ready; one thread drains the ring in order. Each access to shared state is one step.
  The counters are 64-bit words; the relation covers runs of fewer than \<open>2 ^ 64\<close> records.
\<close>

section \<open>Records\<close>

definition RING_SIZE :: nat where "RING_SIZE = 4096"

definition MAX_LINE :: nat where "MAX_LINE = 512"

datatype LogLevel = LDebug | LInfo | LWarn | LError

fun level_name :: "LogLevel \<Rightarrow> string" where
  "level_name LDebug = ''DEBUG''"
| "level_name LInfo = ''INFO''"
| "level_name LWarn = ''WARN''"
| "level_name LError = ''ERROR''"

record log_record =
  lr_level :: LogLevel
  lr_wallNs :: int
  lr_text :: string

record log_slot =
  ready :: u64
  entry :: log_record

definition make_record :: "LogLevel \<Rightarrow> int \<Rightarrow> string \<Rightarrow> log_record" where
  "make_record level wallNs line = \<lparr>lr_level = level, lr_wallNs = wallNs, lr_text = take (min (length line) (MAX_LINE - 1)) line\<rparr>"

section \<open>The threads\<close>

text \<open>
  The points of \<^verbatim>\<open>log\<close> between its accesses to shared state: the head has been loaded, the room has
  been checked, the position is claimed, the record is written. The wall clock is read after the
  claim; the claim fixes the reading that is to come.
\<close>

datatype log_pc = LIdle | LLoaded LogLevel string u64 | LChecked LogLevel string u64 | LClaimed log_record u64 | LWritten u64

text \<open>
  The points of \<^verbatim>\<open>drainLoop\<close>: between rounds, after loading the head, in the inner loop with the
  local \<^verbatim>\<open>tail\<close> and \<^verbatim>\<open>head\<close>, before printing, and finished.
\<close>

datatype drain_pc = DIdle | DHead u64 | DLoop u64 u64 | DPrint u64 u64 | DDone

record logsys =
  ring :: "log_slot list"
  l_head :: u64
  l_tail :: u64
  l_dropped :: u64
  l_running :: bool
  procs :: "nat \<Rightarrow> log_pc"
  dpc :: drain_pc
  claims :: "log_record list"
  printed :: "log_record list"

definition log_start :: "nat \<Rightarrow> log_record \<Rightarrow> logsys" where
  "log_start n r = \<lparr>ring = replicate n \<lparr>ready = 0, entry = r\<rparr>, l_head = 0, l_tail = 0, l_dropped = 0, l_running = True,
     procs = \<lambda>_. LIdle, dpc = DIdle, claims = [], printed = []\<rparr>"

definition slot_at :: "nat \<Rightarrow> logsys \<Rightarrow> u64 \<Rightarrow> log_slot" where
  "slot_at n s w = ring s ! slot_of n w"

definition put_slot :: "nat \<Rightarrow> u64 \<Rightarrow> log_slot \<Rightarrow> logsys \<Rightarrow> logsys" where
  "put_slot n w x s = s\<lparr>ring := (ring s)[slot_of n w := x]\<rparr>"

definition set_pc :: "nat \<Rightarrow> log_pc \<Rightarrow> logsys \<Rightarrow> logsys" where
  "set_pc p c s = s\<lparr>procs := (procs s)(p := c)\<rparr>"

inductive log_step :: "nat \<Rightarrow> logsys \<Rightarrow> logsys \<Rightarrow> bool" for n :: nat where
  load: "procs s p = LIdle \<Longrightarrow> log_step n s (set_pc p (LLoaded lv line (l_head s)) s)"
| full: "procs s p = LLoaded lv line h \<Longrightarrow> of_nat n \<le> h - l_tail s \<Longrightarrow>
    log_step n s (set_pc p LIdle (s\<lparr>l_dropped := l_dropped s + 1\<rparr>))"
| room: "procs s p = LLoaded lv line h \<Longrightarrow> \<not> of_nat n \<le> h - l_tail s \<Longrightarrow> log_step n s (set_pc p (LChecked lv line h) s)"
| claim: "procs s p = LChecked lv line h \<Longrightarrow> l_head s = h \<Longrightarrow> unat h + n + 1 < 2 ^ 64 \<Longrightarrow>
    log_step n s (set_pc p (LClaimed (make_record lv ns line) h) (s\<lparr>l_head := h + 1, claims := claims s @ [make_record lv ns line]\<rparr>))"
| claim_fails: "procs s p = LChecked lv line h \<Longrightarrow> log_step n s (set_pc p (LLoaded lv line (l_head s)) s)"
| store_record: "procs s p = LClaimed r h \<Longrightarrow> log_step n s (set_pc p (LWritten h) (put_slot n h ((slot_at n s h)\<lparr>entry := r\<rparr>) s))"
| publish: "procs s p = LWritten h \<Longrightarrow> log_step n s (set_pc p LIdle (put_slot n h ((slot_at n s h)\<lparr>ready := h + 1\<rparr>) s))"
| drain_load: "dpc s = DIdle \<Longrightarrow> log_step n s (s\<lparr>dpc := DHead (l_head s)\<rparr>)"
| drain_empty: "dpc s = DHead h \<Longrightarrow> l_tail s = h \<Longrightarrow> log_step n s (s\<lparr>dpc := (if l_running s then DIdle else DDone)\<rparr>)"
| drain_enter: "dpc s = DHead h \<Longrightarrow> l_tail s \<noteq> h \<Longrightarrow> log_step n s (s\<lparr>dpc := DLoop (l_tail s) h\<rparr>)"
| drain_ready: "dpc s = DLoop t h \<Longrightarrow> t < h \<Longrightarrow> ready (slot_at n s t) = t + 1 \<Longrightarrow> log_step n s (s\<lparr>dpc := DPrint t h\<rparr>)"
| drain_print: "dpc s = DPrint t h \<Longrightarrow> log_step n s (s\<lparr>dpc := DLoop (t + 1) h, printed := printed s @ [entry (slot_at n s t)]\<rparr>)"
| drain_store: "dpc s = DLoop t h \<Longrightarrow> \<not> (t < h \<and> ready (slot_at n s t) = t + 1) \<Longrightarrow> log_step n s (s\<lparr>dpc := DIdle, l_tail := t\<rparr>)"
| stop: "log_step n s (s\<lparr>l_running := False\<rparr>)"

section \<open>The invariant\<close>

text \<open>The position a producer holds.\<close>

fun held :: "log_pc \<Rightarrow> u64 option" where
  "held (LClaimed r h) = Some h"
| "held (LWritten h) = Some h"
| "held _ = None"

fun producer_ok :: "nat \<Rightarrow> logsys \<Rightarrow> log_pc \<Rightarrow> bool" where
  "producer_ok n s (LChecked lv line h) \<longleftrightarrow> unat h < unat (l_tail s) + n"
| "producer_ok n s (LClaimed r h) \<longleftrightarrow> length (printed s) \<le> unat h \<and> unat h < length (claims s) \<and> claims s ! unat h = r \<and>
     ready (slot_at n s h) \<noteq> h + 1"
| "producer_ok n s (LWritten h) \<longleftrightarrow> length (printed s) \<le> unat h \<and> unat h < length (claims s) \<and>
     entry (slot_at n s h) = claims s ! unat h \<and> ready (slot_at n s h) \<noteq> h + 1"
| "producer_ok n s _ \<longleftrightarrow> True"

fun drain_ok :: "nat \<Rightarrow> logsys \<Rightarrow> drain_pc \<Rightarrow> bool" where
  "drain_ok n s (DHead h) \<longleftrightarrow> unat (l_tail s) = length (printed s) \<and> length (printed s) \<le> unat h \<and> unat h \<le> length (claims s)"
| "drain_ok n s (DLoop t h) \<longleftrightarrow> unat t = length (printed s) \<and> unat t \<le> unat h \<and> unat h \<le> length (claims s)"
| "drain_ok n s (DPrint t h) \<longleftrightarrow> unat t = length (printed s) \<and> unat t < unat h \<and> unat h \<le> length (claims s) \<and> ready (slot_at n s t) = t + 1"
| "drain_ok n s _ \<longleftrightarrow> unat (l_tail s) = length (printed s)"

definition log_inv :: "nat \<Rightarrow> logsys \<Rightarrow> bool" where
  "log_inv n s \<longleftrightarrow> queue_cap n \<and> length (ring s) = n \<and> unat (l_head s) = length (claims s) \<and> length (claims s) + n < 2 ^ 64 \<and>
     unat (l_tail s) \<le> length (printed s) \<and> length (printed s) \<le> length (claims s) \<and> length (claims s) \<le> unat (l_tail s) + n \<and>
     printed s = take (length (printed s)) (claims s) \<and>
     (\<forall>i. length (printed s) \<le> i \<and> i < length (claims s) \<and> ready (slot_at n s (of_nat i)) = of_nat i + 1 \<longrightarrow>
        entry (slot_at n s (of_nat i)) = claims s ! i) \<and>
     (\<forall>k < n. unat (ready (ring s ! k)) \<le> length (claims s)) \<and>
     (\<forall>p. producer_ok n s (procs s p)) \<and>
     (\<forall>p q h. p \<noteq> q \<and> held (procs s p) = Some h \<longrightarrow> held (procs s q) \<noteq> Some h) \<and>
     drain_ok n s (dpc s)"

lemma log_inv_start: assumes "queue_cap n" shows "log_inv n (log_start n r)"
proof -
  have "n < 2 ^ 64" using queue_cap_bounds[OF assms] by simp
  then show ?thesis using assms by (simp add: log_inv_def log_start_def)
qed

text \<open>Unprinted positions have different slots.\<close>

lemma slots_differ:
  assumes "log_inv n s" "length (printed s) \<le> unat a" "unat a < length (claims s)" "length (printed s) \<le> unat b" "unat b < length (claims s)" "a \<noteq> b"
  shows "slot_of n a \<noteq> slot_of n b"
proof -
  have c: "queue_cap n" "length (claims s) \<le> length (printed s) + n" using assms(1) by (auto simp: log_inv_def)
  have ne: "unat a \<noteq> unat b" using assms(6) by (simp add: word_unat_eq_iff)
  have "unat x mod n \<noteq> unat y mod n" if "unat x < unat y" "length (printed s) \<le> unat x" "unat y < length (claims s)" for x y :: u64
    using mod_ring_neq[of "unat x" "unat y" n 0] that c(2) by simp
  then show ?thesis using ne assms(2-5) unfolding slot_of_mod[OF c(1)] by (metis linorder_neq_iff)
qed

lemma set_pc_fields [simp]:
  "ring (set_pc p c s) = ring s" "l_head (set_pc p c s) = l_head s" "l_tail (set_pc p c s) = l_tail s" "l_dropped (set_pc p c s) = l_dropped s"
  "l_running (set_pc p c s) = l_running s" "dpc (set_pc p c s) = dpc s" "claims (set_pc p c s) = claims s" "printed (set_pc p c s) = printed s"
  "procs (set_pc p c s) = (procs s)(p := c)" "slot_at n (set_pc p c s) = slot_at n s"
  by (simp_all add: set_pc_def slot_at_def fun_eq_iff)

lemma put_slot_fields [simp]:
  "l_head (put_slot n w x s) = l_head s" "l_tail (put_slot n w x s) = l_tail s" "l_dropped (put_slot n w x s) = l_dropped s"
  "l_running (put_slot n w x s) = l_running s" "dpc (put_slot n w x s) = dpc s" "claims (put_slot n w x s) = claims s" "printed (put_slot n w x s) = printed s"
  "procs (put_slot n w x s) = procs s" "length (ring (put_slot n w x s)) = length (ring s)"
  by (simp_all add: put_slot_def)

lemma frame_ok [simp]:
  "producer_ok n (set_pc p c s) = producer_ok n s" "drain_ok n (set_pc p c s) = drain_ok n s"
proof -
  have "producer_ok n (set_pc p c s) x = producer_ok n s x" "drain_ok n (set_pc p c s) y = drain_ok n s y" for x y
    by (cases x; simp) (cases y; simp)
  then show "producer_ok n (set_pc p c s) = producer_ok n s" "drain_ok n (set_pc p c s) = drain_ok n s" by auto
qed

lemma slot_at_put:
  assumes "log_inv n s" shows "slot_at n (put_slot n w x s) v = (if slot_of n v = slot_of n w then x else slot_at n s v)"
proof -
  have "queue_cap n" "length (ring s) = n" using assms by (simp_all add: log_inv_def)
  then have "slot_of n w < length (ring s)" using queue_cap_bounds[of n] by (simp add: slot_of_mod)
  then show ?thesis by (simp add: slot_at_def put_slot_def)
qed

lemma producer_inv: "log_inv n s \<Longrightarrow> procs s p = c \<Longrightarrow> producer_ok n s c"
  by (auto simp: log_inv_def)

lemma drain_inv: "log_inv n s \<Longrightarrow> dpc s = c \<Longrightarrow> drain_ok n s c"
  by (auto simp: log_inv_def)

text \<open>A producer moves between points without holding a position.\<close>

lemma log_inv_move:
  assumes "log_inv n s" "held c = None" "producer_ok n s c" "held (procs s p) = None"
  shows "log_inv n (set_pc p c s)"
  using assms by (auto simp: log_inv_def)

lemma log_inv_dropped [simp]: "log_inv n (s\<lparr>l_dropped := d\<rparr>) = log_inv n s" "log_inv n (s\<lparr>l_running := b\<rparr>) = log_inv n s"
proof -
  have "slot_at n (s\<lparr>l_dropped := d\<rparr>) = slot_at n s" "slot_at n (s\<lparr>l_running := b\<rparr>) = slot_at n s" by (simp_all add: slot_at_def fun_eq_iff)
  moreover have "producer_ok n (s\<lparr>l_dropped := d\<rparr>) x = producer_ok n s x" "producer_ok n (s\<lparr>l_running := b\<rparr>) x = producer_ok n s x"
    "drain_ok n (s\<lparr>l_dropped := d\<rparr>) y = drain_ok n s y" "drain_ok n (s\<lparr>l_running := b\<rparr>) y = drain_ok n s y" for x y
    by (cases x; simp add: slot_at_def)+ (cases y; simp add: slot_at_def)+
  ultimately show "log_inv n (s\<lparr>l_dropped := d\<rparr>) = log_inv n s" "log_inv n (s\<lparr>l_running := b\<rparr>) = log_inv n s" by (simp_all add: log_inv_def)
qed

lemma room_bound:
  assumes "\<not> of_nat n \<le> h - t" "n < 2 ^ 64" shows "unat h < unat (t :: u64) + n"
proof (cases "t \<le> h")
  case True
  then have "unat (h - t) = unat h - unat t" by (simp add: unat_sub)
  moreover have "unat (h - t) < n" using assms by (simp add: word_le_nat_alt unat_u64_of_nat)
  ultimately show ?thesis by linarith
next
  case False
  then have "unat h < unat t" by (simp add: word_le_nat_alt)
  then show ?thesis by simp
qed

lemma log_inv_claim:
  assumes "log_inv n s" "procs s p = LChecked lv line h" "l_head s = h" "unat h + n + 1 < 2 ^ 64"
  shows "log_inv n (set_pc p (LClaimed r h) (s\<lparr>l_head := h + 1, claims := claims s @ [r]\<rparr>))"
proof -
  let ?s = "s\<lparr>l_head := h + 1, claims := claims s @ [r]\<rparr>"
  have i: "unat h = length (claims s)" "unat h < unat (l_tail s) + n" "length (printed s) \<le> length (claims s)" "queue_cap n" "length (ring s) = n"
    "\<forall>k < n. unat (ready (ring s ! k)) \<le> length (claims s)" "printed s = take (length (printed s)) (claims s)"
    using assms(1,3) producer_inv[OF assms(1,2)] by (simp_all add: log_inv_def)
  have u: "unat (h + 1) = length (claims s) + 1" using assms(4) i(1) unat_inc[of h] by simp
  have sl: "slot_at n ?s = slot_at n s" by (simp add: slot_at_def fun_eq_iff)
  have "slot_of n h < n" using queue_cap_bounds[OF i(4)] by (simp add: slot_of_mod[OF i(4)])
  then have "unat (ready (slot_at n s h)) \<le> length (claims s)" using i(6) by (simp add: slot_at_def)
  then have nr: "ready (slot_at n s h) \<noteq> h + 1" using u by auto
  have "h = of_nat (unat h)" by simp
  then have hh: "h = of_nat (length (claims s))" using i(1) by simp
  have ok: "producer_ok n ?s c" if "producer_ok n s c" for c using that sl i(3) by (cases c) (auto simp: nth_append)
  have dk: "drain_ok n ?s c" if "drain_ok n s c" for c using that sl by (cases c) auto
  have hq: "held (procs s q) \<noteq> Some h" for q
  proof
    assume "held (procs s q) = Some h"
    then have "unat h < length (claims s)" using producer_inv[OF assms(1), of q] by (cases "procs s q") auto
    then show False using i(1) by simp
  qed
  show ?thesis unfolding log_inv_def frame_ok set_pc_fields sl
  proof (intro conjI allI impI)
    show "producer_ok n ?s (((procs ?s)(p := LClaimed r h)) q)" for q
      using ok assms(1) i nr sl by (auto simp: log_inv_def nth_append)
    show "drain_ok n ?s (dpc ?s)" using dk assms(1) by (simp add: log_inv_def)
    show "held (((procs ?s)(p := LClaimed r h)) b) \<noteq> Some x" if "a \<noteq> b \<and> held (((procs ?s)(p := LClaimed r h)) a) = Some x" for a b x
      using that hq assms(1) by (auto simp: log_inv_def split: if_splits)
    show "entry (slot_at n s (of_nat j)) = claims ?s ! j"
      if "length (printed ?s) \<le> j \<and> j < length (claims ?s) \<and> ready (slot_at n s (of_nat j)) = of_nat j + 1" for j
      using that assms(1) nr hh by (cases "j = length (claims s)") (auto simp: log_inv_def nth_append)
  qed (use i u assms(1,4) in \<open>auto simp: log_inv_def\<close>)
qed

text \<open>A slot is written by the producer that holds its position.\<close>

lemma put_entry:
  assumes "log_inv n s" "held (procs s p) = Some h" "ready x = h + 1 \<longrightarrow> entry x = claims s ! unat h"
    "length (printed s) \<le> j" "j < length (claims s)" "ready (slot_at n (put_slot n h x s) (of_nat j)) = of_nat j + 1"
  shows "entry (slot_at n (put_slot n h x s) (of_nat j)) = claims s ! j"
proof -
  have h: "length (printed s) \<le> unat h" "unat h < length (claims s)"
    using producer_inv[OF assms(1) refl, of p] assms(2) by (cases "procs s p"; simp)+
  have u: "unat (of_nat j :: u64) = j" using assms(1,5) by (intro unat_u64_of_nat) (simp add: log_inv_def)
  note put = slot_at_put[OF assms(1), of h x]
  show ?thesis
  proof (cases "of_nat j = h")
    case True
    then show ?thesis using assms(3,6) u by (auto simp: put)
  next
    case False
    then have "slot_of n (of_nat j) \<noteq> slot_of n h" using slots_differ[OF assms(1), of "of_nat j" h] h assms(4,5) u by simp
    then show ?thesis using assms(1,4-6) by (simp add: put log_inv_def)
  qed
qed

lemma put_drain:
  assumes "log_inv n s" "held (procs s p) = Some h" shows "drain_ok n (put_slot n h x s) (dpc s)"
proof (cases "dpc s")
  case (DPrint t g)
  have h: "length (printed s) \<le> unat h" "unat h < length (claims s)" "ready (slot_at n s h) \<noteq> h + 1"
    using producer_inv[OF assms(1) refl, of p] assms(2) by (cases "procs s p"; simp)+
  have d: "unat t = length (printed s)" "unat t < length (claims s)" "ready (slot_at n s t) = t + 1" "unat t < unat g" "unat g \<le> length (claims s)"
    using drain_inv[OF assms(1) DPrint] by simp_all
  then have "t \<noteq> h" using h(3) by auto
  then have "slot_of n t \<noteq> slot_of n h" using slots_differ[OF assms(1), of t h] h(1,2) d(1,2) by simp
  then show ?thesis using d DPrint by (simp add: slot_at_put[OF assms(1)])
qed (use drain_inv[OF assms(1) refl] in simp_all)

lemma log_inv_put:
  assumes "log_inv n s" "held (procs s p) = Some h" "held c = Some h \<or> held c = None"
    and x: "\<forall>v. producer_ok n s v \<longrightarrow> held v \<noteq> Some h \<longrightarrow> producer_ok n (put_slot n h x s) v"
    and c: "producer_ok n (put_slot n h x s) c"
    and e: "ready x = h + 1 \<longrightarrow> entry x = claims s ! unat h"
    and r: "unat (ready x) \<le> length (claims s)"
  shows "log_inv n (set_pc p c (put_slot n h x s))"
proof -
  let ?s = "put_slot n h x s"
  have lt: "length (claims s) + n < 2 ^ 64" "length (ring s) = n" "queue_cap n" using assms(1) by (simp_all add: log_inv_def)
  have hc: "held c = Some y \<Longrightarrow> y = h" for y using assms(3) by auto
  have other: "held (procs s q) \<noteq> Some h" if "q \<noteq> p" for q using that assms(1,2) by (auto simp: log_inv_def)
  have rd: "unat (ready (ring ?s ! k)) \<le> length (claims s)" if "k < n" for k
    using that assms(1) r lt(2) by (cases "k = slot_of n h") (auto simp: log_inv_def put_slot_def)
  show ?thesis unfolding log_inv_def frame_ok set_pc_fields put_slot_fields
  proof (intro conjI allI impI)
    show "producer_ok n ?s (((procs s)(p := c)) q)" for q
      using c x other[of q] producer_inv[OF assms(1) refl, of q] by (cases "q = p") auto
    show "held (((procs s)(p := c)) b) \<noteq> Some y" if "a \<noteq> b \<and> held (((procs s)(p := c)) a) = Some y" for a b y
    proof (cases "a = p")
      case True
      then have "y = h" using that hc by simp
      then show ?thesis using that True other[of b] by auto
    next
      case False
      then show ?thesis using that hc other[of a] assms(1) by (cases "b = p") (auto simp: log_inv_def)
    qed
  qed (use assms(1) put_entry[OF assms(1,2) e] put_drain[OF assms(1,2), of x] rd lt in \<open>auto simp: log_inv_def\<close>)
qed

lemma producer_put:
  assumes "log_inv n s" "held (procs s p) = Some h" "producer_ok n s v" "held v \<noteq> Some h"
  shows "producer_ok n (put_slot n h x s) v"
proof -
  have h: "length (printed s) \<le> unat h" "unat h < length (claims s)"
    using producer_inv[OF assms(1) refl, of p] assms(2) by (cases "procs s p"; simp)+
  have "slot_of n w \<noteq> slot_of n h" if "length (printed s) \<le> unat w" "unat w < length (claims s)" "w \<noteq> h" for w
    using slots_differ[OF assms(1), of w h] that h by simp
  then show ?thesis using assms(3,4) by (cases v) (auto simp: slot_at_put[OF assms(1)])
qed

lemma log_inv_store:
  assumes "log_inv n s" "procs s p = LClaimed r h" shows "log_inv n (set_pc p (LWritten h) (put_slot n h ((slot_at n s h)\<lparr>entry := r\<rparr>) s))"
proof -
  have h: "length (printed s) \<le> unat h" "unat h < length (claims s)" "claims s ! unat h = r" "ready (slot_at n s h) \<noteq> h + 1"
    using producer_inv[OF assms] by simp_all
  have "queue_cap n" "length (ring s) = n" using assms(1) by (simp_all add: log_inv_def)
  then have "slot_of n h < n" using queue_cap_bounds[of n] by (simp add: slot_of_mod)
  then have "unat (ready (slot_at n s h)) \<le> length (claims s)" using assms(1) by (simp add: log_inv_def slot_at_def)
  then show ?thesis
    by (intro log_inv_put) (use assms h producer_put[OF assms(1), of p h] in \<open>auto simp: slot_at_put[OF assms(1)]\<close>)
qed

lemma log_inv_publish:
  assumes "log_inv n s" "procs s p = LWritten h" shows "log_inv n (set_pc p LIdle (put_slot n h ((slot_at n s h)\<lparr>ready := h + 1\<rparr>) s))"
proof -
  have h: "length (printed s) \<le> unat h" "unat h < length (claims s)" "entry (slot_at n s h) = claims s ! unat h"
    using producer_inv[OF assms] by simp_all
  have "unat (h + 1) = unat h + 1" using h(2) assms(1) by (intro unat_inc) (simp add: log_inv_def)
  then show ?thesis
    by (intro log_inv_put) (use assms h producer_put[OF assms(1), of p h] in \<open>auto\<close>)
qed

lemma log_inv_drain:
  assumes "log_inv n s" "drain_ok n s d" shows "log_inv n (s\<lparr>dpc := d\<rparr>)"
proof -
  have "slot_at n (s\<lparr>dpc := d\<rparr>) = slot_at n s" by (simp add: slot_at_def fun_eq_iff)
  moreover have "producer_ok n (s\<lparr>dpc := d\<rparr>) x = producer_ok n s x" "drain_ok n (s\<lparr>dpc := d\<rparr>) y = drain_ok n s y" for x y
    by (cases x; simp add: slot_at_def) (cases y; simp add: slot_at_def)
  ultimately show ?thesis using assms by (simp add: log_inv_def)
qed

lemma log_inv_print:
  assumes "log_inv n s" "dpc s = DPrint t h"
  shows "log_inv n (s\<lparr>dpc := DLoop (t + 1) h, printed := printed s @ [entry (slot_at n s t)]\<rparr>)"
proof -
  let ?s = "s\<lparr>dpc := DLoop (t + 1) h, printed := printed s @ [entry (slot_at n s t)]\<rparr>"
  have d: "unat t = length (printed s)" "unat t < unat h" "unat h \<le> length (claims s)" "ready (slot_at n s t) = t + 1"
    using drain_inv[OF assms] by simp_all
  have lt: "length (claims s) + n < 2 ^ 64" using assms(1) by (simp add: log_inv_def)
  have u: "unat (t + 1) = unat t + 1" using d lt by (intro unat_inc) simp
  have tt: "of_nat (length (printed s)) = t" using d(1) by (simp flip: d(1))
  have all: "\<forall>i. length (printed s) \<le> i \<and> i < length (claims s) \<and> ready (slot_at n s (of_nat i)) = of_nat i + 1 \<longrightarrow>
      entry (slot_at n s (of_nat i)) = claims s ! i"
    using assms(1) unfolding log_inv_def by blast
  have "entry (slot_at n s (of_nat (length (printed s)))) = claims s ! length (printed s)"
    by (rule all[rule_format]) (use d in \<open>simp add: tt\<close>)
  then have e: "entry (slot_at n s t) = claims s ! length (printed s)" by (simp add: tt)
  have sl: "slot_at n ?s = slot_at n s" by (simp add: slot_at_def fun_eq_iff)
  have "length (printed s) < length (claims s)" using d by simp
  then have pr: "printed s @ [entry (slot_at n s t)] = take (Suc (length (printed s))) (claims s)"
    using assms(1) by (simp add: log_inv_def take_Suc_conv_app_nth e)
  have ok: "producer_ok n ?s v" if v: "producer_ok n s v" for v
  proof -
    have "length (printed s) < unat w" if "length (printed s) \<le> unat w" "ready (slot_at n s w) \<noteq> w + 1" for w
    proof (rule ccontr)
      assume "\<not> ?thesis"
      then have "w = t" using d(1) that(1) by (intro word_unat_eq_iff[THEN iffD2]) simp
      then show False using that(2) d(4) by simp
    qed
    then show ?thesis using v sl by (cases v) (auto simp: Suc_le_eq)
  qed
  show ?thesis unfolding log_inv_def sl using assms(1) d u pr ok sl by (auto simp: log_inv_def)
qed

lemma log_inv_advance:
  assumes "log_inv n s" "dpc s = DLoop t h" shows "log_inv n (s\<lparr>dpc := DIdle, l_tail := t\<rparr>)"
proof -
  let ?s = "s\<lparr>dpc := DIdle, l_tail := t\<rparr>"
  have d: "unat t = length (printed s)" using drain_inv[OF assms] by simp
  have i: "unat (l_tail s) \<le> length (printed s)" using assms(1) by (simp add: log_inv_def)
  have sl: "slot_at n ?s = slot_at n s" by (simp add: slot_at_def fun_eq_iff)
  have ok: "producer_ok n ?s v" if "producer_ok n s v" for v using that sl d i by (cases v) auto
  show ?thesis unfolding log_inv_def sl using assms(1) d i ok by (auto simp: log_inv_def)
qed

lemma log_inv_step:
  assumes "log_step n s s'" "log_inv n s" shows "log_inv n s'"
  using assms(1)
proof (cases rule: log_step.cases)
  case (room p lv line h)
  have "n < 2 ^ 64" using assms(2) by (simp add: log_inv_def)
  then show ?thesis unfolding room(1) using assms(2) room(2) room_bound[OF room(3)] by (intro log_inv_move) simp_all
next
  case (drain_ready t h)
  then show ?thesis using assms(2) drain_inv[OF assms(2) drain_ready(2)] by (auto simp: word_less_nat_alt intro: log_inv_drain)
next
  case drain_load
  have "length (printed s) \<le> unat (l_head s)" "unat (l_head s) \<le> length (claims s)" using assms(2) by (simp_all add: log_inv_def)
  then show ?thesis unfolding drain_load(1) using drain_inv[OF assms(2) drain_load(2)] by (intro log_inv_drain[OF assms(2)]) simp
next
  case (drain_empty h)
  then show ?thesis using assms(2) drain_inv[OF assms(2) drain_empty(2)] by (auto intro!: log_inv_drain)
next
  case (drain_enter h)
  then show ?thesis using assms(2) drain_inv[OF assms(2) drain_enter(2)] by (auto intro!: log_inv_drain)
qed (use assms(2) log_inv_claim log_inv_store log_inv_publish log_inv_print log_inv_advance in \<open>auto intro: log_inv_move\<close>)

interpretation lg: step_invariant "log_step n" "log_inv n" for n
  by unfold_locales (rule log_inv_step)

lemma log_inv_reachable:
  assumes "queue_cap n" "(log_step n)\<^sup>*\<^sup>* (log_start n r) s" shows "log_inv n s"
  by (rule lg.run_inv[OF assms(2) log_inv_start[OF assms(1)]])

section \<open>Properties of the logger\<close>

text \<open>
  C13. Under every interleaving of producers with the drainer, what is printed is a prefix of the
  records in the order in which their positions were claimed: no record is printed twice, out of
  order, half built or overwritten, and the ring never holds more than its size.
\<close>

theorem logger_prints_claims:
  assumes "queue_cap n" "(log_step n)\<^sup>*\<^sup>* (log_start n r) s"
  shows "printed s = take (length (printed s)) (claims s) \<and> unat (l_head s) = length (claims s) \<and>
    length (claims s) \<le> unat (l_tail s) + n \<and> unat (l_tail s) \<le> length (printed s)"
  using log_inv_reachable[OF assms] by (simp add: log_inv_def)

text \<open>
  A run: thread 0 enters \<^verbatim>\<open>log\<close> and loads the head; thread 1 logs a line meanwhile; the drainer prints it
  and advances the tail; thread 0 goes on. Its stale head is now behind the tail, the unsigned
  difference is huge, and the line is dropped although the ring is empty.
\<close>

definition stale_line :: log_record where
  "stale_line = make_record LInfo 7 ''up''"

definition stale_run :: "nat \<Rightarrow> log_record \<Rightarrow> logsys" where
  "stale_run n r = \<lparr>ring = (replicate n \<lparr>ready = 0, entry = r\<rparr>)[0 := \<lparr>ready = 1, entry = stale_line\<rparr>], l_head = 1, l_tail = 1, l_dropped = 1,
     l_running = True, procs = \<lambda>_. LIdle, dpc = DIdle, claims = [stale_line], printed = [stale_line]\<rparr>"

lemma slot_of_0 [simp]: "slot_of n 0 = 0"
  by (simp add: slot_of_def)

lemma log_run_Cons: "log_step n a b \<Longrightarrow> (log_step n)\<^sup>*\<^sup>* b c \<Longrightarrow> (log_step n)\<^sup>*\<^sup>* a c"
  by (rule converse_rtranclp_into_rtranclp)

lemma log_run_refl: "(log_step n)\<^sup>*\<^sup>* a a"
  by simp

lemma stale_run_reachable: assumes "queue_cap n" shows "(log_step n)\<^sup>*\<^sup>* (log_start n r) (stale_run n r)"
proof -
  have n: "2 \<le> n" "n \<le> 2 ^ 63" using queue_cap_bounds[OF assms] by simp_all
  have zero: "\<not> of_nat n \<le> (0 :: u64)" using n by (simp add: word_le_nat_alt unat_u64_of_nat)

  let ?s0 = "log_start n r"
  let ?s1 = "set_pc 0 (LLoaded LWarn ''lost'' 0) ?s0"
  let ?s2 = "set_pc 1 (LLoaded LInfo ''up'' 0) ?s1"
  let ?s3 = "set_pc 1 (LChecked LInfo ''up'' 0) ?s2"
  let ?s4 = "set_pc 1 (LClaimed stale_line 0) (?s3\<lparr>l_head := 0 + 1, claims := claims ?s3 @ [stale_line]\<rparr>)"
  let ?s5 = "set_pc 1 (LWritten 0) (put_slot n 0 ((slot_at n ?s4 0)\<lparr>entry := stale_line\<rparr>) ?s4)"
  let ?s6 = "set_pc 1 LIdle (put_slot n 0 ((slot_at n ?s5 0)\<lparr>ready := 0 + 1\<rparr>) ?s5)"
  let ?s7 = "?s6\<lparr>dpc := DHead (l_head ?s6)\<rparr>"
  let ?s8 = "?s7\<lparr>dpc := DLoop (l_tail ?s7) (l_head ?s6)\<rparr>"
  let ?s9 = "?s8\<lparr>dpc := DPrint (l_tail ?s7) (l_head ?s6)\<rparr>"
  let ?s10 = "?s9\<lparr>dpc := DLoop (l_tail ?s7 + 1) (l_head ?s6), printed := printed ?s9 @ [entry (slot_at n ?s9 (l_tail ?s7))]\<rparr>"
  let ?s11 = "?s10\<lparr>dpc := DIdle, l_tail := l_tail ?s7 + 1\<rparr>"
  let ?s12 = "set_pc 0 LIdle (?s11\<lparr>l_dropped := l_dropped ?s11 + 1\<rparr>)"
  have f: "procs ?s0 = (\<lambda>_. LIdle)" "l_head ?s0 = 0" "l_tail ?s0 = 0" "dpc ?s0 = DIdle" "ring ?s0 = replicate n \<lparr>ready = 0, entry = r\<rparr>"
    by (simp_all add: log_start_def)
  have a1: "log_step n ?s0 ?s1" using log_step.load[of ?s0 0 n LWarn "''lost''"] by (simp add: f)
  have a2: "log_step n ?s1 ?s2" using log_step.load[of ?s1 1 n LInfo "''up''"] by (simp add: f)
  have a3: "log_step n ?s2 ?s3" by (rule log_step.room) (use zero in \<open>simp_all add: f\<close>)
  have a4: "log_step n ?s3 ?s4" unfolding stale_line_def by (rule log_step.claim) (use n in \<open>simp_all add: f\<close>)
  have a5: "log_step n ?s4 ?s5" by (rule log_step.store_record) simp
  have a6: "log_step n ?s5 ?s6" by (rule log_step.publish) simp
  have a7: "log_step n ?s6 ?s7" by (rule log_step.drain_load) (simp add: f)
  have a8: "log_step n ?s7 ?s8" by (rule log_step.drain_enter) (simp_all add: f)
  have a9: "log_step n ?s8 ?s9" by (rule log_step.drain_ready) (use n in \<open>simp_all add: f slot_at_def put_slot_def\<close>)
  have a10: "log_step n ?s9 ?s10" by (rule log_step.drain_print) simp
  have "\<not> l_tail ?s7 + 1 < l_head ?s6" by (simp add: f)
  then have a11: "log_step n ?s10 ?s11" by (intro log_step.drain_store[where h = "l_head ?s6"]) (simp, blast)
  have a12: "log_step n ?s11 ?s12" by (rule log_step.full[where h = 0 and lv = LWarn and line = "''lost''"]) (simp_all add: f)
  have "?s12 = stale_run n r" using n by (simp add: stale_run_def log_start_def set_pc_def put_slot_def slot_at_def fun_eq_iff)
  moreover have "(log_step n)\<^sup>*\<^sup>* ?s0 ?s12"
    by (rule log_run_Cons[OF a1 log_run_Cons[OF a2 log_run_Cons[OF a3 log_run_Cons[OF a4 log_run_Cons[OF a5 log_run_Cons[OF a6 
      log_run_Cons[OF a7 log_run_Cons[OF a8 log_run_Cons[OF a9 log_run_Cons[OF a10 log_run_Cons[OF a11 log_run_Cons[OF a12 log_run_refl]]]]]]]]]]]])
  ultimately show ?thesis by simp
qed

lemma queue_cap_ring: "queue_cap RING_SIZE"
  unfolding queue_cap_def RING_SIZE_def by (intro exI[of _ 12]) simp

theorem logger_prints_claims_witness:
  "printed (stale_run RING_SIZE stale_line) = [stale_line] \<and> length (claims (stale_run RING_SIZE stale_line)) \<le> 1 + RING_SIZE"
  using logger_prints_claims[OF queue_cap_ring stale_run_reachable[OF queue_cap_ring], of stale_line] by (simp add: stale_run_def)

text \<open>
  A line can be lost without the ring being full: there is a run of the ring at its size in which a
  message is counted as dropped while no record is waiting, since \<^verbatim>\<open>head - tail_\<close> wraps when the
  drainer has passed the head a producer loaded earlier.
\<close>

theorem logger_spurious_drop:
  "\<exists>s. (log_step RING_SIZE)\<^sup>*\<^sup>* (log_start RING_SIZE r) s \<and> l_dropped s = 1 \<and> l_head s = l_tail s \<and> claims s = printed s"
  using stale_run_reachable[OF queue_cap_ring, of r] by (intro exI[of _ "stale_run RING_SIZE r"]) (simp add: stale_run_def)

end
