(* ===== verification/Ws_Client.thy ===== *)
theory Ws_Client
  imports Coinbase_Parser Coinbase_Auth Logger
begin

text \<open>
  The network thread (\<^verbatim>\<open>md/coinbase_ws_client.hpp\<close>, \<^verbatim>\<open>md/coinbase_ws_client.cpp\<close>): a loop that
  connects and subscribes, reads messages until the connection is lost, and backs off. The sockets
  are not modelled: an attempt to connect succeeds or throws, a read returns a text, a retryable
  error or another error, and all of these are possible at any time; no state stands for a call
  that never returns. Readings of the steady clock
  are in nanoseconds and do not go back.
\<close>

section \<open>The client and its thread\<close>

text \<open>
  What the thread does to the outside, in order: it is created and pins itself to its core, sends a
  subscription, logs a line, makes a callback, or sleeps.
\<close>

datatype ws_call =
    Started
  | PinThread int
  | Subscribed string
  | Log LogLevel string
  | CallReconnect
  | CallParseError
  | CallMessage CoinbaseMessage Timestamp
  | BackOff int
  | Slept int

text \<open>
  The points of \<^verbatim>\<open>run\<close>: the test of the outer loop, the attempt to connect, the test of the inner
  loop, the read, the handler of exceptions, the sleep with what remains of it, the end, and the end
  of the process.
\<close>

datatype ws_pc = WsTop | WsConnect | WsCheck | WsReading | WsCatch | WsSleep int | WsDone | WsAborted

text \<open>Which of the three callbacks are set: a \<^verbatim>\<open>std::function\<close> is called only if it is not empty.\<close>

record ws_hooks =
  onMessage :: bool
  onReconnect_set :: bool
  onParseError :: bool

record ws =
  w_cfg :: CoinbaseWSConfig
  w_hooks :: ws_hooks
  w_running :: bool
  w_hasConnectedOnce :: bool
  w_backoff :: int
  w_lastSeen :: int
  w_clock :: int
  w_msg :: CoinbaseMessage
  w_pc :: ws_pc
  w_calls :: "ws_call list"

definition new_client :: "CoinbaseWSConfig \<Rightarrow> ws" where
  "new_client c = \<lparr>w_cfg = c, w_hooks = \<lparr>onMessage = False, onReconnect_set = False, onParseError = False\<rparr>, w_running = False, w_hasConnectedOnce = False, w_backoff = backoffInitial_ms c, w_lastSeen = 0,
     w_clock = 0, w_msg = empty_message, w_pc = WsDone, w_calls = []\<rparr>"

definition setMessageCallback :: "ws \<Rightarrow> ws" where
  "setMessageCallback s = s\<lparr>w_hooks := (w_hooks s)\<lparr>onMessage := True\<rparr>\<rparr>"

definition setReconnectCallback :: "ws \<Rightarrow> ws" where
  "setReconnectCallback s = s\<lparr>w_hooks := (w_hooks s)\<lparr>onReconnect_set := True\<rparr>\<rparr>"

definition setParseErrorCallback :: "ws \<Rightarrow> ws" where
  "setParseErrorCallback s = s\<lparr>w_hooks := (w_hooks s)\<lparr>onParseError := True\<rparr>\<rparr>"

text \<open>The client as the constructor of \<^verbatim>\<open>Runtime\<close> leaves it: all three callbacks are set.\<close>

definition hooked_client :: "CoinbaseWSConfig \<Rightarrow> ws" where
  "hooked_client c = setReconnectCallback (setParseErrorCallback (setMessageCallback (new_client c)))"

text \<open>
  \<^verbatim>\<open>start\<close> and \<^verbatim>\<open>stop\<close>, up to the creation of the thread and the join. The destructor is a stop.
\<close>

definition client_start :: "ws \<Rightarrow> ws" where
  "client_start s = (if w_running s then s
     else s\<lparr>w_running := True, w_backoff := backoffInitial_ms (w_cfg s), w_pc := WsTop,
            w_calls := w_calls s @ [Started, PinThread (ws_coreId (w_cfg s))]\<rparr>)"

definition client_stop :: "ws \<Rightarrow> ws" where
  "client_stop s = s\<lparr>w_running := False\<rparr>"

definition timed_out :: "ws \<Rightarrow> int \<Rightarrow> bool" where
  "timed_out s now \<longleftrightarrow> heartbeatTimeout_s (w_cfg s) * 10 ^ 9 < now - w_lastSeen s"

definition connected :: "string \<Rightarrow> int \<Rightarrow> ws \<Rightarrow> ws" where
  "connected sub now s = s\<lparr>w_hasConnectedOnce := True, w_backoff := backoffInitial_ms (w_cfg s), w_lastSeen := now, w_clock := now,
     w_msg := empty_message, w_pc := WsCheck,
     w_calls := w_calls s @ [Subscribed sub, Log LInfo ''coinbase-ws connected and subscribed''] @
       (if w_hasConnectedOnce s \<and> onReconnect_set (w_hooks s) then [CallReconnect] else [])\<rparr>"

definition received :: "'v simdjson \<Rightarrow> CoinbasePriceLevel \<Rightarrow> string \<Rightarrow> Timestamp \<Rightarrow> int \<Rightarrow> ws \<Rightarrow> ws" where
  "received api uninit line recvTs now s =
     (case parse api uninit line (w_msg s) of (err, msg) \<Rightarrow>
        if err \<noteq> Ok
        then s\<lparr>w_msg := msg, w_pc := WsCheck, w_calls := w_calls s @ (if onParseError (w_hooks s) then [CallParseError] else [])\<rparr>
        else s\<lparr>w_msg := msg, w_lastSeen := now, w_clock := now, w_pc := WsCheck,
               w_calls := w_calls s @ (if m_type msg = MsgError then [Log LError ''coinbase-ws error message from server''] else []) @
                 (if onMessage (w_hooks s) then [CallMessage msg recvTs] else [])\<rparr>)"

definition SLICE :: int where "SLICE = 100"

definition sleep_slice :: "int \<Rightarrow> ws \<Rightarrow> ws" where
  "sleep_slice r s = s\<lparr>w_pc := WsSleep (r - min r SLICE), w_calls := w_calls s @ [Slept (min r SLICE)]\<rparr>"

definition next_backoff :: "CoinbaseWSConfig \<Rightarrow> int \<Rightarrow> int" where
  "next_backoff c b = min (wrap64 (b * 2)) (backoffMax_ms c)"

text \<open>One step of the thread; \<open>sub\<close> gives the subscription for a time in seconds since the epoch.\<close>

inductive ws_step :: "'v simdjson \<Rightarrow> CoinbasePriceLevel \<Rightarrow> (string \<Rightarrow> string option) \<Rightarrow> ws \<Rightarrow> ws \<Rightarrow> bool"
  for api :: "'v simdjson" and uninit :: CoinbasePriceLevel and sub :: "string \<Rightarrow> string option" where
  top_run: "w_pc s = WsTop \<Longrightarrow> w_running s \<Longrightarrow> ws_step api uninit sub s (s\<lparr>w_pc := WsConnect\<rparr>)"
| top_stop: "w_pc s = WsTop \<Longrightarrow> \<not> w_running s \<Longrightarrow> ws_step api uninit sub s (s\<lparr>w_pc := WsDone\<rparr>)"
| connect_ok: "w_pc s = WsConnect \<Longrightarrow> sub secs = Some line \<Longrightarrow> w_clock s \<le> now \<Longrightarrow> ws_step api uninit sub s (connected line now s)"
| connect_fails: "w_pc s = WsConnect \<Longrightarrow> ws_step api uninit sub s (s\<lparr>w_pc := WsCatch\<rparr>)"
| connect_aborts: "w_pc s = WsConnect \<Longrightarrow> sub secs = None \<Longrightarrow> ws_step api uninit sub s (s\<lparr>w_pc := WsAborted\<rparr>)"
| check_stop: "w_pc s = WsCheck \<Longrightarrow> \<not> w_running s \<Longrightarrow> ws_step api uninit sub s (s\<lparr>w_pc := WsTop\<rparr>)"
| check_silent: "w_pc s = WsCheck \<Longrightarrow> w_running s \<Longrightarrow> w_clock s \<le> now \<Longrightarrow> timed_out s now \<Longrightarrow>
    ws_step api uninit sub s (s\<lparr>w_clock := now, w_pc := WsTop,
      w_calls := w_calls s @ [Log LWarn ''coinbase-ws heartbeat timeout, forcing reconnect'']\<rparr>)"
| check_read: "w_pc s = WsCheck \<Longrightarrow> w_running s \<Longrightarrow> w_clock s \<le> now \<Longrightarrow> \<not> timed_out s now \<Longrightarrow>
    ws_step api uninit sub s (s\<lparr>w_clock := now, w_pc := WsReading\<rparr>)"
| read_retry: "w_pc s = WsReading \<Longrightarrow> ws_step api uninit sub s (s\<lparr>w_pc := WsCheck\<rparr>)"
| read_fails: "w_pc s = WsReading \<Longrightarrow> ws_step api uninit sub s (s\<lparr>w_pc := WsCatch\<rparr>)"
| read_text: "w_pc s = WsReading \<Longrightarrow> w_clock s \<le> recvTs \<Longrightarrow> recvTs \<le> now \<Longrightarrow> ws_step api uninit sub s (received api uninit line recvTs now s)"
| catch_stop: "w_pc s = WsCatch \<Longrightarrow> \<not> w_running s \<Longrightarrow> ws_step api uninit sub s (s\<lparr>w_pc := WsDone\<rparr>)"
| catch_backoff: "w_pc s = WsCatch \<Longrightarrow> w_running s \<Longrightarrow>
    ws_step api uninit sub s (s\<lparr>w_pc := WsSleep (w_backoff s),
      w_calls := w_calls s @ [Log LWarn ''coinbase-ws disconnect, backing off'', BackOff (w_backoff s)]\<rparr>)"
| sleep_more: "w_pc s = WsSleep r \<Longrightarrow> 0 < r \<Longrightarrow> w_running s \<Longrightarrow> ws_step api uninit sub s (sleep_slice r s)"
| sleep_over: "w_pc s = WsSleep r \<Longrightarrow> \<not> (0 < r \<and> w_running s) \<Longrightarrow>
    ws_step api uninit sub s (s\<lparr>w_pc := WsTop, w_backoff := next_backoff (w_cfg s) (w_backoff s)\<rparr>)"

text \<open>The other threads start and stop the client; starting again needs the thread to have been joined.\<close>

inductive ws_run :: "'v simdjson \<Rightarrow> CoinbasePriceLevel \<Rightarrow> (string \<Rightarrow> string option) \<Rightarrow> ws \<Rightarrow> ws \<Rightarrow> bool"
  for api :: "'v simdjson" and uninit :: CoinbasePriceLevel and sub :: "string \<Rightarrow> string option" where
  thread: "ws_step api uninit sub s s' \<Longrightarrow> ws_run api uninit sub s s'"
| start: "\<not> w_running s \<Longrightarrow> w_pc s = WsDone \<Longrightarrow>
    ws_run api uninit sub s (client_start s)"
| stop: "ws_run api uninit sub s (client_stop s)"

section \<open>Sessions\<close>

text \<open>
  A trace is announced if a reconnect is signalled exactly at every subscription that is not the
  first, before anything else happens, and messages and parse errors occur only after a
  subscription.
\<close>

fun announced :: "bool \<Rightarrow> ws_call list \<Rightarrow> bool" where
  "announced b [] \<longleftrightarrow> True"
| "announced b (Subscribed t # cs) \<longleftrightarrow>
     (if b then (case cs of CallReconnect # ds \<Rightarrow> announced True ds | _ \<Rightarrow> False) else announced True cs)"
| "announced b (CallReconnect # cs) \<longleftrightarrow> False"
| "announced b (CallParseError # cs) \<longleftrightarrow> b \<and> announced b cs"
| "announced b (CallMessage m t # cs) \<longleftrightarrow> b \<and> announced b cs"
| "announced b (Started # cs) \<longleftrightarrow> announced b cs"
| "announced b (BackOff d # cs) \<longleftrightarrow> announced b cs"
| "announced b (Slept d # cs) \<longleftrightarrow> announced b cs"
| "announced b (PinThread i # cs) \<longleftrightarrow> announced b cs"
| "announced b (Log l x # cs) \<longleftrightarrow> announced b cs"

fun is_subscribed :: "ws_call \<Rightarrow> bool" where
  "is_subscribed (Subscribed t) \<longleftrightarrow> True"
| "is_subscribed _ \<longleftrightarrow> False"

text \<open>The trace without the lines of the log.\<close>

fun is_log :: "ws_call \<Rightarrow> bool" where
  "is_log (Log l x) \<longleftrightarrow> True"
| "is_log _ \<longleftrightarrow> False"

definition unlogged :: "ws_call list \<Rightarrow> ws_call list" where
  "unlogged cs = filter (\<lambda>c. \<not> is_log c) cs"

lemma unlogged_simps [simp]:
  "unlogged [] = []" "unlogged (c # cs) = (if is_log c then unlogged cs else c # unlogged cs)" "unlogged (cs @ ds) = unlogged cs @ unlogged ds"
  by (simp_all add: unlogged_def)

lemma subscribed_unlogged [simp]: "list_ex is_subscribed (unlogged cs) = list_ex is_subscribed cs"
proof (induction cs)
  case (Cons c cs)
  then show ?case by (cases c) simp_all
qed simp

lemma announced_append:
  "announced b xs \<Longrightarrow> announced (b \<or> list_ex is_subscribed xs) ys \<Longrightarrow> announced b (xs @ ys)"
proof (induction b xs rule: announced.induct)
  case (2 b t cs)
  then show ?case by (cases b) (auto split: list.splits ws_call.splits)
qed auto

text \<open>Every delivered message is what the parser returns for some text, whatever the buffer held.\<close>

definition faithful :: "'v simdjson \<Rightarrow> CoinbasePriceLevel \<Rightarrow> ws_call list \<Rightarrow> bool" where
  "faithful api uninit cs \<longleftrightarrow> (\<forall>m t. CallMessage m t \<in> set cs \<longrightarrow> (\<exists>line. parse api uninit line empty_message = (Ok, m)))"

fun in_session :: "ws_pc \<Rightarrow> bool" where
  "in_session WsCheck \<longleftrightarrow> True"
| "in_session WsReading \<longleftrightarrow> True"
| "in_session _ \<longleftrightarrow> False"

definition all_hooks :: ws_hooks where
  "all_hooks = \<lparr>onMessage = True, onReconnect_set = True, onParseError = True\<rparr>"

lemma all_hooks_simps [simp]: "onMessage all_hooks" "onReconnect_set all_hooks" "onParseError all_hooks"
  by (simp_all add: all_hooks_def)

lemma hooked_client_fields [simp]:
  "w_cfg (hooked_client c) = c" "w_hooks (hooked_client c) = all_hooks" "\<not> w_running (hooked_client c)" "\<not> w_hasConnectedOnce (hooked_client c)"
  "w_backoff (hooked_client c) = backoffInitial_ms c" "w_pc (hooked_client c) = WsDone" "w_calls (hooked_client c) = []" "w_clock (hooked_client c) = 0"
  by (simp_all add: hooked_client_def setReconnectCallback_def setParseErrorCallback_def setMessageCallback_def new_client_def all_hooks_def)

lemma client_stop_fields [simp]:
  "w_pc (client_stop s) = w_pc s" "w_calls (client_stop s) = w_calls s" "w_cfg (client_stop s) = w_cfg s" "w_hooks (client_stop s) = w_hooks s"
  "\<not> w_running (client_stop s)"
  by (simp_all add: client_stop_def)

definition session_inv :: "'v simdjson \<Rightarrow> CoinbasePriceLevel \<Rightarrow> ws \<Rightarrow> bool" where
  "session_inv api uninit s \<longleftrightarrow> w_hooks s = all_hooks \<and> announced False (unlogged (w_calls s)) \<and> w_hasConnectedOnce s = list_ex is_subscribed (w_calls s) \<and>
     (in_session (w_pc s) \<longrightarrow> w_hasConnectedOnce s) \<and> faithful api uninit (w_calls s) \<and>
     (w_pc s = WsReading \<longrightarrow> \<not> timed_out s (w_clock s)) \<and> (w_pc s = WsDone \<longrightarrow> \<not> w_running s)"

lemma session_start: "session_inv api uninit (hooked_client c)"
  by (simp add: session_inv_def faithful_def)

lemma timed_out_frame [simp]: "timed_out (s\<lparr>w_clock := t\<rparr>) = timed_out s" "timed_out (s\<lparr>w_pc := p\<rparr>) = timed_out s"
    "timed_out (s\<lparr>w_running := b\<rparr>) = timed_out s" "timed_out (s\<lparr>w_calls := cs\<rparr>) = timed_out s"
  by (simp_all add: timed_out_def fun_eq_iff)

lemma session_connected: "session_inv api uninit s \<Longrightarrow> session_inv api uninit (connected line now s)"
  by (auto simp: session_inv_def connected_def faithful_def intro!: announced_append)

lemma parse_fresh: "parse api uninit line buf = parse api uninit line empty_message"
  by (rule parse_forgets)

lemma session_received:
  assumes "session_inv api uninit s" "w_pc s = WsReading" shows "session_inv api uninit (received api uninit line recvTs now s)"
proof -
  obtain err msg where p: "parse api uninit line empty_message = (err, msg)" by fastforce
  have "parse api uninit line (w_msg s) = (err, msg)" using p parse_fresh[of api uninit line "w_msg s"] by simp
  then show ?thesis using assms p by (auto simp: session_inv_def received_def faithful_def intro!: announced_append)
qed

lemma session_step:
  assumes "ws_step api uninit sub s s'" "session_inv api uninit s" shows "session_inv api uninit s'"
  using assms(1)
proof (cases rule: ws_step.cases)
  case (connect_ok secs line now)
  then show ?thesis using session_connected[OF assms(2)] by simp
next
  case (read_text recvTs now line)
  then show ?thesis using session_received[OF assms(2)] by simp
qed (use assms(2) in \<open>auto simp: session_inv_def sleep_slice_def faithful_def intro!: announced_append\<close>)

lemma session_run:
  assumes "ws_run api uninit sub s s'" "session_inv api uninit s" shows "session_inv api uninit s'"
  using assms
proof (cases rule: ws_run.cases)
  case thread
  then show ?thesis using session_step assms(2) by blast
qed (use assms(2) in \<open>auto simp: session_inv_def faithful_def client_start_def client_stop_def intro!: announced_append\<close>)

interpretation sn: step_invariant "ws_run api uninit sub" "session_inv api uninit" for api uninit sub
  by unfold_locales (rule session_run)

lemma session_reachable:
  assumes "(ws_run api uninit sub)\<^sup>*\<^sup>* (hooked_client c) s" shows "session_inv api uninit s"
  by (rule sn.run_inv[OF assms session_start])

section \<open>Back-off\<close>

text \<open>
  The delay after \<open>k\<close> failures in a row, the failures at the end of a trace since the last
  subscription or start, and the time slept since the last failure.
\<close>

definition delay :: "CoinbaseWSConfig \<Rightarrow> nat \<Rightarrow> int" where
  "delay c k = (if k = 0 then backoffInitial_ms c else min (backoffInitial_ms c * 2 ^ k) (backoffMax_ms c))"

fun fails :: "ws_call list \<Rightarrow> nat" where
  "fails [] = 0"
| "fails (BackOff d # cs) = Suc (fails cs)"
| "fails (Subscribed t # cs) = 0"
| "fails (Started # cs) = 0"
| "fails (_ # cs) = fails cs"

fun slept :: "ws_call list \<Rightarrow> int" where
  "slept (Slept d # cs) = d + slept cs"
| "slept _ = 0"

fun delays_ok :: "CoinbaseWSConfig \<Rightarrow> ws_call list \<Rightarrow> bool" where
  "delays_ok c [] \<longleftrightarrow> True"
| "delays_ok c (BackOff d # cs) \<longleftrightarrow> d = delay c (fails cs) \<and> delays_ok c cs"
| "delays_ok c (Slept d # cs) \<longleftrightarrow> 0 < d \<and> d \<le> SLICE \<and> delays_ok c cs"
| "delays_ok c (_ # cs) \<longleftrightarrow> delays_ok c cs"

definition delays_small :: "CoinbaseWSConfig \<Rightarrow> bool" where
  "delays_small c \<longleftrightarrow> 0 \<le> backoffInitial_ms c \<and> backoffInitial_ms c < 2 ^ 62 \<and> 0 \<le> backoffMax_ms c \<and> backoffMax_ms c < 2 ^ 62"

lemma delay_bounds:
  assumes "delays_small c" shows "0 \<le> delay c k" "delay c k < 2 ^ 62"
  using assms by (auto simp: delay_def delays_small_def)

lemma delay_Suc:
  assumes "delays_small c" shows "next_backoff c (delay c k) = delay c (Suc k)"
proof -
  have "wrap64 (delay c k * 2) = delay c k * 2" using delay_bounds[OF assms, of k] by (intro wrap64_id) (simp add: in_i64_def)
  moreover have "min (min a m * 2) m = min (a * 2) m" if "0 \<le> m" for a m :: int using that by simp
  ultimately show ?thesis using assms by (simp add: next_backoff_def delay_def delays_small_def ac_simps)
qed

definition backoff_inv :: "ws \<Rightarrow> bool" where
  "backoff_inv s \<longleftrightarrow> delays_small (w_cfg s) \<and> delays_ok (w_cfg s) (rev (w_calls s)) \<and>
     (case w_pc s of
        WsSleep r \<Rightarrow> 0 \<le> r \<and> w_backoff s = slept (rev (w_calls s)) + r \<and> Suc 0 \<le> fails (rev (w_calls s)) \<and>
          w_backoff s = delay (w_cfg s) (fails (rev (w_calls s)) - 1)
      | _ \<Rightarrow> w_backoff s = delay (w_cfg s) (fails (rev (w_calls s))))"

lemma backoff_start: "delays_small c \<Longrightarrow> backoff_inv (hooked_client c)"
  by (simp add: backoff_inv_def delay_def)

lemma backoff_step:
  assumes "ws_step api uninit sub s s'" "backoff_inv s" shows "backoff_inv s'"
  using assms(1)
proof (cases rule: ws_step.cases)
  case (catch_backoff)
  then show ?thesis using assms(2) delay_bounds by (auto simp: backoff_inv_def)
next
  case (sleep_more r)
  then show ?thesis using assms(2) by (auto simp: backoff_inv_def sleep_slice_def SLICE_def)
next
  case (sleep_over r)
  then obtain k where k: "fails (rev (w_calls s)) = Suc k" "w_backoff s = delay (w_cfg s) k" "delays_small (w_cfg s)"
    using assms(2) by (cases "fails (rev (w_calls s))") (auto simp: backoff_inv_def)
  then show ?thesis using assms(2) sleep_over delay_Suc[OF k(3), of k] by (simp add: backoff_inv_def)
next
  case (connect_ok secs line now)
  then show ?thesis using assms(2) by (auto simp: backoff_inv_def connected_def delay_def)
next
  case (read_text recvTs now line)
  then show ?thesis using assms(2) by (auto simp: backoff_inv_def received_def split: prod.splits)
qed (use assms(2) in \<open>auto simp: backoff_inv_def\<close>)

lemma backoff_run:
  assumes "ws_run api uninit sub s s'" "backoff_inv s" shows "backoff_inv s'"
  using assms
proof (cases rule: ws_run.cases)
  case thread
  then show ?thesis using backoff_step assms(2) by blast
qed (use assms(2) in \<open>auto simp: backoff_inv_def client_start_def client_stop_def delay_def split: ws_pc.splits\<close>)

lemma cfg_run: "ws_run api uninit sub s s' \<Longrightarrow> w_cfg s' = w_cfg s"
  by (auto elim!: ws_run.cases ws_step.cases simp: connected_def received_def sleep_slice_def client_start_def client_stop_def split: prod.splits)

interpretation bo: step_invariant "ws_run api uninit sub" "\<lambda>s. backoff_inv s \<and> w_cfg s = c" for api uninit sub c
  by unfold_locales (use backoff_run cfg_run in blast)

lemma backoff_reachable:
  assumes "delays_small c" "(ws_run api uninit sub)\<^sup>*\<^sup>* (hooked_client c) s" shows "backoff_inv s \<and> w_cfg s = c"
  using bo.run_inv[OF assms(2), of c] backoff_start[OF assms(1)] by simp

section \<open>Stopping\<close>

fun rank :: "ws_pc \<Rightarrow> nat" where
  "rank WsTop = 1"
| "rank WsConnect = 3"
| "rank WsCheck = 2"
| "rank WsReading = 3"
| "rank WsCatch = 1"
| "rank (WsSleep r) = 2"
| "rank WsDone = 0"
| "rank WsAborted = 0"

lemma stopped_step:
  assumes "ws_step api uninit sub s s'" "\<not> w_running s" shows "\<not> w_running s' \<and> rank (w_pc s') < rank (w_pc s)"
  using assms by (cases rule: ws_step.cases) (auto simp: connected_def received_def split: prod.splits)

interpretation st: step_bound "ws_step api uninit sub" "\<lambda>s. \<not> w_running s" "\<lambda>s. rank (w_pc s)" for api uninit sub
  by unfold_locales (use stopped_step in blast)+

lemma step_exists:
  assumes "w_pc s \<noteq> WsDone" "w_pc s \<noteq> WsAborted" shows "\<exists>s'. ws_step api uninit sub s s'"
proof (cases "w_pc s")
  case WsTop
  then show ?thesis using top_run top_stop by metis
next
  case WsConnect
  then show ?thesis using connect_fails by metis
next
  case WsCheck
  then show ?thesis using check_stop check_silent[of s "w_clock s"] check_read[of s "w_clock s"] by (metis order_refl)
next
  case WsReading
  then show ?thesis using read_retry by metis
next
  case WsCatch
  then show ?thesis using catch_stop catch_backoff by metis
next
  case (WsSleep r)
  then show ?thesis using sleep_more sleep_over by metis
qed (use assms in auto)

section \<open>Properties of the client\<close>

text \<open>
  C17. In every run with any network behaviour, any clock and any starts and stops: each subscription
  except the first is followed, but for a line of the log, at once by exactly one reconnect callback, messages and parse
  errors are only reported in a session, each message is the parse of a text of its own with
  nothing left over from an earlier one, and a read is only begun when a message was seen within
  the heartbeat timeout.
\<close>

theorem ws_sessions_announced:
  assumes "(ws_run api uninit sub)\<^sup>*\<^sup>* (hooked_client c) s"
  shows "announced False (unlogged (w_calls s)) \<and> faithful api uninit (w_calls s) \<and> (w_pc s = WsReading \<longrightarrow> \<not> timed_out s (w_clock s))"
  using session_reachable[OF assms] by (simp add: session_inv_def)

text \<open>
  C30. The delay after the \<open>k\<close>-th failure in a row is the initial one doubled \<open>k\<close> times and capped; a
  connection resets it. It is slept in slices of at most 100 ms, and a sleep that is not cut short
  by a stop lasts for the whole delay.
\<close>

theorem ws_backoff:
  assumes "delays_small c" "(ws_run api uninit sub)\<^sup>*\<^sup>* (hooked_client c) s"
  shows "delays_ok c (rev (w_calls s)) \<and>
    (\<forall>r. w_pc s = WsSleep r \<longrightarrow> 0 \<le> r \<and> slept (rev (w_calls s)) + r = delay c (fails (rev (w_calls s)) - 1))"
  using backoff_reachable[OF assms] by (auto simp: backoff_inv_def)

text \<open>
  C29. Stopping works from every point: once the flag is cleared the thread makes at most three more
  steps, whatever the network does, and where it can make no more it has ended. Each of these
  steps is bounded by one attempt to connect, one read or one slice of sleep.
\<close>

theorem ws_stop_terminates:
  assumes "(ws_step api uninit sub ^^ k) s s'" "\<not> w_running s"
  shows "k \<le> 3 \<and> ((\<exists>s''. ws_step api uninit sub s' s'') \<or> w_pc s' = WsDone \<or> w_pc s' = WsAborted)"
proof -
  have "rank (w_pc s) \<le> 3" by (cases "w_pc s") simp_all
  then show ?thesis using st.run_bound[OF assms] step_exists[of s' api uninit sub] by auto
qed

section \<open>A run\<close>

text \<open>
  The client connects, loses the connection, backs off for 150 ms in two slices and connects again.
\<close>

definition sample_ws :: CoinbaseWSConfig where
  "sample_ws = default_ws\<lparr>backoffInitial_ms := 150\<rparr>"

definition connected_line :: ws_call where
  "connected_line = Log LInfo ''coinbase-ws connected and subscribed''"

definition disconnect_line :: ws_call where
  "disconnect_line = Log LWarn ''coinbase-ws disconnect, backing off''"

definition sample_lost :: ws where
  "sample_lost = \<lparr>w_cfg = sample_ws, w_hooks = all_hooks, w_running = True, w_hasConnectedOnce = True, w_backoff = 150, w_lastSeen = 5, w_clock = 6,
     w_msg = empty_message, w_pc = WsSleep 50, w_calls = [Started, PinThread (- 1), Subscribed [], connected_line, disconnect_line, BackOff 150, Slept 100]\<rparr>"

definition sample_back :: ws where
  "sample_back = sample_lost\<lparr>w_lastSeen := 9, w_clock := 9, w_pc := WsCheck,
     w_calls := [Started, PinThread (- 1), Subscribed [], connected_line, disconnect_line, BackOff 150, Slept 100, Slept 50, Subscribed [], connected_line, CallReconnect]\<rparr>"

lemma run_step: "(ws_run api uninit sub)\<^sup>*\<^sup>* a s \<Longrightarrow> ws_step api uninit sub s s' \<Longrightarrow> (ws_run api uninit sub)\<^sup>*\<^sup>* a s'"
  by (meson thread rtranclp.rtrancl_into_rtrancl)

lemma sample_lost_reachable: "(ws_run api uninit (\<lambda>_. Some []))\<^sup>*\<^sup>* (hooked_client sample_ws) sample_lost"
proof -
  let ?sub = "\<lambda>_. Some []"
  let ?s1 = "sample_lost\<lparr>w_hasConnectedOnce := False, w_lastSeen := 0, w_clock := 0, w_pc := WsTop, w_calls := [Started, PinThread (- 1)]\<rparr>"
  let ?s2 = "?s1\<lparr>w_pc := WsConnect\<rparr>"
  let ?s3 = "sample_lost\<lparr>w_clock := 5, w_pc := WsCheck, w_calls := [Started, PinThread (- 1), Subscribed [], connected_line]\<rparr>"
  let ?s4 = "?s3\<lparr>w_clock := 6, w_pc := WsReading\<rparr>"
  let ?s5 = "?s4\<lparr>w_pc := WsCatch\<rparr>"
  let ?s6 = "?s5\<lparr>w_pc := WsSleep 150, w_calls := [Started, PinThread (- 1), Subscribed [], connected_line, disconnect_line, BackOff 150]\<rparr>"
  have "ws_run api uninit ?sub (hooked_client sample_ws) ?s1"
    using start[of "hooked_client sample_ws" api uninit ?sub] by (simp add: hooked_client_def setReconnectCallback_def setParseErrorCallback_def setMessageCallback_def new_client_def
      client_start_def sample_lost_def sample_ws_def default_ws_def all_hooks_def)
  then have r1: "(ws_run api uninit ?sub)\<^sup>*\<^sup>* (hooked_client sample_ws) ?s1" by (rule r_into_rtranclp)
  have "ws_step api uninit ?sub ?s1 ?s2" using top_run[of ?s1 api uninit ?sub] by (simp add: sample_lost_def)
  note r2 = run_step[OF r1 this]
  have "ws_step api uninit ?sub ?s2 ?s3" using connect_ok[of ?s2 ?sub "[]" "[]" 5 api uninit]
    by (simp add: sample_lost_def connected_def connected_line_def sample_ws_def)
  note r3 = run_step[OF r2 this]
  have "ws_step api uninit ?sub ?s3 ?s4" using check_read[of ?s3 6 api uninit ?sub]
    by (simp add: sample_lost_def timed_out_def sample_ws_def default_ws_def)
  note r4 = run_step[OF r3 this]
  have "ws_step api uninit ?sub ?s4 ?s5" using read_fails[of ?s4 api uninit ?sub] by (simp add: sample_lost_def)
  note r5 = run_step[OF r4 this]
  have "ws_step api uninit ?sub ?s5 ?s6" using catch_backoff[of ?s5 api uninit ?sub] by (simp add: sample_lost_def disconnect_line_def)
  note r6 = run_step[OF r5 this]
  have "ws_step api uninit ?sub ?s6 sample_lost" using sleep_more[of ?s6 150 api uninit ?sub]
    by (simp add: sample_lost_def sleep_slice_def SLICE_def)
  from run_step[OF r6 this] show ?thesis .
qed

lemma sample_back_reachable: "(ws_run api uninit (\<lambda>_. Some []))\<^sup>*\<^sup>* (hooked_client sample_ws) sample_back"
proof -
  let ?sub = "\<lambda>_. Some []"
  let ?s8 = "sample_lost\<lparr>w_pc := WsSleep 0, w_calls := [Started, PinThread (- 1), Subscribed [], connected_line, disconnect_line, BackOff 150, Slept 100, Slept 50]\<rparr>"
  let ?s9 = "?s8\<lparr>w_pc := WsTop, w_backoff := 300\<rparr>"
  let ?s10 = "?s9\<lparr>w_pc := WsConnect\<rparr>"
  have "ws_step api uninit ?sub sample_lost ?s8" using sleep_more[of sample_lost 50 api uninit ?sub]
    by (simp add: sample_lost_def sleep_slice_def SLICE_def)
  note r8 = run_step[OF sample_lost_reachable this]
  have "next_backoff sample_ws 150 = 300" by (simp add: next_backoff_def sample_ws_def default_ws_def in_i64_def)
  then have "ws_step api uninit ?sub ?s8 ?s9" using sleep_over[of ?s8 0 api uninit ?sub] by (simp add: sample_lost_def)
  note r9 = run_step[OF r8 this]
  have "ws_step api uninit ?sub ?s9 ?s10" using top_run[of ?s9 api uninit ?sub] by (simp add: sample_lost_def)
  note r10 = run_step[OF r9 this]
  have "ws_step api uninit ?sub ?s10 sample_back" using connect_ok[of ?s10 ?sub "[]" "[]" 9 api uninit]
    by (simp add: sample_lost_def sample_back_def connected_def connected_line_def sample_ws_def)
  from run_step[OF r10 this] show ?thesis .
qed

theorem ws_sessions_announced_witness: "announced False (unlogged (w_calls sample_back))"
  using ws_sessions_announced[OF sample_back_reachable] by blast

theorem ws_backoff_witness: "slept (rev (w_calls sample_lost)) + 50 = delay sample_ws 0"
proof -
  have "delays_small sample_ws" by (simp add: delays_small_def sample_ws_def default_ws_def)
  from ws_backoff[OF this sample_lost_reachable] show ?thesis by (simp add: sample_lost_def disconnect_line_def connected_line_def)
qed

theorem ws_stop_terminates_witness:
  "(1 :: nat) \<le> 3 \<and> (\<exists>s'. ws_step (sample_json sample_doc) \<lparr>lv_price = 0, lv_qty = 0\<rparr> (\<lambda>_. None) (sample_lost\<lparr>w_running := False, w_pc := WsTop, w_backoff := 300\<rparr>) s')"
proof -
  let ?s = "sample_lost\<lparr>w_running := False\<rparr>"
  have "next_backoff sample_ws 150 = 300" by (simp add: next_backoff_def sample_ws_def default_ws_def in_i64_def)
  then have "ws_step (sample_json sample_doc) \<lparr>lv_price = 0, lv_qty = 0\<rparr> (\<lambda>_. None) ?s (?s\<lparr>w_pc := WsTop, w_backoff := 300\<rparr>)"
    using sleep_over[of ?s 50 "sample_json sample_doc" "\<lparr>lv_price = 0, lv_qty = 0\<rparr>" "\<lambda>_. None"] by (simp add: sample_lost_def)
  then have "(ws_step (sample_json sample_doc) \<lparr>lv_price = 0, lv_qty = 0\<rparr> (\<lambda>_. None) ^^ 1) ?s (?s\<lparr>w_pc := WsTop, w_backoff := 300\<rparr>)"
    by (simp add: eq_OO)
  from ws_stop_terminates[OF this] show ?thesis by (simp add: sample_lost_def)
qed

end
