(* ===== verification/Engine.thy ===== *)
theory Engine
  imports Runtime_Behaviour Ws_Client
begin

text \<open>
  The engine as a whole: the network thread (\<open>Ws_Client\<close>), whose callbacks are those that the
  constructor of \<^verbatim>\<open>Runtime\<close> installs, the strategy thread (\<open>Runtime_Behaviour\<close>), and the calls of
  \<^verbatim>\<open>Runtime::start\<close> and \<^verbatim>\<open>Runtime::stop\<close>. The message callback is cut at its accesses to the queue, so that
  the strategy thread may run between any two of them.
\<close>

section \<open>The message callback, access by access\<close>

text \<open>
  The points of \<^verbatim>\<open>onCoinbaseMessage\<close>: outside of it; in the loop over the changes with those left;
  before the push of the last event; in the retries of a snapshot with the number left; before the
  depth of the queue is recorded.
\<close>

datatype net_pc = InClient | Chunks Timestamp "CoinbaseChange list" | Final MarketEvent | Retry MarketEvent nat | Depth

definition enter_callback :: "(double \<Rightarrow> int) \<Rightarrow> double \<Rightarrow> Timestamp \<Rightarrow> CoinbaseMessage \<Rightarrow> Timestamp \<Rightarrow> Metrics \<Rightarrow> net_pc \<times> Metrics" where
  "enter_callback oor tick parseDone msg recvTs m0 =
     (let m = m0\<lparr>wireToParse := recordNs (wrap64 (parseDone - recvTs)) (wireToParse m0)\<rparr> in
      case m_type msg of
        MsgSnapshot \<Rightarrow> (Final \<lparr>recvNs = recvTs, body = Snapshot (snap_levels oor tick (m_bids msg)) (snap_levels oor tick (m_asks msg))\<rparr>, m)
      | MsgL2Update \<Rightarrow> (Chunks recvTs (m_changes msg), m)
      | MsgHeartbeat \<Rightarrow> (Final \<lparr>recvNs = recvTs, body = Heartbeat\<rparr>, m\<lparr>heartbeatsRecv := heartbeatsRecv m + 1\<rparr>)
      | _ \<Rightarrow> (InClient, m\<lparr>msgsReceived := msgsReceived m + 1\<rparr>))"

definition count_drop :: "Metrics \<Rightarrow> Metrics" where
  "count_drop m = m\<lparr>queueFullDrops := queueFullDrops m + 1\<rparr>"

definition is_snapshot :: "MarketEvent \<Rightarrow> bool" where
  "is_snapshot ev \<longleftrightarrow> (case body ev of Snapshot _ _ \<Rightarrow> True | _ \<Rightarrow> False)"

text \<open>One access: the next point, the event that was enqueued if any, the queue and the counters.\<close>

fun cb_next :: "nat \<Rightarrow> net_pc \<Rightarrow> MarketEvent spsc \<Rightarrow> Metrics \<Rightarrow> net_pc \<times> MarketEvent option \<times> MarketEvent spsc \<times> Metrics" where
  "cb_next qcap InClient q m = (InClient, None, q, m)"
| "cb_next qcap (Chunks ts cs) q m =
     (let n = min (length cs) L2_CHANGES; ev = \<lparr>recvNs = ts, body = L2Update (take n cs)\<rparr> in
      if length cs \<le> n then (Final ev, None, q, m)
      else case try_push qcap ev q of
        (True, q') \<Rightarrow> (Chunks ts (drop n cs), Some ev, q', m)
      | (False, q') \<Rightarrow> (Chunks ts (drop n cs), None, q', count_drop m))"
| "cb_next qcap (Final ev) q m0 =
     (let m = m0\<lparr>msgsReceived := msgsReceived m0 + 1\<rparr> in
      case try_push qcap ev q of
        (True, q') \<Rightarrow> (Depth, Some ev, q', m)
      | (False, q') \<Rightarrow> if is_snapshot ev then (Retry ev SNAPSHOT_RETRIES, None, q', m) else (Depth, None, q', count_drop m))"
| "cb_next qcap (Retry ev 0) q m = (Depth, None, q, count_drop m)"
| "cb_next qcap (Retry ev (Suc n)) q m =
     (case try_push qcap ev q of (True, q') \<Rightarrow> (Depth, Some ev, q', m) | (False, q') \<Rightarrow> (Retry ev n, None, q', m))"
| "cb_next qcap Depth q m = (InClient, None, q, m\<lparr>queueDepth := recordNs (int (spsc_size q)) (queueDepth m)\<rparr>)"

section \<open>The callback in one piece\<close>

fun cb_run :: "nat \<Rightarrow> nat \<Rightarrow> net_pc \<Rightarrow> MarketEvent spsc \<Rightarrow> Metrics \<Rightarrow> net_pc \<times> MarketEvent spsc \<times> Metrics" where
  "cb_run qcap 0 p q m = (p, q, m)"
| "cb_run qcap (Suc k) p q m = (case cb_next qcap p q m of (p', _, q', m') \<Rightarrow> cb_run qcap k p' q' m')"

definition cb_steps :: "net_pc \<Rightarrow> nat" where
  "cb_steps p = (case p of InClient \<Rightarrow> 0 | Chunks ts cs \<Rightarrow> length cs + SNAPSHOT_RETRIES + 4 | Final ev \<Rightarrow> SNAPSHOT_RETRIES + 3 | Retry ev n \<Rightarrow> n + 2 | Depth \<Rightarrow> 1)"

lemma cb_run_idle [simp]: "cb_run qcap k InClient q m = (InClient, q, m)"
  by (induction k) simp_all

lemma cb_run_depth: "1 \<le> k \<Longrightarrow> cb_run qcap k Depth q m = (InClient, q, m\<lparr>queueDepth := recordNs (int (spsc_size q)) (queueDepth m)\<rparr>)"
  by (cases k) simp_all

abbreviation alone :: "nat \<Rightarrow> 'a spsc \<Rightarrow> 'a spsc" where
  "alone \<equiv> \<lambda>_ q. q"

lemma cb_run_retry:
  assumes "n + 2 \<le> k" "retry_push qcap alone ev n j q = (ok, q')"
  shows "cb_run qcap k (Retry ev n) q m =
    (let m' = (if ok then m else count_drop m) in (InClient, q', m'\<lparr>queueDepth := recordNs (int (spsc_size q')) (queueDepth m')\<rparr>))"
  using assms
proof (induction n arbitrary: k j q)
  case 0
  then obtain k' where "k = Suc k'" "1 \<le> k'" by (cases k) auto
  then show ?case using 0 by (simp add: cb_run_depth Let_def)
next
  case (Suc n)
  then obtain k' where k: "k = Suc k'" "n + 2 \<le> k'" by (cases k) auto
  obtain b q1 where p: "try_push qcap ev q = (b, q1)" by fastforce
  show ?case
  proof (cases b)
    case True
    then show ?thesis using Suc.prems(2) p k by (simp add: cb_run_depth Let_def)
  next
    case False
    then show ?thesis using Suc.IH[OF k(2), of "j + 1" q1] Suc.prems(2) p k by simp
  qed
qed

lemma cb_run_final:
  assumes "SNAPSHOT_RETRIES + 3 \<le> k" "push_event qcap alone ev j (q, m) = (q', m')"
  shows "cb_run qcap k (Final ev) q m = (InClient, q', m')"
proof -
  obtain k' where k: "k = Suc k'" "SNAPSHOT_RETRIES + 2 \<le> k'" using assms(1) by (cases k) auto
  obtain b q1 where p: "try_push qcap ev q = (b, q1)" by fastforce
  obtain b2 q2 where r: "retry_push qcap alone ev SNAPSHOT_RETRIES (Suc j) q1 = (b2, q2)" by fastforce
  show ?thesis
  proof (cases "b \<or> \<not> is_snapshot ev")
    case True
    then show ?thesis using assms(2) p k by (cases b) (auto simp: push_event_def Let_def cb_run_depth is_snapshot_def count_drop_def)
  next
    case False
    then show ?thesis using assms(2) p r k cb_run_retry[OF k(2) r]
      by (auto simp: push_event_def Let_def is_snapshot_def count_drop_def split: if_splits)
  qed
qed

lemma cb_run_chunks:
  assumes "length cs + SNAPSHOT_RETRIES + 4 \<le> k" "l2_loop qcap alone ts cs j q (queueFullDrops m) = (ev, j', q1, drops)"
    "push_event qcap alone ev j' (q1, m\<lparr>queueFullDrops := drops\<rparr>) = (q', m')"
  shows "cb_run qcap k (Chunks ts cs) q m = (InClient, q', m')"
  using assms
proof (induction qcap "alone :: nat \<Rightarrow> MarketEvent spsc \<Rightarrow> MarketEvent spsc" ts cs j q "queueFullDrops m" arbitrary: k m rule: l2_loop.induct)
  case (1 qcap ts cs j q)
  obtain k' where k: "k = Suc k'" "length cs + SNAPSHOT_RETRIES + 3 \<le> k'" using 1(2) by (cases k) auto
  define n where "n = min (length cs) L2_CHANGES"
  define e where "e = \<lparr>recvNs = ts, body = L2Update (take n cs)\<rparr>"
  show ?case
  proof (cases "length cs \<le> n")
    case True
    then have "ev = e" "j' = j" "q1 = q" "drops = queueFullDrops m" using 1(3) by (simp_all add: l2_loop.simps[of _ _ _ cs] n_def e_def Let_def)
    moreover have "m\<lparr>queueFullDrops := queueFullDrops m\<rparr> = m" by simp
    ultimately show ?thesis using 1(4) k True cb_run_final[of k' qcap e j q m q' m'] by (simp add: n_def e_def Let_def)
  next
    case False
    obtain b q2 where p: "try_push qcap e q = (b, q2)" by fastforce
    let ?m = "if b then m else count_drop m"
    have d: "queueFullDrops ?m = (if b then queueFullDrops m else queueFullDrops m + 1)" by (simp add: count_drop_def)
    have "length (drop n cs) + SNAPSHOT_RETRIES + 4 \<le> k'" using False k by (simp add: n_def L2_CHANGES_def)
    moreover have "l2_loop qcap alone ts (drop n cs) (j + 1) q2 (queueFullDrops ?m) = (ev, j', q1, drops)"
      using 1(3) False p d by (simp add: l2_loop.simps[of _ _ _ cs] n_def e_def Let_def)
    moreover have "push_event qcap alone ev j' (q1, ?m\<lparr>queueFullDrops := drops\<rparr>) = (q', m')"
      using 1(4) by (simp add: count_drop_def)
    ultimately have "cb_run qcap k' (Chunks ts (drop n cs)) q2 ?m = (InClient, q', m')"
      using 1(1)[OF n_def e_def False p[symmetric] refl] d by simp
    then show ?thesis using k False p by (cases b) (simp_all add: n_def e_def Let_def)
  qed
qed

text \<open>
  The callback cut at its accesses computes, without interference, the function of
  \<open>Market_Events\<close>.
\<close>

lemma cb_run_message:
  assumes "enter_callback oor tick pd msg ts m = (p, m1)" "cb_steps p \<le> k"
  shows "cb_run qcap k p q m1 = (case onCoinbaseMessage oor qcap alone tick pd msg ts (q, m) of (q', m') \<Rightarrow> (InClient, q', m'))"
proof -
  obtain q' m' where o: "onCoinbaseMessage oor qcap alone tick pd msg ts (q, m) = (q', m')" by fastforce
  show ?thesis
  proof (cases "m_type msg")
    case MsgL2Update
    then have p: "p = Chunks ts (m_changes msg)" "m1 = m\<lparr>wireToParse := recordNs (wrap64 (pd - ts)) (wireToParse m)\<rparr>"
      using assms(1) by (simp_all add: enter_callback_def Let_def)
    obtain ev j' q1 drops where l: "l2_loop qcap alone ts (m_changes msg) 0 q (queueFullDrops m1) = (ev, j', q1, drops)" by (rule prod_cases4)
    have "push_event qcap alone ev j' (q1, m1\<lparr>queueFullDrops := drops\<rparr>) = (q', m')"
      using o MsgL2Update l p(2) by (simp add: onCoinbaseMessage_def Let_def)
    from cb_run_chunks[OF _ l this, of k] show ?thesis using assms(2) o p(1) by (simp add: cb_steps_def)
  next
    case MsgSnapshot
    then show ?thesis using assms o by (auto simp: enter_callback_def onCoinbaseMessage_def Let_def cb_steps_def intro!: cb_run_final)
  next
    case MsgHeartbeat
    then show ?thesis using assms o by (auto simp: enter_callback_def onCoinbaseMessage_def Let_def cb_steps_def intro!: cb_run_final)
  qed (use assms o in \<open>auto simp: enter_callback_def onCoinbaseMessage_def Let_def\<close>)
qed

section \<open>The threads together\<close>

text \<open>
  What is outside of the program: OpenSSL, the serialiser of JSON, the environment, the JSON parser,
  the contents of uninitialised memory and the results of conversions that are out of range.
\<close>

record 'v world =
  x_ssl :: evp
  x_dump :: "(string \<rightharpoonup> field) \<Rightarrow> string"
  x_env :: "string \<rightharpoonup> string"
  x_api :: "'v simdjson"
  x_uninit :: CoinbasePriceLevel
  x_oor :: "double \<Rightarrow> int"

record engine =
  e_ws :: ws
  e_sys :: sys
  e_net :: net_pc

definition engine_start :: "nat \<Rightarrow> nat \<Rightarrow> RuntimeConfig \<Rightarrow> engine" where
  "engine_start cap qcap c =
     \<lparr>e_ws = hooked_client (c_ws (cfg (new_runtime cap qcap c))), e_sys = sys_start cap qcap c, e_net = InClient\<rparr>"

definition subscription :: "'v world \<Rightarrow> CoinbaseWSConfig \<Rightarrow> string \<Rightarrow> string option" where
  "subscription x c ts = buildSubscribeMessage (x_ssl x) (x_dump x) c (fromEnv (x_env x)) ts"

definition set_rt :: "(runtime \<Rightarrow> runtime) \<Rightarrow> engine \<Rightarrow> engine" where
  "set_rt f e = e\<lparr>e_sys := (e_sys e)\<lparr>rt := f (rt (e_sys e))\<rparr>\<rparr>"

text \<open>The callbacks that the constructor installs; the other calls do not concern the runtime.\<close>

fun call_effect :: "'v world \<Rightarrow> Timestamp \<Rightarrow> ws_call \<Rightarrow> engine \<Rightarrow> engine" where
  "call_effect x parseDone CallReconnect e = set_rt reconnectCallback e"
| "call_effect x parseDone CallParseError e = set_rt parseErrorCallback e"
| "call_effect x parseDone (CallMessage msg recvTs) e =
     (case enter_callback (x_oor x) (c_tick_size (cfg (rt (e_sys e)))) parseDone msg recvTs (metrics (rt (e_sys e))) of
        (p, m) \<Rightarrow> (set_rt (\<lambda>r. r\<lparr>metrics := m\<rparr>) e)\<lparr>e_net := p\<rparr>)"
| "call_effect x parseDone _ e = e"

definition callback_access :: "nat \<Rightarrow> engine \<Rightarrow> engine" where
  "callback_access qcap e =
     (case cb_next qcap (e_net e) (queue (rt (e_sys e))) (metrics (rt (e_sys e))) of
        (p, ev, q, m) \<Rightarrow> e\<lparr>e_net := p,
           e_sys := (e_sys e)\<lparr>rt := (rt (e_sys e))\<lparr>queue := q, metrics := m\<rparr>,
                              sent := sent (e_sys e) @ (case ev of None \<Rightarrow> [] | Some v \<Rightarrow> [v])\<rparr>\<rparr>)"

definition alive :: "engine \<Rightarrow> bool" where
  "alive e \<longleftrightarrow> w_pc (e_ws e) \<noteq> WsAborted"

inductive engine_step :: "'v world \<Rightarrow> nat \<Rightarrow> nat \<Rightarrow> engine \<Rightarrow> engine \<Rightarrow> bool" for x :: "'v world" and cap qcap :: nat where
  client: "alive e \<Longrightarrow> e_net e = InClient \<Longrightarrow> ws_step (x_api x) (x_uninit x) (subscription x (w_cfg (e_ws e))) (e_ws e) w \<Longrightarrow>
    w_calls w = w_calls (e_ws e) @ cs \<Longrightarrow> engine_step x cap qcap e (fold (call_effect x parseDone) cs (e\<lparr>e_ws := w\<rparr>))"
| callback: "alive e \<Longrightarrow> e_net e \<noteq> InClient \<Longrightarrow> engine_step x cap qcap e (callback_access qcap e)"
| strategy: "alive e \<Longrightarrow> loop_step (x_oor x) cap qcap (e_sys e) s \<Longrightarrow> engine_step x cap qcap e (e\<lparr>e_sys := s\<rparr>)"
| start: "alive e \<Longrightarrow> \<not> started (rt (e_sys e)) \<Longrightarrow> \<not> running (rt (e_sys e)) \<Longrightarrow> pc (e_sys e) = NotStarted \<or> pc (e_sys e) = Finished \<Longrightarrow>
    \<not> w_running (e_ws e) \<Longrightarrow> w_pc (e_ws e) = WsDone \<Longrightarrow>
    engine_step x cap qcap e (e\<lparr>e_sys := (e_sys e)\<lparr>rt := start_flags (rt (e_sys e)), pc := Checking, ws_on := True\<rparr>, e_ws := client_start (e_ws e)\<rparr>)"
| stop_network: "alive e \<Longrightarrow> started (rt (e_sys e)) \<Longrightarrow>
    engine_step x cap qcap e ((set_rt stop_started e)\<lparr>e_ws := client_stop (e_ws e)\<rparr>)"
| joined: "alive e \<Longrightarrow> \<not> started (rt (e_sys e)) \<Longrightarrow> e_net e = InClient \<Longrightarrow> w_pc (e_ws e) = WsDone \<Longrightarrow>
    engine_step x cap qcap e (e\<lparr>e_sys := (e_sys e)\<lparr>ws_on := False\<rparr>\<rparr>)"
| stop_loop: "alive e \<Longrightarrow> \<not> started (rt (e_sys e)) \<Longrightarrow> \<not> ws_on (e_sys e) \<Longrightarrow> running (rt (e_sys e)) \<Longrightarrow>
    engine_step x cap qcap e (set_rt stop_running e)"

section \<open>The engine refines its two halves\<close>

text \<open>
  What a step of the client adds to its trace: the messages that it delivers, and calls that do not concern
  the runtime.
\<close>

fun delivered :: "ws_call list \<Rightarrow> (CoinbaseMessage \<times> Timestamp) list" where
  "delivered [] = []"
| "delivered (CallMessage m t # cs) = (m, t) # delivered cs"
| "delivered (_ # cs) = delivered cs"

lemma delivered_append [simp]: "delivered (xs @ ys) = delivered xs @ delivered ys"
  by (induction xs rule: delivered.induct) simp_all

fun is_quiet :: "ws_call \<Rightarrow> bool" where
  "is_quiet CallReconnect \<longleftrightarrow> False"
| "is_quiet CallParseError \<longleftrightarrow> False"
| "is_quiet (CallMessage m t) \<longleftrightarrow> False"
| "is_quiet _ \<longleftrightarrow> True"

lemma ws_step_calls:
  assumes "ws_step api uninit sub w w'"
  shows "\<exists>cs. w_calls w' = w_calls w @ cs \<and>
    (list_all is_quiet cs \<or> (\<exists>t l. is_log l \<and> cs = [Subscribed t, l, CallReconnect]) \<or> cs = [CallParseError] \<or>
     (\<exists>ls msg ts. list_all is_log ls \<and> cs = ls @ [CallMessage msg ts]))"
  using assms by (cases rule: ws_step.cases) (auto simp: connected_def received_def sleep_slice_def split: prod.splits)

lemma quiet_calls:
  assumes "list_all is_quiet cs"
  shows "fold (call_effect x pd) cs e = e" "delivered cs = []" "count_list cs CallParseError = 0" "count_list cs CallReconnect = 0"
proof -
  have "call_effect x pd c e = e \<and> delivered (c # ds) = delivered ds \<and> c \<noteq> CallParseError \<and> c \<noteq> CallReconnect" if "is_quiet c" for c e ds
    using that by (cases c) simp_all
  then show "fold (call_effect x pd) cs e = e" "delivered cs = []" "count_list cs CallParseError = 0" "count_list cs CallReconnect = 0"
    using assms by (induction cs arbitrary: e) auto
qed

lemma log_quiet: "is_log c \<Longrightarrow> is_quiet c"
  by (cases c) simp_all

lemma logs_quiet: "list_all is_log cs \<Longrightarrow> list_all is_quiet cs"
  by (auto simp: list_all_iff intro: log_quiet)

lemma active_step: "ws_step api uninit sub w w' \<Longrightarrow> w_pc w \<noteq> WsDone"
  by (auto elim: ws_step.cases)

lemma enter_counters: "enter_callback oor tick pd msg ts m = (p, m') \<Longrightarrow> strategy_counters m' = strategy_counters m"
  by (auto simp: enter_callback_def strategy_counters_def Let_def split: CoinbaseMsgType.splits)

lemma cb_next_counters: "cb_next qcap p q m = (p', ev, q', m') \<Longrightarrow> strategy_counters m' = strategy_counters m"
  by (cases "(qcap, p, q, m)" rule: cb_next.cases)
    (auto simp: strategy_counters_def count_drop_def Let_def split: if_splits prod.splits bool.splits)

lemma cb_next_push:
  assumes "cb_next qcap p q m = (p', ev, q', m')"
  shows "(\<exists>v ok. try_push qcap v q = (ok, q') \<and> ev = (if ok then Some v else None)) \<or> q' = q \<and> ev = None"
  using assms by (cases "(qcap, p, q, m)" rule: cb_next.cases) (auto simp: Let_def split: if_splits prod.splits bool.splits)

lemma call_sim:
  assumes "ws_on (e_sys e)"
  shows "(sys_step (x_oor x) cap qcap)\<^sup>=\<^sup>= (e_sys e) (e_sys (call_effect x pd c e)) \<and> e_ws (call_effect x pd c e) = e_ws e \<and>
    ws_on (e_sys (call_effect x pd c e))"
proof (cases c)
  case (CallMessage msg ts)
  obtain p m where "enter_callback (x_oor x) (c_tick_size (cfg (rt (e_sys e)))) pd msg ts (metrics (rt (e_sys e))) = (p, m)" by fastforce
  then show ?thesis using CallMessage assms sys_step.net_count[OF assms enter_counters] by (simp add: set_rt_def)
qed (use assms sys_step.net_reconnect[OF assms] sys_step.net_parse_error[OF assms] in \<open>auto simp: set_rt_def\<close>)

lemma calls_sim:
  assumes "ws_on (e_sys e)"
  shows "(sys_step (x_oor x) cap qcap)\<^sup>*\<^sup>* (e_sys e) (e_sys (fold (call_effect x pd) cs e)) \<and> e_ws (fold (call_effect x pd) cs e) = e_ws e \<and>
    ws_on (e_sys (fold (call_effect x pd) cs e))"
  using assms
proof (induction cs arbitrary: e)
  case (Cons c cs)
  note c = call_sim[OF Cons.prems, of x cap qcap pd c]
  then have "(sys_step (x_oor x) cap qcap)\<^sup>*\<^sup>* (e_sys e) (e_sys (call_effect x pd c e))" by auto
  then show ?case using Cons.IH[of "call_effect x pd c e"] c by auto
qed simp

definition engine_link :: "engine \<Rightarrow> bool" where
  "engine_link e \<longleftrightarrow> (w_pc (e_ws e) \<noteq> WsDone \<or> e_net e \<noteq> InClient \<longrightarrow> ws_on (e_sys e))"

lemma ws_cfg_runs: "(ws_run api uninit sub)\<^sup>*\<^sup>* w w' \<Longrightarrow> w_cfg w' = w_cfg w"
  by (induction rule: rtranclp_induct) (use cfg_run in fastforce)+

lemma engine_step_sim:
  assumes "engine_step x cap qcap e e'" "engine_link e"
  shows "(sys_step (x_oor x) cap qcap)\<^sup>*\<^sup>* (e_sys e) (e_sys e') \<and>
    (ws_run (x_api x) (x_uninit x) (subscription x (w_cfg (e_ws e))))\<^sup>*\<^sup>* (e_ws e) (e_ws e') \<and> engine_link e'"
  using assms(1)
proof (cases rule: engine_step.cases)
  case (client w cs pd)
  let ?e = "e\<lparr>e_ws := w\<rparr>"
  have on: "ws_on (e_sys ?e)" using assms(2) active_step[OF client(4)] by (simp add: engine_link_def)
  have "(ws_run (x_api x) (x_uninit x) (subscription x (w_cfg (e_ws e))))\<^sup>*\<^sup>* (e_ws e) w"
    using ws_run.thread[OF client(4)] by (rule r_into_rtranclp)
  then show ?thesis using calls_sim[OF on, of x cap qcap pd cs] client(1) by (simp add: engine_link_def)
next
  case callback
  then have on: "ws_on (e_sys e)" using assms(2) by (simp add: engine_link_def)
  obtain p ev q m where n: "cb_next qcap (e_net e) (queue (rt (e_sys e))) (metrics (rt (e_sys e))) = (p, ev, q, m)" by (rule prod_cases4)
  note c = cb_next_counters[OF n]
  have "sys_step (x_oor x) cap qcap (e_sys e) (e_sys e')"
    using cb_next_push[OF n]
  proof (elim disjE exE conjE)
    fix v ok assume "try_push qcap v (queue (rt (e_sys e))) = (ok, q)" "ev = (if ok then Some v else None)"
    then show ?thesis using sys_step.net_push[OF on _ c, of qcap v ok q "x_oor x" cap] callback(1) n by (cases ok) (simp_all add: callback_access_def)
  next
    assume "q = queue (rt (e_sys e))" "ev = None"
    then show ?thesis using sys_step.net_count[OF on c, of "x_oor x" cap qcap] callback(1) n by (simp add: callback_access_def)
  qed
  then show ?thesis using callback(1) n on by (auto simp: callback_access_def engine_link_def)
next
  case (strategy s)
  have "ws_on s = ws_on (e_sys e)" using strategy(3) by (auto elim: loop_step.cases)
  then show ?thesis using assms(2) strategy sys_step.loop[OF strategy(3)] by (auto simp: engine_link_def)
next
  case start
  have "sys_step (x_oor x) cap qcap (e_sys e) (e_sys e')" using start sys_step.start[of "e_sys e" "x_oor x" cap qcap] by simp
  moreover have "ws_run (x_api x) (x_uninit x) (subscription x (w_cfg (e_ws e))) (e_ws e) (e_ws e')"
    using start ws_run.start[of "e_ws e"] by (simp add: client_start_def)
  ultimately show ?thesis using start(1) by (simp add: engine_link_def r_into_rtranclp)
next
  case stop_network
  have "sys_step (x_oor x) cap qcap (e_sys e) (e_sys e')"
    using stop_network sys_step.stop_network[of "e_sys e" "x_oor x" cap qcap] by (simp add: set_rt_def)
  moreover have "ws_run (x_api x) (x_uninit x) (subscription x (w_cfg (e_ws e))) (e_ws e) (e_ws e')"
    using stop_network(1) ws_run.stop[of _ _ _ "e_ws e"] by (simp add: set_rt_def)
  ultimately show ?thesis using stop_network(1) assms(2) by (simp add: engine_link_def set_rt_def r_into_rtranclp)
next
  case joined
  then show ?thesis using assms(2) sys_step.net_joined[of "e_sys e"] by (auto simp: engine_link_def)
next
  case stop_loop
  then show ?thesis using assms(2) sys_step.stop_loop[of "e_sys e"] by (auto simp: engine_link_def set_rt_def)
qed

interpretation es: simulation "engine_step x cap qcap" "sys_step (x_oor x) cap qcap" e_sys engine_link for x cap qcap
  by unfold_locales (use engine_step_sim in blast)+

interpretation ew: simulation "engine_step x cap qcap" "ws_run (x_api x) (x_uninit x) (subscription x c)" e_ws
    "\<lambda>e. engine_link e \<and> w_cfg (e_ws e) = c" for x cap qcap c
  by unfold_locales (use engine_step_sim ws_cfg_runs in metis)+

lemma engine_link_start: "engine_link (engine_start cap qcap c)" "w_cfg (e_ws (engine_start cap qcap c)) = c_ws (cfg (new_runtime cap qcap c))"
  by (simp_all add: engine_start_def engine_link_def)

lemma engine_sim:
  assumes "(engine_step x cap qcap)\<^sup>*\<^sup>* (engine_start cap qcap c) e"
  shows "(sys_step (x_oor x) cap qcap)\<^sup>*\<^sup>* (sys_start cap qcap c) (e_sys e)"
    "(ws_run (x_api x) (x_uninit x) (subscription x (c_ws (cfg (new_runtime cap qcap c)))))\<^sup>*\<^sup>* (hooked_client (c_ws (cfg (new_runtime cap qcap c)))) (e_ws e)"
    "w_cfg (e_ws e) = c_ws (cfg (new_runtime cap qcap c))"
  using es.sim_run[OF assms] ew.sim_run[OF assms] ew.links.run_inv[OF assms] engine_link_start[of cap qcap c] by (auto simp: engine_start_def)

section \<open>Accounting for every message\<close>

fun pending :: "net_pc \<Rightarrow> MarketEvent list" where
  "pending (Chunks ts cs) = map (l2_event ts) (chunks cs)"
| "pending (Final ev) = [ev]"
| "pending (Retry ev n) = [ev]"
| "pending _ = []"

text \<open>Whether the message of the callback is still to be counted as received.\<close>

fun uncounted :: "net_pc \<Rightarrow> u64" where
  "uncounted (Chunks ts cs) = 1"
| "uncounted (Final ev) = 1"
| "uncounted _ = 0"

definition net_counters :: "Metrics \<Rightarrow> u64 list" where
  "net_counters m = [msgsReceived m, parseErrors m, reconnects m, queueFullDrops m]"

definition feed_events :: "(double \<Rightarrow> int) \<Rightarrow> double \<Rightarrow> ws_call list \<Rightarrow> MarketEvent list" where
  "feed_events oor tick cs = concat (map (\<lambda>(m, t). events_of oor tick m t) (delivered cs))"

text \<open>The events handed over so far: those enqueued are a subsequence and the rest is counted.\<close>

definition handed_over :: "MarketEvent list \<Rightarrow> MarketEvent list \<Rightarrow> u64 \<Rightarrow> bool" where
  "handed_over es acc drops \<longleftrightarrow> (\<exists>d. subseq acc es \<and> length es = length acc + d \<and> drops = of_nat d)"

lemma handed_over_push: "handed_over es acc d \<Longrightarrow> handed_over (es @ [v]) (acc @ [v]) d"
  by (auto simp: handed_over_def)

lemma handed_over_drop: "handed_over es acc d \<Longrightarrow> handed_over (es @ [v]) acc (d + 1)"
proof -
  assume "handed_over es acc d"
  then obtain k where "subseq acc es" "length es = length acc + k" "d = of_nat k" by (auto simp: handed_over_def)
  then show ?thesis unfolding handed_over_def by (intro exI[of _ "Suc k"]) (simp add: subseq_rev_drop_many)
qed

definition accounts :: "(double \<Rightarrow> int) \<Rightarrow> RuntimeConfig \<Rightarrow> engine \<Rightarrow> bool" where
  "accounts oor c e \<longleftrightarrow> (let m = metrics (rt (e_sys e)); cs = w_calls (e_ws e) in
     cfg (rt (e_sys e)) = c \<and>
     (\<exists>es. feed_events oor (c_tick_size c) cs = es @ pending (e_net e) \<and> handed_over es (sent (e_sys e)) (queueFullDrops m)) \<and>
     msgsReceived m + uncounted (e_net e) = of_nat (length (delivered cs)) \<and>
     parseErrors m = of_nat (count_list cs CallParseError) \<and> reconnects m = of_nat (count_list cs CallReconnect))"

text \<open>One access of the callback hands over at most the first pending event.\<close>

lemma cb_next_pending:
  assumes "cb_next qcap p q m = (p', ev, q', m')"
  shows "pending p' = pending p \<and> ev = None \<and> queueFullDrops m' = queueFullDrops m \<or>
    (\<exists>v. pending p = v # pending p' \<and> (ev = Some v \<and> queueFullDrops m' = queueFullDrops m \<or> ev = None \<and> queueFullDrops m' = queueFullDrops m + 1))"
proof (cases "(qcap, p, q, m)" rule: cb_next.cases)
  case (2 qc ts cs qq mm)
  then have p: "p = Chunks ts cs" by simp
  show ?thesis
  proof (cases "length cs \<le> L2_CHANGES")
    case True
    then have "p' = Final (l2_event ts cs)" "ev = None" "m' = m" using assms p by (simp_all add: Let_def l2_event_def)
    then show ?thesis using True p by (simp add: chunks.simps[of cs])
  next
    case False
    then have "pending p = l2_event ts (take L2_CHANGES cs) # pending (Chunks ts (drop L2_CHANGES cs))" using p by (simp add: chunks.simps[of cs])
    then show ?thesis using assms p False
      by (auto simp: Let_def l2_event_def count_drop_def min_def split: prod.splits bool.splits)
  qed
qed (use assms in \<open>auto simp: Let_def count_drop_def split: if_splits prod.splits bool.splits\<close>)

lemma cb_next_counts:
  assumes "cb_next qcap p q m = (p', ev, q', m')"
  shows "msgsReceived m' + uncounted p' = msgsReceived m + uncounted p" "parseErrors m' = parseErrors m" "reconnects m' = reconnects m"
  using assms by (cases "(qcap, p, q, m)" rule: cb_next.cases; auto simp: Let_def count_drop_def split: if_splits prod.splits bool.splits)+

lemma accounts_callback:
  assumes "accounts oor c e" shows "accounts oor c (callback_access qcap e)"
proof -
  let ?s = "e_sys e"
  obtain p ev q m where n: "cb_next qcap (e_net e) (queue (rt ?s)) (metrics (rt ?s)) = (p, ev, q, m)" by (rule prod_cases4)
  from assms obtain es where es: "feed_events oor (c_tick_size c) (w_calls (e_ws e)) = es @ pending (e_net e)"
    "handed_over es (sent ?s) (queueFullDrops (metrics (rt ?s)))" by (auto simp: accounts_def Let_def)
  have "\<exists>es'. feed_events oor (c_tick_size c) (w_calls (e_ws e)) = es' @ pending p \<and>
      handed_over es' (sent ?s @ (case ev of None \<Rightarrow> [] | Some v \<Rightarrow> [v])) (queueFullDrops m)"
    using cb_next_pending[OF n]
  proof (elim disjE exE conjE)
    fix v assume v: "pending (e_net e) = v # pending p"
    { assume "ev = Some v" "queueFullDrops m = queueFullDrops (metrics (rt ?s))"
      then show ?thesis using es v handed_over_push[OF es(2), of v] by (intro exI[of _ "es @ [v]"]) simp }
    { assume "ev = None" "queueFullDrops m = queueFullDrops (metrics (rt ?s)) + 1"
      then show ?thesis using es v handed_over_drop[OF es(2), of v] by (intro exI[of _ "es @ [v]"]) simp }
  qed (use es in auto)
  then show ?thesis using assms n cb_next_counts[OF n] by (simp add: accounts_def callback_access_def Let_def)
qed

lemma process_net_counters: "net_counters (metrics (processEvent oor cap clk ev r)) = net_counters (metrics r)"
    "cfg (processEvent oor cap clk ev r) = cfg r"
proof -
  have d: "net_counters (metrics (dispatchOrder oor cap clk sg r)) = net_counters (metrics r)" for sg r
    unfolding dispatchOrder_def Let_def net_counters_def by (simp add: publishPnl_def Let_def)
  have s: "net_counters (metrics (snd (signalled oor cap clk ts r))) = net_counters (metrics r)" for ts r
    by (simp add: signalled_def net_counters_def Let_def split: prod.split)
  have "net_counters (metrics (after_book oor cap clk ts r)) = net_counters (metrics r)" for ts r by (simp add: after_book_eq d s)
  then show "net_counters (metrics (processEvent oor cap clk ev r)) = net_counters (metrics r)"
    by (simp add: processEvent_def Let_def net_counters_def split: EventBody.split)
  show "cfg (processEvent oor cap clk ev r) = cfg r"
    by (simp add: processEvent_def Let_def after_book_eq signalled_fields dispatch_fields split: EventBody.split)
qed

lemma loop_frame:
  assumes "loop_step oor cap qcap s s'"
  shows "net_counters (metrics (rt s')) = net_counters (metrics (rt s))" "cfg (rt s') = cfg (rt s)" "sent s' = sent s"
  using assms by (cases rule: loop_step.cases; simp add: process_net_counters reset_on_reconnect_def)+

lemma accounts_frame:
  assumes "accounts oor c e" "net_counters (metrics (rt (e_sys e'))) = net_counters (metrics (rt (e_sys e)))" "cfg (rt (e_sys e')) = cfg (rt (e_sys e))"
    "sent (e_sys e') = sent (e_sys e)" "e_net e' = e_net e" "delivered (w_calls (e_ws e')) = delivered (w_calls (e_ws e))"
    "count_list (w_calls (e_ws e')) CallParseError = count_list (w_calls (e_ws e)) CallParseError"
    "count_list (w_calls (e_ws e')) CallReconnect = count_list (w_calls (e_ws e)) CallReconnect"
  shows "accounts oor c e'"
  using assms by (simp add: accounts_def net_counters_def feed_events_def Let_def)

lemma enter_pending:
  assumes "enter_callback oor tick pd msg ts m = (p, m')"
  shows "pending p = events_of oor tick msg ts" "msgsReceived m' + uncounted p = msgsReceived m + 1" "parseErrors m' = parseErrors m"
    "reconnects m' = reconnects m" "queueFullDrops m' = queueFullDrops m"
  using assms by (auto simp: enter_callback_def Let_def events_of_def split: CoinbaseMsgType.splits)

lemma accounts_client:
  assumes "accounts (x_oor x) c e" "e_net e = InClient" "ws_step api uninit sub (e_ws e) w" "w_calls w = w_calls (e_ws e) @ cs"
  shows "accounts (x_oor x) c (fold (call_effect x pd) cs (e\<lparr>e_ws := w\<rparr>))"
proof -
  have cs: "list_all is_quiet cs \<or> (\<exists>t l. is_log l \<and> cs = [Subscribed t, l, CallReconnect]) \<or> cs = [CallParseError] \<or>
     (\<exists>ls msg ts. list_all is_log ls \<and> cs = ls @ [CallMessage msg ts])"
    using ws_step_calls[OF assms(3)] assms(4) by simp
  have msg: "accounts (x_oor x) c (call_effect x pd (CallMessage msg ts) (e\<lparr>e_ws := w\<rparr>))" if "list_all is_log ls" "cs = ls @ [CallMessage msg ts]" for ls msg ts
  proof -
    have tk: "cfg (rt (e_sys e)) = c" using assms(1) by (simp add: accounts_def Let_def)
    obtain p m where n: "enter_callback (x_oor x) (c_tick_size c) pd msg ts (metrics (rt (e_sys e))) = (p, m)" by fastforce
    show ?thesis using assms(1,2,4) that(2) n tk enter_pending[OF n] quiet_calls(2-4)[OF logs_quiet[OF that(1)]]
      by (simp add: accounts_def set_rt_def feed_events_def Let_def)
  qed
  show ?thesis using cs
  proof (elim disjE exE conjE)
    show ?thesis if "list_all is_quiet cs"
      unfolding quiet_calls(1)[OF that] by (rule accounts_frame[OF assms(1)]) (simp_all add: assms(2,4) quiet_calls(2-4)[OF that])
    show ?thesis if "list_all is_log ls" "cs = ls @ [CallMessage msg ts]" for ls msg ts
      using msg[OF that] unfolding that(2) by (simp add: quiet_calls(1)[OF logs_quiet[OF that(1)]])
    show ?thesis if "cs = [CallParseError]"
      using that assms by (simp add: accounts_def set_rt_def feed_events_def parseErrorCallback_def Let_def)
    show ?thesis if "is_log l" "cs = [Subscribed t, l, CallReconnect]" for t l
      using that assms by (cases l) (simp_all add: accounts_def set_rt_def feed_events_def reconnectCallback_def Let_def)
  qed
qed

lemma accounts_step:
  assumes "engine_step x cap qcap e e'" "accounts (x_oor x) c e" shows "accounts (x_oor x) c e'"
  using assms(1)
proof (cases rule: engine_step.cases)
  case (client w cs pd)
  then show ?thesis using accounts_client[OF assms(2)] by simp
next
  case callback
  then show ?thesis using accounts_callback[OF assms(2)] by simp
next
  case (strategy s)
  then show ?thesis using loop_frame[OF strategy(3)] by (simp add: accounts_frame[OF assms(2)])
qed (simp_all add: accounts_frame[OF assms(2)] set_rt_def start_flags_def client_start_def stop_started_def stop_running_def)

lemma accounts_start: "accounts oor (cfg (new_runtime cap qcap c)) (engine_start cap qcap c)"
proof -
  have "metrics (new_runtime cap qcap c) = new_metrics" by (simp add: new_runtime_def publishPnl_def Let_def)
  then show ?thesis
    by (simp add: accounts_def engine_start_def sys_start_def feed_events_def handed_over_def Let_def new_metrics_def)
qed

interpretation ac: step_invariant "engine_step x cap qcap" "accounts (x_oor x) c" for x cap qcap c
  by unfold_locales (rule accounts_step)

lemma accounts_reachable:
  assumes "(engine_step x cap qcap)\<^sup>*\<^sup>* (engine_start cap qcap c) e" shows "accounts (x_oor x) (cfg (new_runtime cap qcap c)) e"
  by (rule ac.run_inv[OF assms accounts_start])

section \<open>Shutting down\<close>

text \<open>The steps of the network thread, in the client or in the callback.\<close>

definition net_step :: "'v world \<Rightarrow> nat \<Rightarrow> engine \<Rightarrow> engine \<Rightarrow> bool" where
  "net_step x qcap e e' \<longleftrightarrow> (if e_net e = InClient
     then (\<exists>w cs pd. ws_step (x_api x) (x_uninit x) (subscription x (w_cfg (e_ws e))) (e_ws e) w \<and> w_calls w = w_calls (e_ws e) @ cs \<and>
        e' = fold (call_effect x pd) cs (e\<lparr>e_ws := w\<rparr>))
     else e' = callback_access qcap e)"

lemma cb_next_decreases:
  assumes "cb_next qcap p q m = (p', ev, q', m')" "p \<noteq> InClient" shows "cb_steps p' < cb_steps p"
  using assms
  by (cases "(qcap, p, q, m)" rule: cb_next.cases)
    (auto simp: cb_steps_def Let_def L2_CHANGES_def split: if_splits prod.splits bool.splits)

lemma call_effect_ws [simp]: "e_ws (call_effect x pd c e) = e_ws e"
  by (cases c) (simp_all add: set_rt_def split: prod.split)

lemma calls_effect_ws [simp]: "e_ws (fold (call_effect x pd) cs e) = e_ws e"
  by (induction cs arbitrary: e) simp_all

lemma net_step_decreases:
  assumes "net_step x qcap e e'" "\<not> w_running (e_ws e)"
  shows "((rank (w_pc (e_ws e')), cb_steps (e_net e')), (rank (w_pc (e_ws e)), cb_steps (e_net e))) \<in> less_than <*lex*> less_than \<and> \<not> w_running (e_ws e')"
proof (cases "e_net e = InClient")
  case True
  then obtain w cs pd where w: "ws_step (x_api x) (x_uninit x) (subscription x (w_cfg (e_ws e))) (e_ws e) w" "e' = fold (call_effect x pd) cs (e\<lparr>e_ws := w\<rparr>)"
    using assms(1) by (auto simp: net_step_def)
  then show ?thesis using stopped_step[OF w(1) assms(2)] by simp
next
  case False
  obtain p ev q m where n: "cb_next qcap (e_net e) (queue (rt (e_sys e))) (metrics (rt (e_sys e))) = (p, ev, q, m)" by (rule prod_cases4)
  then have "e_net e' = p" "e_ws e' = e_ws e" using False assms(1) by (simp_all add: net_step_def callback_access_def)
  then show ?thesis using cb_next_decreases[OF n False] assms(2) by simp
qed

fun loop_rank :: "strategy_pc \<Rightarrow> nat" where
  "loop_rank Popping = 3"
| "loop_rank Checking = 2"
| "loop_rank Draining = 1"
| "loop_rank _ = 0"

lemma loop_decreases:
  assumes "loop_step oor cap qcap s s'" "\<not> running (rt s)" "spsc_inv qcap (queue (rt s))"
  shows "\<not> running (rt s') \<and> spsc_inv qcap (queue (rt s')) \<and> pc s' \<noteq> NotStarted \<and>
    length (spsc_contents qcap (queue (rt s'))) + loop_rank (pc s') < length (spsc_contents qcap (queue (rt s))) + loop_rank (pc s)"
  using assms(1)
proof (cases rule: loop_step.cases)
  case (pop_event ev q clk)
  note q = pop_queue[OF assms(3) pop_event(3)]
  show ?thesis using pop_event q(1,2) assms(2) by auto
next
  case (pop_none q)
  note q = pop_queue[OF assms(3) pop_none(3)]
  show ?thesis using pop_none q assms(2) by simp
next
  case (drain_done q)
  note q = pop_queue[OF assms(3) drain_done(3)]
  show ?thesis using drain_done q assms(2) by simp
qed (use assms(2,3) in auto)

interpretation dr: step_bound "loop_step oor cap qcap" "\<lambda>s. \<not> running (rt s) \<and> spsc_inv qcap (queue (rt s)) \<and> pc s \<noteq> NotStarted"
    "\<lambda>s. length (spsc_contents qcap (queue (rt s))) + loop_rank (pc s)" for oor cap qcap
  by unfold_locales (use loop_decreases in blast)+

lemma loop_enabled: "(\<exists>s'. loop_step oor cap qcap s s') \<longleftrightarrow> pc s \<noteq> NotStarted \<and> pc s \<noteq> Finished"
proof -
  obtain r q where "try_pop qcap (queue (rt s)) = (r, q)" by fastforce
  then show ?thesis unfolding loop_step_iff by (cases "pc s"; cases r; cases "running (rt s)"; cases "bookInvalidate (rt s)") auto
qed

section \<open>Properties of the engine\<close>

text \<open>
  C9. The engine, with all its threads interleaved at every access to shared state and any behaviour
  of the network, runs within its two halves: what the strategy side sees is a run of the loop
  against a network thread, and what the network side does is a run of the client. So every
  property of a reachable state of either half holds in the engine.
\<close>

theorem engine_refines_parts:
  assumes "(engine_step x cap qcap)\<^sup>*\<^sup>* (engine_start cap qcap c) e"
  shows "(sys_step (x_oor x) cap qcap)\<^sup>*\<^sup>* (sys_start cap qcap c) (e_sys e) \<and>
    (ws_run (x_api x) (x_uninit x) (subscription x (w_cfg (e_ws e))))\<^sup>*\<^sup>* (hooked_client (w_cfg (e_ws e))) (e_ws e) \<and>
    w_cfg (e_ws e) = (c_ws c)\<lparr>ws_product_ids := [c_product_id c], ws_coreId := networkCoreId c\<rparr>"
proof -
  have c: "c_ws (cfg (new_runtime cap qcap c)) = (c_ws c)\<lparr>ws_product_ids := [c_product_id c], ws_coreId := networkCoreId c\<rparr>"
    by (simp add: new_runtime_def publishPnl_def Let_def)
  show ?thesis using engine_sim[OF assms] unfolding c by auto
qed

text \<open>
  C2. From the wire to the strategy nothing is lost silently, duplicated or reordered. In every
  reachable state the events enqueued are, in order, among the events of the messages that the
  parser delivered; the missing ones are exactly those counted as dropped; the events processed are
  the first of the enqueued ones; and the counters of messages, parse errors and reconnects are
  those of the trace of the network thread.
\<close>

theorem engine_accounts_for_messages:
  assumes "book_cap cap" "queue_cap qcap" "(engine_step x cap qcap)\<^sup>*\<^sup>* (engine_start cap qcap c) e"
  shows "(\<exists>es d. feed_events (x_oor x) (c_tick_size c) (w_calls (e_ws e)) = es @ pending (e_net e) \<and>
      subseq (sent (e_sys e)) es \<and> length es = length (sent (e_sys e)) + d \<and> queueFullDrops (metrics (rt (e_sys e))) = of_nat d) \<and>
    sent (e_sys e) = seen (e_sys e) @ spsc_contents qcap (queue (rt (e_sys e))) \<and>
    msgsReceived (metrics (rt (e_sys e))) + uncounted (e_net e) = of_nat (length (delivered (w_calls (e_ws e)))) \<and>
    parseErrors (metrics (rt (e_sys e))) = of_nat (count_list (w_calls (e_ws e)) CallParseError) \<and>
    reconnects (metrics (rt (e_sys e))) = of_nat (count_list (w_calls (e_ws e)) CallReconnect)"
proof -
  have t: "c_tick_size (cfg (new_runtime cap qcap c)) = c_tick_size c" by (simp add: new_runtime_def publishPnl_def Let_def)
  note a = accounts_reachable[OF assms(3)]
  have "\<exists>es d. feed_events (x_oor x) (c_tick_size c) (w_calls (e_ws e)) = es @ pending (e_net e) \<and>
      subseq (sent (e_sys e)) es \<and> length es = length (sent (e_sys e)) + d \<and> queueFullDrops (metrics (rt (e_sys e))) = of_nat d"
    using a t by (fastforce simp: accounts_def handed_over_def Let_def)
  moreover have "sent (e_sys e) = seen (e_sys e) @ spsc_contents qcap (queue (rt (e_sys e)))"
    using sys_inv_reachable[OF assms(1,2)] engine_sim[OF assms(3)] by (auto simp: sys_inv_def)
  ultimately show ?thesis using a by (simp add: accounts_def Let_def)
qed

text \<open>
  The two forms of the message callback, as one function and cut at its accesses to the queue as the
  engine runs it, are the same when nothing interferes: within a bounded number of accesses the
  second returns with the queue and the counters of the first.
\<close>

lemma callback_in_pieces:
  assumes "enter_callback oor tick pd msg ts m = (p, m1)" "length (m_changes msg) + SNAPSHOT_RETRIES + 4 \<le> k"
  shows "cb_run qcap k p q m1 = (case onCoinbaseMessage oor qcap (\<lambda>_ q. q) tick pd msg ts (q, m) of (q', m') \<Rightarrow> (InClient, q', m'))"
proof -
  have "cb_steps p \<le> k" using assms by (auto simp: enter_callback_def cb_steps_def Let_def split: CoinbaseMsgType.splits)
  from cb_run_message[OF assms(1) this] show ?thesis .
qed

text \<open>
  Shutting down ends. Once the client is told to stop, the network thread makes no infinite
  sequence of steps, whatever the network delivers and whatever message it is handling. Once the
  loop is told to stop, it makes at most three more steps than there are events in the queue, and
  where it can make no more it has finished.
\<close>

theorem shutdown_terminates:
  shows "(\<not> w_running (e_ws (f 0)) \<longrightarrow> \<not> (\<forall>i. net_step x qcap (f i) (f (Suc i)))) \<and>
    ((loop_step oor cap qcap ^^ k) s s' \<and> \<not> running (rt s) \<and> spsc_inv qcap (queue (rt s)) \<and> pc s \<noteq> NotStarted \<longrightarrow>
      k \<le> length (spsc_contents qcap (queue (rt s))) + 3 \<and> (pc s' = Finished \<or> (\<exists>s''. loop_step oor cap qcap s' s'')))"
proof (intro conjI impI notI)
  assume stopped: "\<not> w_running (e_ws (f 0))" and s: "\<forall>i. net_step x qcap (f i) (f (Suc i))"
  have r: "\<not> w_running (e_ws (f i))" for i
    by (induction i) (use stopped s net_step_decreases in blast)+
  define g where "g i = (rank (w_pc (e_ws (f i))), cb_steps (e_net (f i)))" for i
  have "\<forall>i. (g (Suc i), g i) \<in> less_than <*lex*> less_than" using s r net_step_decreases unfolding g_def by blast
  then show False using wf_iff_no_infinite_down_chain[of "less_than <*lex*> less_than"] wf_lex_prod[OF wf_less_than wf_less_than] by blast
next
  assume "(loop_step oor cap qcap ^^ k) s s' \<and> \<not> running (rt s) \<and> spsc_inv qcap (queue (rt s)) \<and> pc s \<noteq> NotStarted"
  then have a: "(loop_step oor cap qcap ^^ k) s s'" "\<not> running (rt s)" "spsc_inv qcap (queue (rt s))" "pc s \<noteq> NotStarted" by blast+
  have "loop_rank (pc s) \<le> 3" by (cases "pc s") simp_all
  then show "k \<le> length (spsc_contents qcap (queue (rt s))) + 3" using dr.run_bound[OF a(1)] a(2-4) by fastforce
  show "pc s' = Finished \<or> (\<exists>s''. loop_step oor cap qcap s' s'')" using dr.run_bound[OF a(1)] a(2-4) loop_enabled[of _ _ _ s'] by blast
qed

section \<open>Runs of the engine\<close>

lemma new_runtime_fields:
  defines "r cap qcap c \<equiv> new_runtime cap qcap c"
  shows "rt_book (r cap qcap c) = new_book cap" "cfg (r cap qcap c) = c\<lparr>c_ws := (c_ws c)\<lparr>ws_product_ids := [c_product_id c], ws_coreId := networkCoreId c\<rparr>\<rparr>"
    "risk_mgr (r cap qcap c) = configure (c_symbolId c) (c_max_position c) (c_initial_cash c) (c_tick_size c) new_risk"
    "strat (r cap qcap c) = setInitialCash (c_initial_cash c) (setSymbol (c_symbolId c) (c_tick_size c) (new_strategy (c_strategy c)))"
  by (simp_all add: r_def new_runtime_def)

lemma client_quiet:
  assumes "alive e" "e_net e = InClient" "ws_step (x_api x) (x_uninit x) (subscription x (w_cfg (e_ws e))) (e_ws e) w"
    "w_calls w = w_calls (e_ws e) @ cs" "list_all is_quiet cs"
  shows "engine_step x cap qcap e (e\<lparr>e_ws := w\<rparr>)"
  using engine_step.client[OF assms(1-4), of cap qcap 0] unfolding quiet_calls(1)[OF assms(5)] .

text \<open>A run of the engine from its start to the first read, and through a message of one event into the queue.\<close>

definition first_session :: "nat \<Rightarrow> nat \<Rightarrow> RuntimeConfig \<Rightarrow> engine" where
  "first_session cap qcap c = (let e = engine_start cap qcap c in
     e\<lparr>e_sys := (e_sys e)\<lparr>rt := start_flags (rt (e_sys e)), pc := Checking, ws_on := True\<rparr>, e_ws := client_start (e_ws e)\<rparr>)"

lemma first_session_fields:
  defines "e cap qcap c \<equiv> first_session cap qcap c"
  shows "w_pc (e_ws (e cap qcap c)) = WsTop" "w_running (e_ws (e cap qcap c))" "e_net (e cap qcap c) = InClient" "sent (e_sys (e cap qcap c)) = []"
    "seen (e_sys (e cap qcap c)) = []" "pc (e_sys (e cap qcap c)) = Checking" "w_calls (e_ws (e cap qcap c)) = [Started, PinThread (networkCoreId c)]" "w_hooks (e_ws (e cap qcap c)) = all_hooks" "\<not> w_hasConnectedOnce (e_ws (e cap qcap c))"
    "w_clock (e_ws (e cap qcap c)) = 0" "w_cfg (e_ws (e cap qcap c)) = c_ws (cfg (new_runtime cap qcap c))"
    "rt (e_sys (e cap qcap c)) = (new_runtime cap qcap c)\<lparr>started := True, running := True\<rparr>"
  by (simp_all add: e_def first_session_def engine_start_def sys_start_def client_start_def start_flags_def)
    (simp_all add: new_runtime_def publishPnl_def Let_def)

lemma first_session_step: "engine_step x cap qcap (engine_start cap qcap c) (first_session cap qcap c)"
  unfolding first_session_def Let_def
  by (rule engine_step.start) (simp_all add: alive_def engine_start_def sys_start_def new_runtime_def publishPnl_def Let_def)

lemma first_read_run:
  assumes "subscription x (c_ws (cfg (new_runtime cap qcap c))) secs = Some line" "1 \<le> heartbeatTimeout_s (c_ws c)"
  shows "\<exists>w. (engine_step x cap qcap)\<^sup>*\<^sup>* (engine_start cap qcap c) ((first_session cap qcap c)\<lparr>e_ws := w\<rparr>) \<and> w_pc w = WsReading \<and> w_clock w = 2 \<and>
    w_hooks w = all_hooks \<and> w_calls w = [Started, PinThread (networkCoreId c), Subscribed line, connected_line]"
proof -
  let ?r = "engine_step x cap qcap" and ?c = "c_ws (cfg (new_runtime cap qcap c))"
  define e where "e = first_session cap qcap c"
  note f = first_session_fields[of cap qcap c, folded e_def]
  define w2 w3 where "w2 = (e_ws e)\<lparr>w_pc := WsConnect\<rparr>" and "w3 = connected line 1 w2"
  define w4 where "w4 = w3\<lparr>w_clock := 2, w_pc := WsReading\<rparr>"
  have s1: "?r (engine_start cap qcap c) e" unfolding e_def by (rule first_session_step)
  have s2: "?r e (e\<lparr>e_ws := w2\<rparr>)"
    by (rule client_quiet[where cs = "[]"]) (use f top_run[of "e_ws e"] in \<open>simp_all add: alive_def w2_def\<close>)
  have w3: "w_calls w3 = [Started, PinThread (networkCoreId c), Subscribed line, connected_line]" "w_pc w3 = WsCheck" "w_running w3" "w_clock w3 = 1" "w_cfg w3 = ?c" "w_lastSeen w3 = 1"
    "w_hooks w3 = all_hooks"
    using f by (simp_all add: w3_def w2_def connected_def connected_line_def)
  have s3: "?r (e\<lparr>e_ws := w2\<rparr>) (e\<lparr>e_ws := w3\<rparr>)"
    using client_quiet[of "e\<lparr>e_ws := w2\<rparr>" x w3 "[Subscribed line, connected_line]" cap qcap] f w3(1) assms(1)
      connect_ok[of w2 "subscription x (w_cfg w2)" secs line 1 "x_api x" "x_uninit x"]
    by (simp add: alive_def w2_def w3_def connected_line_def)
  have "heartbeatTimeout_s ?c = heartbeatTimeout_s (c_ws c)" by (simp add: new_runtime_fields)
  then have "\<not> timed_out w3 2" using assms(2) by (simp add: timed_out_def w3)
  then have "ws_step (x_api x) (x_uninit x) (subscription x (w_cfg w3)) w3 w4"
    unfolding w4_def by (intro check_read) (simp_all add: w3)
  then have "?r (e\<lparr>e_ws := w3\<rparr>) (e\<lparr>e_ws := w4\<rparr>)"
    using client_quiet[of "e\<lparr>e_ws := w3\<rparr>" x w4 "[]" cap qcap] f w3 by (simp add: alive_def w4_def)
  with s1 s2 s3 have "?r\<^sup>*\<^sup>* (engine_start cap qcap c) (e\<lparr>e_ws := w4\<rparr>)"
    by (meson converse_rtranclp_into_rtranclp rtranclp.rtrancl_refl)
  then show ?thesis using w3 by (intro exI[of _ w4]) (simp add: e_def w4_def)
qed

lemma message_run:
  assumes "subscription x (c_ws (cfg (new_runtime cap qcap c))) secs = Some line" "1 \<le> heartbeatTimeout_s (c_ws c)"
    "\<And>b. parse (x_api x) (x_uninit x) js b = (Ok, msg)" "m_type msg = MsgSnapshot \<or> m_type msg = MsgHeartbeat"
    "events_of (x_oor x) (c_tick_size c) msg 3 = [ev]" "queue_cap qcap"
  shows "\<exists>e q. (engine_step x cap qcap)\<^sup>*\<^sup>* (engine_start cap qcap c) e \<and> alive e \<and> e_net e = Depth \<and> delivered (w_calls (e_ws e)) = [(msg, 3)] \<and>
    sent (e_sys e) = [ev] \<and> seen (e_sys e) = [] \<and> pc (e_sys e) = Checking \<and> spsc_inv qcap q \<and> spsc_contents qcap q = [ev] \<and>
    (\<exists>m. rt (e_sys e) = (new_runtime cap qcap c)\<lparr>started := True, running := True, queue := q, metrics := m\<rparr>)"
proof -
  let ?r = "engine_step x cap qcap" and ?e = "first_session cap qcap c"
  note f = first_session_fields[of cap qcap c]
  obtain w where w: "?r\<^sup>*\<^sup>* (engine_start cap qcap c) (?e\<lparr>e_ws := w\<rparr>)" "w_pc w = WsReading" "w_clock w = 2" "w_calls w = [Started, PinThread (networkCoreId c), Subscribed line, connected_line]"
    "w_hooks w = all_hooks"
    using first_read_run[OF assms(1,2)] by blast
  define w' where "w' = received (x_api x) (x_uninit x) js 3 4 w"
  have w': "w_calls w' = w_calls w @ [CallMessage msg 3]" "w_pc w' = WsCheck" using assms(4) w(5) by (auto simp: w'_def received_def assms(3))
  have "ws_step (x_api x) (x_uninit x) (subscription x (w_cfg w)) w w'" unfolding w'_def by (rule read_text) (simp_all add: w)
  define e1 where "e1 = fold (call_effect x 5) [CallMessage msg 3] (?e\<lparr>e_ws := w'\<rparr>)"
  have s1: "?r (?e\<lparr>e_ws := w\<rparr>) e1" unfolding e1_def using engine_step.client[of "?e\<lparr>e_ws := w\<rparr>" x w' "[CallMessage msg 3]" cap qcap 5]
      f w w' \<open>ws_step _ _ _ w w'\<close> by (simp add: alive_def)
  have t: "c_tick_size (cfg (new_runtime cap qcap c)) = c_tick_size c" by (simp add: new_runtime_fields)
  obtain m where m: "enter_callback (x_oor x) (c_tick_size c) 5 msg 3 (metrics (new_runtime cap qcap c)) = (Final ev, m)"
    using assms(4,5) by (auto simp: enter_callback_def events_of_def Let_def)
  have f1: "e_net e1 = Final ev" "rt (e_sys e1) = (new_runtime cap qcap c)\<lparr>started := True, running := True, metrics := m\<rparr>" "sent (e_sys e1) = []"
    "seen (e_sys e1) = []" "pc (e_sys e1) = Checking" "e_ws e1 = w'"
    using f m t by (simp_all add: e1_def set_rt_def)
  have q0: "queue (rt (e_sys e1)) = spsc_new qcap new_event" using f1(2) by (simp add: new_runtime_def publishPnl_def Let_def)
  obtain ok q where p: "try_push qcap ev (queue (rt (e_sys e1))) = (ok, q)" by fastforce
  have q: "ok" "spsc_inv qcap q" "spsc_contents qcap q = [ev]"
    using spsc.push_ok[of qcap "spsc_new qcap new_event" ev] push_queue[of qcap "spsc_new qcap new_event" ev ok q] p q0
      spsc_new_inv[OF assms(6), of new_event] queue_cap_bounds[OF assms(6)] by auto
  have s2: "?r e1 (callback_access qcap e1)" using engine_step.callback[of e1] f1 w' by (simp add: alive_def)
  have "?r\<^sup>*\<^sup>* (engine_start cap qcap c) (callback_access qcap e1)" using w(1) s1 s2 by (meson rtranclp.rtrancl_into_rtrancl)
  then show ?thesis using f1 p q w' w(4)
    by (intro exI[of _ "callback_access qcap e1"] exI[of _ q]) (auto simp: callback_access_def alive_def connected_line_def)
qed

lemma process_run:
  assumes "subscription x (c_ws (cfg (new_runtime cap qcap c))) secs = Some line" "1 \<le> heartbeatTimeout_s (c_ws c)"
    "\<And>b. parse (x_api x) (x_uninit x) js b = (Ok, msg)" "m_type msg = MsgSnapshot \<or> m_type msg = MsgHeartbeat"
    "events_of (x_oor x) (c_tick_size c) msg 3 = [ev]" "queue_cap qcap"
  shows "\<exists>e. (engine_step x cap qcap)\<^sup>*\<^sup>* (engine_start cap qcap c) e \<and> delivered (w_calls (e_ws e)) = [(msg, 3)] \<and> seen (e_sys e) = [ev] \<and>
    bookReady (rt (e_sys e)) = is_snapshot ev"
proof -
  obtain e q m where e: "(engine_step x cap qcap)\<^sup>*\<^sup>* (engine_start cap qcap c) e" "alive e" "e_net e = Depth" "delivered (w_calls (e_ws e)) = [(msg, 3)]"
    "seen (e_sys e) = []" "pc (e_sys e) = Checking" "spsc_inv qcap q" "spsc_contents qcap q = [ev]"
    "rt (e_sys e) = (new_runtime cap qcap c)\<lparr>started := True, running := True, queue := q, metrics := m\<rparr>"
    using message_run[OF assms] by blast
  have r: "running (rt (e_sys e))" "\<not> bookInvalidate (rt (e_sys e))" "\<not> bookReady (rt (e_sys e))" "queue (rt (e_sys e)) = q"
    using e(9) by (simp_all add: new_runtime_def publishPnl_def Let_def)
  define s where "s = (e_sys e)\<lparr>pc := Popping\<rparr>"
  have "loop_step (x_oor x) cap qcap (e_sys e) s" unfolding s_def using e(6) r by (intro check_quiet) simp_all
  then have s1: "engine_step x cap qcap e (e\<lparr>e_sys := s\<rparr>)" using e(2) by (rule engine_step.strategy[rotated])
  define q' where "q' = snd (try_pop qcap q)"
  have q': "try_pop qcap (queue (rt s)) = (Some ev, q')" using spsc.pop_some[OF e(7,8)] r(4) by (simp add: s_def q'_def prod_eq_iff)
  fix clk :: clock_readings
  define s' where "s' = s\<lparr>rt := processEvent (x_oor x) cap clk ev ((rt s)\<lparr>queue := q'\<rparr>),
    pc := (if pc s = Popping then Checking else Draining), seen := seen s @ [ev]\<rparr>"
  have "loop_step (x_oor x) cap qcap s s'" unfolding s'_def by (rule pop_event[OF _ q']) (simp add: s_def)
  then have s2: "engine_step x cap qcap (e\<lparr>e_sys := s\<rparr>) (e\<lparr>e_sys := s'\<rparr>)"
    using engine_step.strategy[of "e\<lparr>e_sys := s\<rparr>" x cap qcap s'] e(2) by (simp add: alive_def)
  have "bookReady (rt s') = is_snapshot ev" using r(3) by (simp add: s'_def s_def process_book is_snapshot_def)
  moreover have "(engine_step x cap qcap)\<^sup>*\<^sup>* (engine_start cap qcap c) (e\<lparr>e_sys := s'\<rparr>)" using e(1) s1 s2 by (meson rtranclp.rtrancl_into_rtrancl)
  ultimately show ?thesis using e(4,5) by (intro exI[of _ "e\<lparr>e_sys := s'\<rparr>"]) (simp add: s'_def s_def)
qed

text \<open>The engine starts, connects, and receives and enqueues a heartbeat.\<close>

definition heartbeat_doc :: sample_value where
  "heartbeat_doc = JObject [(''type'', JString ''heartbeat'')]"

definition sample_world :: "sample_value world" where
  "sample_world = \<lparr>x_ssl = sample_evp, x_dump = \<lambda>_. [], x_env = Map.empty, x_api = sample_json heartbeat_doc,
     x_uninit = \<lparr>lv_price = 0, lv_qty = 0\<rparr>, x_oor = \<lambda>_. 0\<rparr>"

definition heartbeat_msg :: CoinbaseMessage where
  "heartbeat_msg = empty_message\<lparr>m_type := MsgHeartbeat\<rparr>"

lemma sample_parse: "parse (x_api sample_world) (x_uninit sample_world) [] b = (Ok, heartbeat_msg)"
proof -
  have "parse (x_api sample_world) (x_uninit sample_world) [] empty_message = (Ok, heartbeat_msg)"
    by (simp add: parse_def sample_world_def sample_json_def heartbeat_doc_def Let_def typeFromString_def heartbeat_msg_def empty_message_def)
  then show ?thesis using parse_forgets[of "x_api sample_world" "x_uninit sample_world" "[]" b] by metis
qed

lemma sample_subscription: "subscription sample_world c ts = Some []"
  by (simp add: subscription_def buildSubscribeMessage_def subscribe_body_def sample_world_def fromEnv_def hasCredentials_def Let_def)

lemma sample_engine_run:
  "\<exists>e. (engine_step sample_world 64 4)\<^sup>*\<^sup>* (engine_start 64 4 default_config) e \<and> e_net e = Depth \<and>
    sent (e_sys e) = [\<lparr>recvNs = 3, body = Heartbeat\<rparr>] \<and> delivered (w_calls (e_ws e)) = [(heartbeat_msg, 3)]"
  using message_run[OF sample_subscription _ sample_parse, of default_config "\<lparr>recvNs = 3, body = Heartbeat\<rparr>" 4 64] queue_cap_4
  by (auto simp: default_config_def default_ws_def heartbeat_msg_def events_of_def)

text \<open>A run in which the book is built from a snapshot.\<close>

definition snapshot_doc :: sample_value where
  "snapshot_doc = JObject [(''type'', JString ''snapshot''), (''bids'', JArray [JArray [JString ''100.0'', JString ''2.0'']]), (''asks'', JArray [])]"

definition feed_world :: "sample_value world" where
  "feed_world = \<lparr>x_ssl = sample_evp, x_dump = \<lambda>_. [], x_env = Map.empty, x_api = sample_json snapshot_doc,
     x_uninit = \<lparr>lv_price = 0, lv_qty = 0\<rparr>, x_oor = \<lambda>_. 0\<rparr>"

definition feed_config :: RuntimeConfig where
  "feed_config = default_config\<lparr>c_tick_size := 1\<rparr>"

definition feed_snapshot :: MarketEvent where
  "feed_snapshot = \<lparr>recvNs = 3, body = Snapshot [\<lparr>pl_price = Price 100, pl_qty = Qty (dbl 2)\<rparr>] []\<rparr>"

lemma feed_message:
  obtains msg where "\<And>b. parse (x_api feed_world) (x_uninit feed_world) [] b = (Ok, msg)" "m_type msg = MsgSnapshot"
    "events_of (\<lambda>_. 0) 1 msg 3 = [feed_snapshot]"
proof -
  let ?p = "parse (x_api feed_world) (x_uninit feed_world) []"
  have d: "parseDouble ''100.0'' = Some (dbl 100)" "parseDouble ''2.0'' = Some (dbl 2)"
    using parse_decimal[of "''100''" "''0''"] parse_decimal[of "''2''" "''0''"]
    by (simp_all add: is_digit_def char_nat_def number_of_def digit_val_def)
  have f: "fst (?p empty_message) = Ok" "m_type (snd (?p empty_message)) = MsgSnapshot"
    "m_bids (snd (?p empty_message)) = [\<lparr>lv_price = dbl 100, lv_qty = dbl 2\<rparr>]" "m_asks (snd (?p empty_message)) = []"
    using d by (simp_all add: parse_def rows_spec feed_world_def sample_json_def snapshot_doc_def typeFromString_def row_list_def level_of_def map_filter_Cons Let_def)
  have "fromDouble (\<lambda>_. 0) (dbl 100) 1 = Price 100" using tick_one[of 100] fromDouble_toDouble[of "Price 100" 1 "\<lambda>_. 0"] px_ok_props(1)[OF px_ok_unit[of 1]] by simp
  then have e: "events_of (\<lambda>_. 0) 1 (snd (?p empty_message)) 3 = [feed_snapshot]"
    by (simp add: events_of_def f snap_levels_def SNAP_LEVELS_def feed_snapshot_def)
  have "?p b = (Ok, snd (?p empty_message))" for b
    using parse_forgets[of "x_api feed_world" "x_uninit feed_world" "[]" b "x_uninit feed_world" empty_message] f(1) by (metis prod.collapse)
  then show ?thesis using that e f(2) by blast
qed

lemma feed_run:
  "\<exists>e. (engine_step feed_world 64 4)\<^sup>*\<^sup>* (engine_start 64 4 feed_config) e \<and> bookReady (rt (e_sys e)) \<and> seen (e_sys e) = [feed_snapshot] \<and>
    feed_events (\<lambda>_. 0) 1 (w_calls (e_ws e)) = [feed_snapshot]"
proof -
  obtain msg where m: "\<And>b. parse (x_api feed_world) (x_uninit feed_world) [] b = (Ok, msg)" "m_type msg = MsgSnapshot"
    "events_of (\<lambda>_. 0) 1 msg 3 = [feed_snapshot]" by (rule feed_message) blast
  have s: "subscription feed_world k ts = Some []" for k ts
    by (simp add: subscription_def buildSubscribeMessage_def subscribe_body_def feed_world_def fromEnv_def hasCredentials_def Let_def)
  have "x_oor feed_world = (\<lambda>_. 0)" "c_tick_size feed_config = 1" "heartbeatTimeout_s (c_ws feed_config) = 30" "is_snapshot feed_snapshot"
    by (simp_all add: feed_world_def feed_config_def default_config_def default_ws_def is_snapshot_def feed_snapshot_def)
  then show ?thesis
    using process_run[OF s _ m(1), of feed_config feed_snapshot 4 64] m(2,3) queue_cap_4 by (auto simp: feed_events_def)
qed

theorem engine_accounts_for_messages_witness:
  "\<exists>e :: engine. sent (e_sys e) = [\<lparr>recvNs = 3, body = Heartbeat\<rparr>] \<and> msgsReceived (metrics (rt (e_sys e))) = 1 \<and>
    sent (e_sys e) = seen (e_sys e) @ spsc_contents 4 (queue (rt (e_sys e)))"
proof -
  obtain e where e: "(engine_step sample_world 64 4)\<^sup>*\<^sup>* (engine_start 64 4 default_config) e" "e_net e = Depth"
    "sent (e_sys e) = [\<lparr>recvNs = 3, body = Heartbeat\<rparr>]" "delivered (w_calls (e_ws e)) = [(heartbeat_msg, 3)]"
    using sample_engine_run by blast
  have "msgsReceived (metrics (rt (e_sys e))) = 1" "sent (e_sys e) = seen (e_sys e) @ spsc_contents 4 (queue (rt (e_sys e)))"
    using engine_accounts_for_messages[OF book_cap_64 queue_cap_4 e(1)] e(2,4) by simp_all
  then show ?thesis using e(3) by metis
qed

theorem engine_refines_parts_witness:
  "\<exists>s. (sys_step (\<lambda>_. 0) 64 4)\<^sup>*\<^sup>* (sys_start 64 4 default_config) s \<and> sent s = [\<lparr>recvNs = 3, body = Heartbeat\<rparr>]"
proof -
  obtain e where e: "(engine_step sample_world 64 4)\<^sup>*\<^sup>* (engine_start 64 4 default_config) e" "sent (e_sys e) = [\<lparr>recvNs = 3, body = Heartbeat\<rparr>]"
    using sample_engine_run by blast
  show ?thesis using engine_refines_parts[OF e(1)] e(2) by (intro exI[of _ "e_sys e"]) (simp add: sample_world_def)
qed

theorem shutdown_terminates_witness:
  "\<not> (\<forall>i::nat. net_step sample_world 4 (engine_start 64 4 default_config) (engine_start 64 4 default_config)) \<and>
   (\<exists>s. pc s = Draining \<and> (0 :: nat) \<le> length (spsc_contents 4 (queue (rt s))) + 3 \<and> (\<exists>s'. loop_step (\<lambda>_. 0) 64 4 s s'))"
proof -
  let ?s = "(sys_start 64 4 default_config)\<lparr>pc := Draining\<rparr>"
  have n: "\<not> w_running (e_ws (engine_start 64 4 default_config))" "\<not> running (rt ?s)" "queue (rt ?s) = spsc_new 4 new_event"
    by (simp_all add: engine_start_def sys_start_def new_runtime_def publishPnl_def Let_def)
  have i: "spsc_inv 4 (queue (rt ?s))" using spsc_new_inv[OF queue_cap_4, of new_event] n(3) by simp
  note s = shutdown_terminates[where f = "\<lambda>_. engine_start 64 4 default_config" and x = sample_world and qcap = 4 and oor = "\<lambda>_. 0"
      and cap = 64 and k = 0 and s = ?s and s' = ?s]
  have "\<not> (\<forall>i::nat. net_step sample_world 4 (engine_start 64 4 default_config) (engine_start 64 4 default_config))" using s n(1) by simp
  moreover have "pc ?s = Draining \<and> (0 :: nat) \<le> length (spsc_contents 4 (queue (rt ?s))) + 3 \<and> (\<exists>s'. loop_step (\<lambda>_. 0) 64 4 ?s s')"
    using s n(2) i by simp
  ultimately show ?thesis by blast
qed

end
