(* ===== verification/Position_Safety.thy ===== *)
theory Position_Safety
  imports Engine
begin

text \<open>
  The position limit through all layers of the program (\<^verbatim>\<open>src/core/runtime.cpp\<close> with the strategy, the sizer,
  the risk manager and the simulator): the order quantities that the strategy can produce from a
  book are finite, no operation on the way produces NaN, and so the position limit holds in
  every state that the engine reaches on a feed whose live levels are sane.
\<close>

section \<open>Arithmetic that does not produce NaN\<close>

lemma not_nan_add: "\<not> is_nan x \<Longrightarrow> is_fin y \<Longrightarrow> \<not> is_nan (x + y)"
  by transfer (case_tac x; case_tac y; auto simp: fp_round_def Let_def)

lemma not_nan_diff: "\<not> is_nan x \<Longrightarrow> is_fin y \<Longrightarrow> \<not> is_nan (x - y)"
  by (simp add: minus_double_def not_nan_add)

lemma fp_round_not_nan [simp]: "fp_round s m \<noteq> FNaN"
  by (simp add: fp_round_def Let_def)

lemma not_nan_mult: "is_fin x \<Longrightarrow> dval x \<noteq> 0 \<Longrightarrow> \<not> is_nan y \<Longrightarrow> \<not> is_nan (x * y)"
proof (transfer, goal_cases)
  case (1 x y)
  then show ?case by (cases x; cases y) (auto simp del: fp_valid.simps split: if_splits)
qed

lemma not_nan_divide: "\<not> is_nan x \<Longrightarrow> is_fin y \<Longrightarrow> dval y \<noteq> 0 \<Longrightarrow> \<not> is_nan (x / y)"
proof (transfer, goal_cases)
  case (1 x y)
  then show ?case by (cases x; cases y) (auto simp del: fp_valid.simps split: if_splits)
qed

lemma is_nan_uminus [simp]: "is_nan (- x) = is_nan x" for x :: double
  by transfer (case_tac x; simp)

lemma std_min_pos:
  assumes "\<not> is_nan x" "is_fin z" "\<not> std_min x z \<le> 0"
  shows "is_fin (std_min x z) \<and> 0 < dval (std_min x z) \<and> dval (std_min x z) \<le> dval z"
proof (cases "z < x")
  case True
  then show ?thesis using assms(2,3) by (simp add: std_min_def less_eq_fin)
next
  case False
  have "x \<le> z" using False assms(1,2) by (simp add: d_not_less)
  moreover have "0 \<le> x" using assms(1,3) False d_not_less[of x 0] d_less_imp_le[of x 0] by (auto simp: std_min_def)
  ultimately have "is_fin x" using is_fin_between[OF is_fin_0 assms(2)] by blast
  then show ?thesis using False assms(2,3) \<open>x \<le> z\<close> by (simp add: std_min_def less_eq_fin)
qed

section \<open>The quantity of an order\<close>

definition level_cap :: rat where "level_cap = p2 390"

lemma rep_caps: "n \<le> 1024 \<Longrightarrow> rep (of_nat n * level_cap)" "n \<le> 1024 \<Longrightarrow> of_nat n * level_cap \<le> big"
proof -
  assume n: "n \<le> 1024"
  have "of_nat n * level_cap \<le> 1024 * level_cap" using n by (intro mult_right_mono) (simp_all add: level_cap_def)
  also have "\<dots> = big" using p2_add[of 10 390] by (simp add: level_cap_def big_def)
  finally show b: "of_nat n * level_cap \<le> big" .
  have "rnd (of_int (int n) * p2 390) = of_int (int n) * p2 390" using n by (intro rnd_exact) simp_all
  moreover have "big < dbl_limit" using big_props(2,3) by (simp add: rep_def)
  ultimately show "rep (of_nat n * level_cap)" using b by (simp add: rep_def level_cap_def)
qed

definition sane_level :: "int \<Rightarrow> double \<Rightarrow> bool" where
  "sane_level t q \<longleftrightarrow> 1 \<le> t \<and> t \<le> 2 ^ 40 \<and> is_fin q \<and> tiny \<le> dval q \<and> dval q \<le> level_cap"

lemma takes_fin:
  assumes "\<not> is_nan tg" "\<forall>l \<in> set ls. sane_level (tick_of l) (size_of l)" "n + length ls \<le> 1024"
    "is_fin acc" "0 \<le> dval acc" "dval acc \<le> of_nat n * level_cap"
  shows "is_fin (foldl (+) acc (takes tg ls acc)) \<and> dval (foldl (+) acc (takes tg ls acc)) \<le> of_nat (n + length ls) * level_cap"
  using assms(2-)
proof (induction ls arbitrary: acc n)
  case (Cons l ls)
  define f where "f = std_min (tg - acc) (size_of l)"
  have z: "is_fin (size_of l)" "dval (size_of l) \<le> level_cap" using Cons.prems(1) by (simp_all add: sane_level_def)
  have up: "of_nat m * level_cap \<le> of_nat m' * level_cap" if "m \<le> m'" for m m' :: nat
    using that by (intro mult_right_mono) (simp_all add: level_cap_def)
  show ?case
  proof (cases "f \<le> 0")
    case True
    then have "takes tg (l # ls) acc = []" by (simp add: Let_def f_def)
    then show ?thesis using Cons.prems(3,5) up[of n "n + length (l # ls)"] by simp
  next
    case False
    have f: "is_fin f" "0 < dval f" "dval f \<le> level_cap"
      using std_min_pos[OF not_nan_diff[OF assms(1) Cons.prems(3)] z(1)] False z(2) by (auto simp: f_def)
    have "dval acc + dval f \<le> of_nat (Suc n) * level_cap" using Cons.prems(5) f(3) by (simp add: algebra_simps)
    then have "\<bar>dval acc + dval f\<bar> \<le> of_nat (Suc n) * level_cap" using Cons.prems(4) f(2) by simp
    note a = add_bound[OF Cons.prems(3) f(1) rep_caps(1) this]
    have a': "is_fin (acc + f)" "0 \<le> dval (acc + f)" "dval (acc + f) \<le> of_nat (Suc n) * level_cap"
      using a Cons.prems(2,4) f(2) by (simp_all add: rnd_nonneg)
    show ?thesis
    proof (cases "tg \<le> acc + f")
      case True
      then have "takes tg (l # ls) acc = [f]" using False by (simp add: Let_def f_def)
      then show ?thesis using a' up[of "Suc n" "n + length (l # ls)"] by simp
    next
      case nf: False
      then have "takes tg (l # ls) acc = f # takes tg ls (acc + f)" using False by (simp add: Let_def f_def)
      then show ?thesis using Cons.IH[of "Suc n" "acc + f"] Cons.prems(1,2) a' by simp
    qed
  qed
qed simp

definition sane_qty :: "double \<Rightarrow> bool" where
  "sane_qty q \<longleftrightarrow> is_fin q \<and> 0 < dval q \<and> dval q \<le> big"

lemma computeOrder_qty:
  assumes "\<not> is_nan tg" "\<forall>l \<in> set (depth cap (opposite side) MAX_BOOK_WALK b). sane_level (tick_of l) (size_of l)"
    "isActionable (computeOrder oor cap b k side tg)"
  shows "sane_qty (qvalue (s_qty (computeOrder oor cap b k side tg)))"
proof -
  define ls where "ls = depth cap (opposite side) MAX_BOOK_WALK b"
  define q where "q = foldl (+) 0 (takes tg ls 0)"
  have lq: "(if side = Bid then Ask else Bid) = opposite side" by (simp add: opposite_def)
  have o: "qvalue (s_qty (computeOrder oor cap b k side tg)) = q" "\<not> q \<le> 0"
    using assms(3) unfolding computeOrder_def Let_def lq ls_def[symmetric] size_loop_takes
    by (auto simp: q_def Let_def isActionable_def signal_none_def split: if_splits)
  have n: "length ls \<le> 32" using depth_walk_length[of cap "opposite side" b] by (simp add: ls_def)
  have "is_fin q" "dval q \<le> of_nat (length ls) * level_cap" using takes_fin[OF assms(1,2), of 0 0] n by (simp_all add: ls_def q_def)
  then show ?thesis using o rep_caps(2)[of "length ls"] n by (simp add: sane_qty_def less_eq_fin)
qed

section \<open>Sane books and configurations\<close>

definition sane_book :: "nat \<Rightarrow> book \<Rightarrow> bool" where
  "sane_book cap b \<longleftrightarrow> book_ok cap b \<and> (\<forall>s t q. levels cap s b t = Some q \<longrightarrow> sane_level t q)"

definition sane_tick :: "double \<Rightarrow> bool" where
  "sane_tick k \<longleftrightarrow> is_fin k \<and> p2 (- 100) \<le> dval k \<and> dval k \<le> p2 100"

lemma sane_depth:
  assumes "sane_book cap b" "l \<in> set (depth cap s n b)" shows "sane_level (tick_of l) (size_of l)"
proof -
  have "l \<in> set (quotes cap s b)" using assms by (auto simp: sane_book_def depth_quotes dest: in_set_takeD)
  then show ?thesis using assms(1) by (auto simp: quotes_levels sane_book_def)
qed

lemma sane_walkable: assumes "sane_book cap b" "sane_tick k" shows "walkable k (depth cap s n b)"
proof -
  have "level_cap \<le> big" using rep_caps(2)[of 1] by simp
  then have "normal (size_of l) \<and> px_ok k (pl_price l)" if "sane_level (tick_of l) (size_of l)" for l
    using that assms(2) by (auto simp: sane_level_def normal_def px_ok_def sane_tick_def tick_of_def)
  then show ?thesis using sane_depth[OF assms(1)] by (auto simp: walkable_def)
qed

lemma mid_fin:
  assumes "normal x" "normal y" shows "is_fin ((x + y) * dbl (1 / 2))" "dval ((x + y) * dbl (1 / 2)) \<noteq> 0"
proof -
  have p: "is_fin x" "is_fin y" "tiny \<le> dval x" "tiny \<le> dval y" "dval x \<le> big" "dval y \<le> big" "0 < tiny"
    using assms big_props(1) by (auto simp: normal_def)
  have h: "rep (1 / 2)" using rep_p2[of "- 1"] by simp
  have a: "is_fin (x + y)" "dval (x + y) = rnd (dval x + dval y)" "\<bar>dval (x + y)\<bar> \<le> 2 * big"
    using add_bound[OF p(1,2) big_props(3)] p by auto
  have "rnd tiny = tiny" using rep_p2[of "- 400"] by (simp add: tiny_def rep_def)
  then have lo: "tiny \<le> dval (x + y)" unfolding a(2) using p by (intro fl.lower) simp_all
  have "\<bar>dval (x + y) * dval (dbl (1 / 2))\<bar> \<le> 2 * big" using a(3) h p(7) lo by (simp add: abs_mult)
  note m = mult_bound[OF a(1) is_fin_rep[OF h] big_props(3) this]
  show "is_fin ((x + y) * dbl (1 / 2))" by (rule m)
  have t2: "tiny / 2 = p2 (- 401)" using p2_diff[of "- 400" 1] by (simp add: tiny_def)
  have "rnd (tiny / 2) = tiny / 2" unfolding t2 using rep_p2[of "- 401"] unfolding rep_def by simp
  then have "tiny / 2 \<le> dval ((x + y) * dbl (1 / 2))" unfolding m(2) using lo h by (intro fl.lower) simp_all
  then show "dval ((x + y) * dbl (1 / 2)) \<noteq> 0" using p(7) by simp
qed

text \<open>Whatever the strategy decides, the quantity of its order is a positive finite double.\<close>

definition trader_ok :: "strategy \<Rightarrow> bool" where
  "trader_ok st \<longleftrightarrow> \<not> is_nan (p_cash (strat_state st)) \<and> is_fin (trade_fraction (params st)) \<and> 0 < dval (trade_fraction (params st)) \<and> sane_tick (tick_size st)"

lemma emit_qty:
  assumes "\<not> is_nan tg" "sane_book cap b" "isActionable (fst (emit (computeOrder oor cap b k side tg) now st))"
  shows "sane_qty (qvalue (s_qty (fst (emit (computeOrder oor cap b k side tg) now st))))"
proof -
  have a: "isActionable (computeOrder oor cap b k side tg)" using assms(3) by (auto simp: emit_def isActionable_def signal_none_def split: if_splits)
  show ?thesis using computeOrder_qty[OF assms(1) _ a] sane_depth[OF assms(2)] a by (simp add: emit_def)
qed

lemma decide_qty:
  assumes "sane_book cap b" "trader_ok st" "normal x" "normal y" "isActionable (fst (decide oor cap b x y now st))"
  shows "sane_qty (qvalue (s_qty (fst (decide oor cap b x y now st))))"
proof -
  let ?s = "strat_state st"
  have t: "\<not> is_nan (trade_fraction (params st) * p_cash ?s / ((x + y) * dbl (1 / 2)))"
    using assms(2) mid_fin[OF assms(3,4)] by (intro not_nan_divide not_nan_mult) (auto simp: trader_ok_def)
  have p: "\<not> is_nan (p_position ?s)" if "0 < p_position ?s \<or> p_position ?s < 0" using that d_less_nan by blast
  have none: "\<not> isActionable signal_none" by (simp add: isActionable_def signal_none_def)
  note e = emit_qty[OF _ assms(1)]
  show ?thesis using assms(5) t p none unfolding decide_def Let_def
    by (auto split: if_splits intro!: e)
qed

lemma update_qty:
  assumes "sane_book cap b" "trader_ok st" "isActionable (fst (onMarketUpdate oor cap b now st))"
  shows "sane_qty (qvalue (s_qty (fst (onMarketUpdate oor cap b now st))))"
proof -
  have none: "\<not> isActionable signal_none" by (simp add: isActionable_def signal_none_def)
  obtain x y v where o: "observe cap b st = Some (x, y, v)"
    using assms(3) none by (cases "observe cap b st") (auto simp: onMarketUpdate_eq)
  have "normal (toDouble (pl_price (hd (depth cap s n b))) (tick_size st))" if "depth cap s n b \<noteq> []" for s n
    using sane_walkable[OF assms(1), of "tick_size st" s n] assms(2) that px_ok_props(7) by (auto simp: walkable_def trader_ok_def)
  then have "normal x" "normal y" using o by (auto simp: observe_def Let_def split: if_splits)
  moreover have "trader_ok (push_imbalance v st)" using assms(2) by (simp add: trader_ok_def strat_state_def)
  ultimately show ?thesis using decide_qty[OF assms(1)] assms(3) o none by (auto simp: onMarketUpdate_eq Let_def split: if_splits)
qed

section \<open>The runtime\<close>

text \<open>
  Configurations and events within which the arithmetic of an order does not overflow. A level that
  is live has a price of 1 to \<open>2 ^ 40\<close> ticks and a size between \<open>2 ^ -400\<close> and \<open>2 ^ 390\<close>; no bound is put on
  the cash.
\<close>

definition sane_config :: "RuntimeConfig \<Rightarrow> bool" where
  "sane_config c \<longleftrightarrow> sane_tick (c_tick_size c) \<and> is_fin (c_max_position c) \<and> 0 \<le> dval (c_max_position c) \<and> dval (c_max_position c) \<le> big \<and>
     \<not> is_nan (c_initial_cash c) \<and> is_fin (trade_fraction (c_strategy c)) \<and> 0 < dval (trade_fraction (c_strategy c))"

definition sane_updates :: "level_update list \<Rightarrow> bool" where
  "sane_updates us = list_all (\<lambda>(s, p, q). tick_bound (ticks p) \<and> (0 < qvalue q \<longrightarrow> sane_level (ticks p) (qvalue q))) us"

definition sane_event :: "(double \<Rightarrow> int) \<Rightarrow> double \<Rightarrow> MarketEvent \<Rightarrow> bool" where
  "sane_event oor k ev = (case body ev of Snapshot bs as \<Rightarrow> sane_updates (snapshot_updates bs as)
     | L2Update cs \<Rightarrow> sane_updates (change_updates oor k cs) | Heartbeat \<Rightarrow> True)"

lemma feed_levels_sane:
  assumes "sane_updates us" "\<forall>t q. m t = Some q \<longrightarrow> sane_level t q" "feed_levels s us m t = Some q" shows "sane_level t q"
  using assms
proof (induction us arbitrary: m)
  case (Cons u us)
  obtain side p qty where u: "u = (side, p, qty)" by (cases u)
  show ?case using Cons.IH[of "if side = s then put_level (ticks p) (qvalue qty) m else m"] Cons.prems
    by (auto simp: u feed_levels_def sane_updates_def put_level_def split: if_splits)
qed (simp add: feed_levels_def)

lemma sane_ticks: "sane_event oor k ev \<Longrightarrow> event_ticks_ok oor k ev"
  by (auto simp: sane_event_def event_ticks_ok_def sane_updates_def list_all_iff split: EventBody.splits)

lemma process_sane_book:
  assumes "sane_book cap (rt_book r)" "sane_event oor (c_tick_size (cfg r)) ev"
  shows "sane_book cap (rt_book (processEvent oor cap clk ev r))"
proof (cases "bookReady r \<or> (case body ev of Snapshot _ _ \<Rightarrow> True | _ \<Rightarrow> False)")
  case True
  let ?b = "rt_book (processEvent oor cap clk ev r)"
  have ok: "book_ok cap (rt_book r)" using assms(1) by (simp add: sane_book_def)
  note p = process_feed[OF ok sane_ticks[OF assms(2)] True, of _ "levels cap s (rt_book r)" for s, OF map_le_refl]
  have "sane_level t q" if "levels cap s ?b t = Some q" for s t q
  proof -
    have "feed_event oor (c_tick_size (cfg r)) s ev (levels cap s (rt_book r)) t = Some q"
      using p(2)[of s clk] that by (metis domI map_le_def)
    then show ?thesis using assms
      by (auto simp: feed_event_def sane_event_def sane_book_def elim!: feed_levels_sane[rotated 2] split: EventBody.splits)
  qed
  then show ?thesis using p(1) by (auto simp: sane_book_def)
next
  case False
  then have "rt_book (processEvent oor cap clk ev r) = rt_book r" by (auto simp: process_book split: EventBody.splits)
  then show ?thesis using assms(1) by simp
qed

definition safe :: "nat \<Rightarrow> runtime \<Rightarrow> bool" where
  "safe cap r \<longleftrightarrow> runtime_inv cap r \<and> sane_book cap (rt_book r) \<and> trader_ok (strat r) \<and> near_limit (c_symbolId (cfg r)) (risk_mgr r) \<and>
     dval (limit (c_symbolId (cfg r)) (risk_mgr r)) \<le> dval (c_max_position (cfg r))"

lemma exec_price_fin:
  assumes "in_i64 (ticks p)" "sane_tick k" shows "is_fin (toDouble p k)" "\<bar>dval (toDouble p k)\<bar> \<le> p2 163"
proof -
  have r: "rep (p2 63)" "rep (p2 163)" by (rule rep_p2; simp)+
  have "\<bar>of_int (ticks p) :: rat\<bar> \<le> of_int (2 ^ 63)" using assms(1) unfolding in_i64_def of_int_abs[symmetric] of_int_le_iff by linarith
  then have "\<bar>rnd (of_int (ticks p))\<bar> \<le> p2 63" using r(1) by (intro rnd_bound) simp_all
  moreover have "p2 63 < dbl_limit" using r(1) by (simp add: rep_def)
  ultimately have d: "is_fin (dbl (of_int (ticks p)))" "\<bar>dval (dbl (of_int (ticks p)))\<bar> \<le> p2 63" by (auto simp: is_fin_dbl dval_dbl)
  have k: "is_fin k" "\<bar>dval k\<bar> \<le> p2 100" using assms(2) less_le_trans[OF p2_pos[of "- 100"]] by (auto simp: sane_tick_def abs_if)
  have "\<bar>dval (dbl (of_int (ticks p))) * dval k\<bar> \<le> p2 63 * p2 100" unfolding abs_mult using d(2) k(2) by (intro mult_mono) simp_all
  also have "\<dots> = p2 163" using p2_add[of 63 100] by simp
  finally have "\<bar>dval (dbl (of_int (ticks p))) * dval k\<bar> \<le> p2 163" .
  note m = mult_bound[OF d(1) k(1) r(2) this]
  show "is_fin (toDouble p k)" "\<bar>dval (toDouble p k)\<bar> \<le> p2 163" using m by (simp_all add: toDouble_def)
qed

lemma fill_not_nan:
  assumes "\<not> is_nan c" "is_fin q" "0 \<le> dval q" "dval q \<le> 2 * big" "is_fin px" "\<bar>dval px\<bar> \<le> p2 163"
  shows "\<not> is_nan (c - q * side_sign s * px)"
proof -
  have q: "is_fin (q * side_sign s)" "\<bar>dval (q * side_sign s)\<bar> \<le> 2 * big" using signed_qty[OF assms(2)] assms(3,4) by auto
  have "\<bar>dval (q * side_sign s) * dval px\<bar> \<le> (2 * big) * p2 163" unfolding abs_mult using q(2) assms(6) big_props(2) by (intro mult_mono) auto
  also have "\<dots> = p2 564" using p2_add[of 1 400] p2_add[of 401 163] by (simp add: big_def)
  finally have "\<bar>dval (q * side_sign s) * dval px\<bar> \<le> p2 564" .
  from mult_bound(1)[OF q(1) assms(5) rep_p2 this] show ?thesis using assms(1) by (intro not_nan_diff) simp_all
qed

lemma dispatch_safe:
  assumes "safe cap r" "sane_qty (qvalue (s_qty sg))" shows "safe cap (dispatchOrder oor cap clk sg r)"
proof -
  let ?r = "dispatchOrder oor cap clk sg r" and ?x = "report_for oor cap clk sg r" and ?k = "c_tick_size (cfg r)"
  have i: "runtime_inv cap r" "sane_book cap (rt_book r)" "trader_ok (strat r)" "near_limit (c_symbolId (cfg r)) (risk_mgr r)"
    "dval (limit (c_symbolId (cfg r)) (risk_mgr r)) \<le> dval (c_max_position (cfg r))" using assms(1) by (simp_all add: safe_def)
  have k: "sane_tick ?k" "tick_size (strat r) = ?k" "strat_inv (strat r)" "symbol (strat r) = c_symbolId (cfg r)"
    using i(1,3) by (simp_all add: runtime_inv_def trader_ok_def)
  note w = sane_walkable[OF i(2) k(1)]
  have q: "is_fin (qvalue (s_qty sg))" "0 < dval (qvalue (s_qty sg))" "dval (qvalue (s_qty sg)) \<le> big" using assms(2) by (simp_all add: sane_qty_def)
  note e = report_qty[OF w q, of oor clk]
  have "trader_ok (strat ?r)"
  proof (cases "executed oor cap clk sg r")
    case True
    then have x: "r_isFill ?x" "sym (c_symbolId (cfg r)) < MAX_SYMBOLS" by (auto simp: executed_def approve_def order_for_def split: if_splits)
    have "dval (qvalue (s_qty sg)) * (1 + 1 / 2 ^ 45) \<le> 2 * big" using q(2,3) by simp
    then have e2: "dval (qvalue (r_execQty ?x)) \<le> 2 * big" using e(3) by (rule order_trans[rotated])
    have "in_i64 (ticks (r_execPrice ?x))" using x(1) unfolding report_for_def by (simp add: simulate_fields(3) fromDouble_def llround_def)
    note px = exec_price_fin[OF this k(1)]
    have "strat_state (strat ?r) = fill_state (toDouble (r_execPrice ?x) ?k) (qvalue (r_execQty ?x) * side_sign (r_side ?x)) (strat_state (strat r))"
      using True x k by (simp add: dispatch_fields strat_state_def strat_onFill_def pnl_state_def Pnl_Tracker.onFill_def strat_inv_def report_fields)
    then have "p_cash (strat_state (strat ?r)) = p_cash (strat_state (strat r)) - qvalue (r_execQty ?x) * side_sign (r_side ?x) * toDouble (r_execPrice ?x) ?k"
      by (simp add: fill_cash)
    then show ?thesis using fill_not_nan[OF _ e(1,2) e2 px] i(3) True by (simp add: trader_ok_def dispatch_fields strat_onFill_def)
  qed (use i(3) in \<open>simp add: dispatch_fields\<close>)
  then show ?thesis using i(2,5) dispatch_inv[OF i(1)] dispatch_near_limit[OF i(1,4) w q] by (simp add: safe_def dispatch_fields)
qed

lemma after_book_safe:
  assumes "safe cap r" shows "safe cap (after_book oor cap clk recv r)"
proof -
  let ?s = "signalled oor cap clk recv r"
  have st: "trader_ok (strat (snd ?s))" using assms update_state[of oor cap "rt_book r" "bookDone clk" "strat r"] update_setup[of oor cap "rt_book r" "bookDone clk" "strat r"]
    by (simp add: safe_def trader_ok_def signalled_fields same_setup_def)
  then have s: "safe cap (snd ?s)" using assms signalled_inv[of cap r oor clk recv] by (simp add: safe_def signalled_fields)
  have "sane_qty (qvalue (s_qty (fst ?s)))" if "isActionable (fst ?s)"
    using that update_qty[of cap "rt_book r" "strat r"] assms by (simp add: safe_def signalled_fields)
  then show ?thesis using s dispatch_safe by (simp add: after_book_eq)
qed

lemma safe_frame [frame_simps]:
  "safe cap r \<Longrightarrow> sane_book cap b \<Longrightarrow> safe cap (r\<lparr>rt_book := b, bookReady := v\<rparr>)"
  "safe cap r \<Longrightarrow> sane_book cap b \<Longrightarrow> safe cap (r\<lparr>rt_book := b\<rparr>)"
  "safe cap (r\<lparr>brk := x\<rparr>) = safe cap r" "safe cap (r\<lparr>metrics := m\<rparr>) = safe cap r" "safe cap (r\<lparr>queue := q\<rparr>) = safe cap r"
  "safe cap (r\<lparr>bookInvalidate := v\<rparr>) = safe cap r" "safe cap (r\<lparr>running := v\<rparr>) = safe cap r" "safe cap (r\<lparr>started := v\<rparr>) = safe cap r"
  by (auto simp: safe_def frame_simps sane_book_def dest: book_ok_inv)

lemma process_safe:
  assumes "safe cap r" "sane_event oor (c_tick_size (cfg r)) ev" shows "safe cap (processEvent oor cap clk ev r)"
proof -
  have "sane_book cap (rt_book (processEvent oor cap clk ev r))" by (rule process_sane_book) (use assms in \<open>simp_all add: safe_def\<close>)
  then show ?thesis using assms(1) unfolding process_book(1)
    by (auto simp: processEvent_def Let_def frame_simps intro!: after_book_safe split: EventBody.splits)
qed

lemma reset_safe: "safe cap r \<Longrightarrow> safe cap (reset_on_reconnect r)"
  using reset_inv[of cap r] by (simp add: safe_def trader_ok_def) (simp add: reset_on_reconnect_def onReconnect_def strat_state_def)

section \<open>All runs\<close>

text \<open>As long as all events accepted by the queue are sane, the runtime is safe.\<close>

definition guarded :: "(double \<Rightarrow> int) \<Rightarrow> nat \<Rightarrow> nat \<Rightarrow> RuntimeConfig \<Rightarrow> sys \<Rightarrow> bool" where
  "guarded oor cap qcap c s \<longleftrightarrow> sys_inv cap qcap s \<and> cfg (rt s) = c \<and> (list_all (sane_event oor (c_tick_size c)) (sent s) \<longrightarrow> safe cap (rt s))"

lemma guarded_loop:
  assumes "loop_step oor cap qcap s s'" "guarded oor cap qcap c s" shows "guarded oor cap qcap c s'"
proof -
  have i: "sys_inv cap qcap s'" using sys_inv_loop[OF assms(1)] assms(2) by (simp add: guarded_def)
  have "cfg (rt s') = c" using loop_frame(2)[OF assms(1)] assms(2) by (simp add: guarded_def)
  moreover have "safe cap (rt s')" if sane: "list_all (sane_event oor (c_tick_size c)) (sent s')"
  proof -
    have s: "safe cap (rt s)" "cfg (rt s) = c" using sane loop_frame(3)[OF assms(1)] assms(2) by (simp_all add: guarded_def)
    show ?thesis using assms(1)
    proof (cases rule: loop_step.cases)
      case (pop_event ev q clk)
      then have "ev \<in> set (sent s')" using i by (simp add: sys_inv_def)
      then have "sane_event oor (c_tick_size c) ev" using sane by (simp add: list_all_iff)
      then show ?thesis using pop_event s process_safe[of cap "(rt s)\<lparr>queue := q\<rparr>"] by (simp add: frame_simps)
    qed (use s reset_safe in \<open>simp_all add: frame_simps\<close>)
  qed
  ultimately show ?thesis using i by (simp add: guarded_def)
qed

lemma guarded_step:
  assumes "sys_step oor cap qcap s s'" "guarded oor cap qcap c s" shows "guarded oor cap qcap c s'"
proof -
  have i: "sys_inv cap qcap s'" using sys_inv_step[OF assms(1)] assms(2) by (simp add: guarded_def)
  show ?thesis using assms(1)
  proof (cases rule: sys_step.cases)
    case loop
    then show ?thesis using guarded_loop assms(2) by blast
  qed (use assms(2) i in \<open>auto simp: guarded_def frame_simps start_flags_def stop_started_def stop_running_def parseErrorCallback_def reconnectCallback_def split: if_splits\<close>)
qed

interpretation gd: step_invariant "sys_step oor cap qcap" "guarded oor cap qcap c" for oor cap qcap c
  by unfold_locales (rule guarded_step)

lemma safe_start:
  assumes "book_cap cap" "sane_config c" shows "safe cap (new_runtime cap qcap c)"
proof -
  note c = assms(2)[unfolded sane_config_def]
  let ?i = "c_symbolId c" and ?k = "configure (c_symbolId c) (c_max_position c) (c_initial_cash c) (c_tick_size c) new_risk"
  have k: "position ?i ?k = 0" "limit ?i ?k = (if sym ?i < MAX_SYMBOLS then c_max_position c else 0)"
    by (simp_all add: position_def limit_def configure_def new_risk_def Let_def)
  have "near_limit ?i ?k" "dval (limit ?i ?k) \<le> dval (c_max_position c)" using c big_props(2) by (auto simp: near_limit_def k)
  moreover have "trader_ok (strat (new_runtime cap qcap c))"
    using c unfolding new_runtime_fields trader_ok_def
    by (simp add: setInitialCash_def setSymbol_def new_strategy_def strat_state_def pnl_state_def seedCash_def new_pnl_def empty_pnl_def clamp_params_def Let_def)
  ultimately show ?thesis using runtime_inv_new[OF assms(1), of qcap c] book_ok_new[OF assms(1)]
    by (simp add: safe_def new_runtime_fields sane_book_def levels_empty)
qed

lemma engine_safe:
  assumes "book_cap cap" "queue_cap qcap" "sane_config c" "(engine_step x cap qcap)\<^sup>*\<^sup>* (engine_start cap qcap c) e"
    "list_all (sane_event (x_oor x) (c_tick_size c)) (feed_events (x_oor x) (c_tick_size c) (w_calls (e_ws e)))"
  shows "safe cap (rt (e_sys e))" "cfg (rt (e_sys e)) = cfg (new_runtime cap qcap c)"
proof -
  let ?c = "cfg (new_runtime cap qcap c)"
  have t: "c_tick_size ?c = c_tick_size c" by (simp add: new_runtime_fields)
  have "guarded (x_oor x) cap qcap ?c (sys_start cap qcap c)"
    using sys_inv_start[OF assms(1,2), of c] safe_start[OF assms(1,3), of qcap] by (simp add: guarded_def sys_start_def)
  from gd.run_inv[OF engine_sim(1)[OF assms(4)] this] have g: "guarded (x_oor x) cap qcap ?c (e_sys e)" .
  obtain es where "feed_events (x_oor x) (c_tick_size c) (w_calls (e_ws e)) = es @ pending (e_net e)" "subseq (sent (e_sys e)) es"
    using accounts_reachable[OF assms(4)] t by (auto simp: accounts_def handed_over_def Let_def)
  then have "list_all (sane_event (x_oor x) (c_tick_size c)) (sent (e_sys e))"
    using assms(5) by (auto simp: list_all_iff dest: list_emb_set)
  then show "safe cap (rt (e_sys e))" "cfg (rt (e_sys e)) = ?c" using g t by (simp_all add: guarded_def)
qed

section \<open>Sane messages\<close>

text \<open>
  The condition on events follows from one on the numbers that the parser reads: the quotient of a
  price and the tick size is between 1 and \<open>2 ^ 40\<close>, and a size that is not zero is in range.
\<close>

definition sane_quote :: "double \<Rightarrow> double \<Rightarrow> double \<Rightarrow> bool" where
  "sane_quote k p q \<longleftrightarrow> is_fin p \<and> 1 \<le> dval p / dval k \<and> dval p / dval k \<le> 2 ^ 40 \<and>
     (0 < q \<longrightarrow> is_fin q \<and> tiny \<le> dval q \<and> dval q \<le> level_cap)"

definition sane_message :: "double \<Rightarrow> CoinbaseMessage \<Rightarrow> bool" where
  "sane_message k m \<longleftrightarrow> (\<forall>l \<in> set (m_bids m) \<union> set (m_asks m). sane_quote k (lv_price l) (lv_qty l)) \<and>
     (\<forall>c \<in> set (m_changes m). sane_quote k (ch_price c) (ch_qty c))"

lemma sane_quote_level:
  assumes "sane_tick k" "sane_quote k p q"
  shows "tick_bound (ticks (fromDouble oor p k))" "0 < q \<Longrightarrow> sane_level (ticks (fromDouble oor p k)) q"
proof -
  have k: "is_fin k" "dval k \<noteq> 0" using assms(1) p2_pos[of "- 100"] by (auto simp: sane_tick_def)
  have r: "rep (2 ^ 40)" using rep_of_int[of "2 ^ 40"] by simp
  have p: "is_fin p" "1 \<le> dval p / dval k" "dval p / dval k \<le> 2 ^ 40" using assms(2) by (simp_all add: sane_quote_def)
  then have "\<bar>dval p / dval k\<bar> \<le> 2 ^ 40" by simp
  note b = divide_bound[OF p(1) k r this]
  have "rnd 1 = 1" using rep_rnd[of 1] by simp
  then have "1 \<le> dval (p / k)" using rnd_mono[OF p(2)] b(2) by simp
  then have "1 \<le> round_away (dval (p / k))" "round_away (dval (p / k)) \<le> 2 ^ 40"
    using b(3) by (simp_all add: round_away_def le_floor_iff floor_le_iff)
  then have t: "1 \<le> ticks (fromDouble oor p k)" "ticks (fromDouble oor p k) \<le> 2 ^ 40"
    using b(1) by (simp_all add: fromDouble_def llround_def in_i64_def)
  show "tick_bound (ticks (fromDouble oor p k))" using t by (simp add: tick_bound_def)
  show "0 < q \<Longrightarrow> sane_level (ticks (fromDouble oor p k)) q" using t assms(2) by (simp add: sane_level_def sane_quote_def)
qed

lemma sane_message_events:
  assumes "sane_tick k" "sane_message k m" "ev \<in> set (events_of oor k m ts)" shows "sane_event oor k ev"
proof -
  note q = sane_quote_level[OF assms(1), of _ _ oor]
  have "sane_updates (snapshot_updates (snap_levels oor k (m_bids m)) (snap_levels oor k (m_asks m)))"
    using assms(2) by (auto simp: sane_updates_def snapshot_updates_def snap_levels_def list_all_iff sane_message_def intro!: q dest!: in_set_takeD)
  moreover have "sane_updates (change_updates oor k cs)" if "cs \<in> set (chunks (m_changes m))" for cs
  proof -
    have "set cs \<subseteq> set (concat (chunks (m_changes m)))" using that by auto
    then have "set cs \<subseteq> set (m_changes m)" using chunks_concat[of "m_changes m"] by simp
    then show ?thesis using assms(2) by (auto simp: sane_updates_def change_updates_def list_all_iff sane_message_def intro!: q)
  qed
  ultimately show ?thesis using assms(3) by (auto simp: events_of_def sane_event_def l2_event_def split: CoinbaseMsgType.splits)
qed

section \<open>The position limit of the engine\<close>

text \<open>
  C3. The position limit of the whole program. Whatever the sockets do, however the threads interleave,
  and whatever the strategy decides: as long as the levels that the feed sends are sane, in every
  reachable state the position is a finite number within the configured limit, up to one part
  in \<open>2 ^ 40\<close> for the rounding of fills, and the published cash is a number. The orders of the strategy
  are within the ranges that the simulator needs, and NaN, which every limit check lets pass,
  arises nowhere.
\<close>

theorem engine_position_limit:
  assumes "book_cap cap" "queue_cap qcap" "sane_config c" "(engine_step x cap qcap)\<^sup>*\<^sup>* (engine_start cap qcap c) e"
    "list_all (sane_event (x_oor x) (c_tick_size c)) (feed_events (x_oor x) (c_tick_size c) (w_calls (e_ws e)))"
  shows "is_fin (position (c_symbolId c) (risk_mgr (rt (e_sys e)))) \<and>
    \<bar>dval (position (c_symbolId c) (risk_mgr (rt (e_sys e))))\<bar> \<le> dval (c_max_position c) * (1 + 1 / 2 ^ 40) \<and>
    \<not> is_nan (pnlCash (rt (e_sys e)))"
proof -
  let ?r = "rt (e_sys e)"
  have s: "safe cap ?r" "c_symbolId (cfg ?r) = c_symbolId c" "c_max_position (cfg ?r) = c_max_position c"
    using engine_safe[OF assms] by (simp_all add: new_runtime_fields)
  have "dval (limit (c_symbolId c) (risk_mgr ?r)) * (1 + 1 / 2 ^ 40) \<le> dval (c_max_position c) * (1 + 1 / 2 ^ 40)"
    using s by (intro mult_right_mono) (simp_all add: safe_def)
  then show ?thesis using s by (auto simp: safe_def near_limit_def trader_ok_def runtime_inv_def published_def Let_def)
qed

lemma small_literal:
  assumes "p2 (- 100) \<le> q" "q \<le> 1" shows "is_fin (dbl q)" "p2 (- 100) \<le> dval (dbl q)" "dval (dbl q) \<le> 1"
proof -
  have q: "0 < q" using assms(1) p2_pos[of "- 100"] by linarith
  have "\<bar>rnd q\<bar> \<le> 1" using assms(2) q by (intro rnd_bound) simp_all
  then have b: "rnd q \<le> 1" "\<bar>rnd q\<bar> < dbl_limit" by (simp_all add: dbl_limit_def)
  have "rnd (p2 (- 100)) = p2 (- 100)" using rep_p2[of "- 100"] unfolding rep_def by simp
  then have "p2 (- 100) \<le> rnd q" using fl.lower[OF _ assms(1)] by blast
  then show "is_fin (dbl q)" "p2 (- 100) \<le> dval (dbl q)" "dval (dbl q) \<le> 1" using b by (simp_all only: is_fin_dbl dval_dbl)
qed

lemma sane_default: "sane_config default_config"
proof -
  have p: "p2 (- 100) \<le> p2 (- 7)" "p2 (- 7) \<le> 1 / 100" "p2 (- 7) \<le> 1 / 10" "1 \<le> p2 100" "0 < p2 (- 100)"
    using p2_mono[of "- 100" "- 7"] p2_mono[of 0 100] by (simp_all add: power_int_minus)
  note c = small_literal[of "1 / 100"] and f = small_literal[of "1 / 10"]
  have "5 \<le> big" using p2_mono[of 3 400] by (simp add: big_def)
  then show ?thesis using c f p unfolding sane_config_def sane_tick_def default_config_def default_params_def
    by (auto intro: order_trans less_le_trans)
qed

theorem engine_position_limit_witness:
  "\<exists>e :: engine. bookReady (rt (e_sys e)) \<and> is_fin (position 0 (risk_mgr (rt (e_sys e)))) \<and>
     \<bar>dval (position 0 (risk_mgr (rt (e_sys e))))\<bar> \<le> 5 * (1 + 1 / 2 ^ 40)"
proof -
  obtain e where e: "(engine_step feed_world 64 4)\<^sup>*\<^sup>* (engine_start 64 4 feed_config) e" "bookReady (rt (e_sys e))"
    "feed_events (\<lambda>_. 0) 1 (w_calls (e_ws e)) = [feed_snapshot]" using feed_run by blast
  have c: "sane_config feed_config" "x_oor feed_world = (\<lambda>_. 0)" "c_tick_size feed_config = 1" "c_symbolId feed_config = 0" "c_max_position feed_config = dbl 5"
    using sane_default p2_mono[of "- 100" 0] p2_mono[of 0 100]
    by (simp_all add: sane_config_def sane_tick_def feed_config_def) (simp_all add: default_config_def feed_world_def)
  have "2 \<le> level_cap" "tiny \<le> 2" using p2_mono[of 1 390] big_ge(2) by (simp_all add: level_cap_def)
  then have "sane_event (\<lambda>_. 0) 1 feed_snapshot"
    by (simp add: sane_event_def feed_snapshot_def sane_updates_def snapshot_updates_def tick_bound_def sane_level_def)
  then show ?thesis
    using engine_position_limit[OF book_cap_64 queue_cap_4 c(1) e(1)] e(2,3) c(2-) by auto
qed

end
