(* ===== verification/Book_Freshness.thy ===== *)
theory Book_Freshness
  imports Engine
begin

text \<open>
  The book of the engine against the feed: in every state that the engine reaches, a book that is
  ready holds only levels that the processed events gave last since their last snapshot.
\<close>

section \<open>The book against the processed events\<close>

text \<open>The feed's own picture of a side after a list of events.\<close>

definition feed_side :: "(double \<Rightarrow> int) \<Rightarrow> double \<Rightarrow> Side \<Rightarrow> MarketEvent list \<Rightarrow> (int \<rightharpoonup> double)" where
  "feed_side oor k side evs = fold (feed_event oor k side) evs Map.empty"

definition fresh :: "(double \<Rightarrow> int) \<Rightarrow> nat \<Rightarrow> double \<Rightarrow> MarketEvent list \<Rightarrow> runtime \<Rightarrow> bool" where
  "fresh oor cap k evs r \<longleftrightarrow> book_ok cap (rt_book r) \<and> (bookReady r \<longrightarrow> (\<forall>side. levels cap side (rt_book r) \<subseteq>\<^sub>m feed_side oor k side evs))"

lemma fresh_frame [frame_simps]:
  "fresh oor cap k evs (r\<lparr>queue := q\<rparr>) = fresh oor cap k evs r" "fresh oor cap k evs (r\<lparr>metrics := m\<rparr>) = fresh oor cap k evs r"
  "fresh oor cap k evs (r\<lparr>bookInvalidate := v\<rparr>) = fresh oor cap k evs r" "fresh oor cap k evs (r\<lparr>running := v\<rparr>) = fresh oor cap k evs r"
  "fresh oor cap k evs (r\<lparr>started := v\<rparr>) = fresh oor cap k evs r"
  by (simp_all add: fresh_def)

lemma fresh_process:
  assumes "fresh oor cap (c_tick_size (cfg r)) evs r" "event_ticks_ok oor (c_tick_size (cfg r)) ev"
  shows "fresh oor cap (c_tick_size (cfg r)) (evs @ [ev]) (processEvent oor cap clk ev r)"
proof (cases "bookReady r \<or> (case body ev of Snapshot _ _ \<Rightarrow> True | _ \<Rightarrow> False)")
  case True
  have "book_ok cap (rt_book r)" "bookReady r \<Longrightarrow> levels cap side (rt_book r) \<subseteq>\<^sub>m feed_side oor (c_tick_size (cfg r)) side evs" for side
    using assms(1) by (simp_all add: fresh_def)
  from process_feed[OF this(1) assms(2) True this(2)] show ?thesis by (simp add: fresh_def feed_side_def)
next
  case False
  then show ?thesis using assms(1) by (auto simp: fresh_def process_book split: EventBody.splits)
qed

definition fresh_inv :: "(double \<Rightarrow> int) \<Rightarrow> nat \<Rightarrow> nat \<Rightarrow> RuntimeConfig \<Rightarrow> sys \<Rightarrow> bool" where
  "fresh_inv oor cap qcap c s \<longleftrightarrow> sys_inv cap qcap s \<and> cfg (rt s) = c \<and>
     (list_all (event_ticks_ok oor (c_tick_size c)) (sent s) \<longrightarrow> fresh oor cap (c_tick_size c) (seen s) (rt s))"

lemma fresh_loop:
  assumes "loop_step oor cap qcap s s'" "fresh_inv oor cap qcap c s" shows "fresh_inv oor cap qcap c s'"
proof -
  have i: "sys_inv cap qcap s'" using sys_inv_loop[OF assms(1)] assms(2) by (simp add: fresh_inv_def)
  have k: "cfg (rt s) = c" "cfg (rt s') = c" using loop_frame(2)[OF assms(1)] assms(2) by (simp_all add: fresh_inv_def)
  have "fresh oor cap (c_tick_size c) (seen s') (rt s')" if ok: "list_all (event_ticks_ok oor (c_tick_size c)) (sent s')"
  proof -
    have s: "fresh oor cap (c_tick_size c) (seen s) (rt s)" using ok loop_frame(3)[OF assms(1)] assms(2) by (simp add: fresh_inv_def)
    show ?thesis using assms(1)
    proof (cases rule: loop_step.cases)
      case (pop_event ev q clk)
      then have "ev \<in> set (sent s')" using i by (simp add: sys_inv_def)
      then show ?thesis using pop_event s k ok fresh_process[of oor cap "(rt s)\<lparr>queue := q\<rparr>" "seen s" ev clk] by (simp add: frame_simps list_all_iff)
    qed (use s in \<open>simp_all add: frame_simps\<close>, simp add: fresh_def reset_on_reconnect_def)
  qed
  then show ?thesis using i k by (simp add: fresh_inv_def)
qed

lemma fresh_step:
  assumes "sys_step oor cap qcap s s'" "fresh_inv oor cap qcap c s" shows "fresh_inv oor cap qcap c s'"
proof -
  have i: "sys_inv cap qcap s'" using sys_inv_step[OF assms(1)] assms(2) by (simp add: fresh_inv_def)
  show ?thesis using assms(1)
  proof (cases rule: sys_step.cases)
    case loop
    then show ?thesis using fresh_loop assms(2) by blast
  qed (use assms(2) i in \<open>auto simp: fresh_inv_def frame_simps start_flags_def stop_started_def stop_running_def parseErrorCallback_def reconnectCallback_def split: if_splits\<close>)
qed

interpretation fr: step_invariant "sys_step oor cap qcap" "fresh_inv oor cap qcap c" for oor cap qcap c
  by unfold_locales (rule fresh_step)

lemma fresh_start:
  assumes "book_cap cap" "queue_cap qcap" shows "fresh_inv oor cap qcap (cfg (new_runtime cap qcap c)) (sys_start cap qcap c)"
proof -
  have "rt_book (new_runtime cap qcap c) = new_book cap" by (simp add: new_runtime_def)
  then show ?thesis using sys_inv_start[OF assms] book_ok_new[OF assms(1)] by (simp add: fresh_inv_def sys_start_def fresh_def levels_empty)
qed

section \<open>The book of the engine\<close>

text \<open>
  C4. No stale or invented quote in the whole program. However the threads interleave and whatever is
  lost on the way: the events that the strategy thread has processed are, in order, among those of
  the delivered messages, and whenever the book is ready each level it holds is the last one that
  those events gave for its side and price since their last snapshot; so the best level that
  strategy and simulator read is a quote of the feed.
\<close>

theorem engine_book_never_stale:
  assumes "book_cap cap" "queue_cap qcap" "(engine_step x cap qcap)\<^sup>*\<^sup>* (engine_start cap qcap c) e"
    "list_all (event_ticks_ok (x_oor x) (c_tick_size c)) (feed_events (x_oor x) (c_tick_size c) (w_calls (e_ws e)))"
  shows "subseq (seen (e_sys e)) (feed_events (x_oor x) (c_tick_size c) (w_calls (e_ws e))) \<and> book_ok cap (rt_book (rt (e_sys e))) \<and>
    (bookReady (rt (e_sys e)) \<longrightarrow>
       levels cap side (rt_book (rt (e_sys e))) \<subseteq>\<^sub>m feed_side (x_oor x) (c_tick_size c) side (seen (e_sys e)) \<and>
       (\<forall>l. topOfBook cap side (rt_book (rt (e_sys e))) = Some l \<longrightarrow>
          feed_side (x_oor x) (c_tick_size c) side (seen (e_sys e)) (tick_of l) = Some (size_of l)))"
proof -
  let ?s = "e_sys e" and ?c = "cfg (new_runtime cap qcap c)" and ?evs = "feed_events (x_oor x) (c_tick_size c) (w_calls (e_ws e))"
  have t: "c_tick_size ?c = c_tick_size c" by (simp add: new_runtime_fields)
  have f: "fresh_inv (x_oor x) cap qcap ?c ?s" by (rule fr.run_inv[OF engine_sim(1)[OF assms(3)] fresh_start[OF assms(1,2)]])
  have sent: "subseq (sent ?s) ?evs" using accounts_reachable[OF assms(3)] t by (auto simp: accounts_def handed_over_def Let_def)
  moreover have "sent ?s = seen ?s @ spsc_contents qcap (queue (rt ?s))" using f by (simp add: fresh_inv_def sys_inv_def)
  then have "subseq (seen ?s) (sent ?s)" by (simp add: subseq_rev_drop_many)
  ultimately have s: "subseq (seen ?s) ?evs" using subseq_order.order_trans by blast
  have "list_all (event_ticks_ok (x_oor x) (c_tick_size c)) (sent ?s)" using sent assms(4) by (auto simp: list_all_iff dest: list_emb_set)
  then have r: "fresh (x_oor x) cap (c_tick_size c) (seen ?s) (rt ?s)" using f t by (simp add: fresh_inv_def)
  then show ?thesis using s topOfBook_iff[of cap "rt_book (rt ?s)" side] by (auto simp: fresh_def map_le_def dom_def)
qed

theorem engine_book_never_stale_witness:
  "\<exists>e :: engine. bookReady (rt (e_sys e)) \<and> seen (e_sys e) = [feed_snapshot] \<and> levels 64 Bid (rt_book (rt (e_sys e))) \<subseteq>\<^sub>m [100 \<mapsto> dbl 2]"
proof -
  obtain e where e: "(engine_step feed_world 64 4)\<^sup>*\<^sup>* (engine_start 64 4 feed_config) e" "bookReady (rt (e_sys e))" "seen (e_sys e) = [feed_snapshot]"
    "feed_events (\<lambda>_. 0) 1 (w_calls (e_ws e)) = [feed_snapshot]" using feed_run by blast
  have c: "x_oor feed_world = (\<lambda>_. 0)" "c_tick_size feed_config = 1" by (simp_all add: feed_config_def feed_world_def)
  have "event_ticks_ok (\<lambda>_. 0) 1 feed_snapshot" by (simp add: event_ticks_ok_def feed_snapshot_def snapshot_updates_def tick_bound_def)
  moreover have "feed_side (\<lambda>_. 0) 1 Bid [feed_snapshot] = [100 \<mapsto> dbl 2]"
    by (simp add: feed_side_def feed_event_def feed_snapshot_def snapshot_updates_def feed_levels_def put_level_def less_fin)
  ultimately show ?thesis using engine_book_never_stale[OF book_cap_64 queue_cap_4 e(1), of Bid] e(2-4) c by auto
qed

end
