(* ===== verification/Config.thy ===== *)
theory Config
  imports Runtime_Behaviour "HOL-Library.Monad_Syntax"
begin

text \<open>
  Reading the configuration (\<^verbatim>\<open>loadConfig\<close> of \<^verbatim>\<open>src/main.cpp\<close>). The JSON library is a parameter: the
  record \<open>json_api\<close> holds the calls that the function makes. A call that throws is \<open>None\<close>; only the
  parsing of the text is inside a \<^verbatim>\<open>try\<close> block, so any other exception leaves the function, which
  is the result \<open>None\<close>.
\<close>

section \<open>Loading\<close>

record 'j json_api =
  j_parse :: "string \<Rightarrow> 'j option"
  j_contains :: "'j \<Rightarrow> string \<Rightarrow> bool"
  j_at :: "'j \<Rightarrow> string \<Rightarrow> 'j"
  value_string :: "'j \<Rightarrow> string \<Rightarrow> string \<Rightarrow> string option"
  value_int :: "'j \<Rightarrow> string \<Rightarrow> int \<Rightarrow> int option"
  value_size :: "'j \<Rightarrow> string \<Rightarrow> nat \<Rightarrow> nat option"
  value_u64 :: "'j \<Rightarrow> string \<Rightarrow> u64 \<Rightarrow> u64 option"
  value_double :: "'j \<Rightarrow> string \<Rightarrow> double \<Rightarrow> double option"
  value_bool :: "'j \<Rightarrow> string \<Rightarrow> bool \<Rightarrow> bool option"

definition read_threading :: "'j json_api \<Rightarrow> 'j \<Rightarrow> RuntimeConfig \<Rightarrow> RuntimeConfig option" where
  "read_threading api j c =
     (if j_contains api j ''threading'' then
        let t = j_at api j ''threading'' in
        do { network \<leftarrow> value_int api t ''network_core'' (- 1);
             core \<leftarrow> value_int api t ''strategy_core'' (- 1);
             spin \<leftarrow> value_bool api t ''strategy_busy_spin'' False;
             us \<leftarrow> value_int api t ''strategy_sleep_us'' 50;
             Some (c\<lparr>networkCoreId := network, strategyCoreId := core, strategyBusySpin := spin, strategySleepUs := us\<rparr>) }
      else Some c)"

definition read_strategy :: "'j json_api \<Rightarrow> 'j \<Rightarrow> RuntimeConfig \<Rightarrow> RuntimeConfig option" where
  "read_strategy api j c =
     (if j_contains api j ''strategy'' then
        let s = j_at api j ''strategy'' in
        do { dl \<leftarrow> value_size api s ''depth_levels'' 5;
             sw \<leftarrow> value_size api s ''smoothing_window'' 5;
             ei \<leftarrow> value_double api s ''entry_imbalance'' (dbl (30 / 100));
             tp \<leftarrow> value_double api s ''take_profit_bps'' (dbl 8);
             sl \<leftarrow> value_double api s ''stop_loss_bps'' (dbl 8);
             ms \<leftarrow> value_double api s ''max_spread_bps'' (dbl 5);
             tf \<leftarrow> value_double api s ''trade_fraction'' (dbl (10 / 100));
             cs \<leftarrow> value_double api s ''cooldown_s'' (dbl 2);
             sh \<leftarrow> value_bool api s ''allow_short'' True;
             Some (c\<lparr>c_strategy := \<lparr>depth_levels = dl, smoothing_window = sw, entry_imbalance = ei, take_profit_bps = tp,
               stop_loss_bps = sl, max_spread_bps = ms, trade_fraction = tf, cooldown_s = cs, allow_short = sh\<rparr>\<rparr>) }
      else Some c)"

definition read_risk :: "'j json_api \<Rightarrow> 'j \<Rightarrow> RuntimeConfig \<Rightarrow> RuntimeConfig option" where
  "read_risk api j c =
     (if j_contains api j ''risk'' then
        let r = j_at api j ''risk'' in
        do { t \<leftarrow> value_u64 api r ''circuit_error_threshold'' (circuitErrorThreshold c);
             w \<leftarrow> value_u64 api r ''circuit_window_msgs'' (circuitWindowMsgs c);
             Some (c\<lparr>circuitErrorThreshold := t, circuitWindowMsgs := w\<rparr>) }
      else Some c)"

definition read_venue :: "'j json_api \<Rightarrow> 'j \<Rightarrow> RuntimeConfig \<Rightarrow> RuntimeConfig option" where
  "read_venue api j c =
     (if j_contains api j ''venue'' then
        let v = j_at api j ''venue''; w = c_ws c in
        do { host \<leftarrow> value_string api v ''host'' (ws_host w);
             port \<leftarrow> value_string api v ''port'' (ws_port w);
             channel \<leftarrow> value_string api v ''channel'' (ws_channel w);
             Some (c\<lparr>c_ws := w\<lparr>ws_host := host, ws_port := port, ws_channel := channel\<rparr>\<rparr>) }
      else Some c)"

text \<open>The checks, in the order of the code; \<open>symbolId\<close> is the value before the cast to 16 bits.\<close>

definition config_checks :: "int \<Rightarrow> RuntimeConfig \<Rightarrow> RuntimeConfig Result" where
  "config_checks symbolId c = (let s = c_strategy c in
     if c_tick_size c \<le> 0 then Fail ConfigInvalidValue
     else if c_max_position c \<le> 0 then Fail ConfigInvalidValue
     else if c_initial_cash c < 0 then Fail ConfigInvalidValue
     else if symbolId < 0 \<or> MAX_SYMBOLS \<le> nat symbolId then Fail ConfigInvalidValue
     else if depth_levels s = 0 \<or> smoothing_window s = 0 then Fail ConfigInvalidValue
     else if MAX_DEPTH < depth_levels s then Fail ConfigInvalidValue
     else if MAX_ROLLING < smoothing_window s then Fail ConfigInvalidValue
     else if circuitErrorThreshold c = 0 \<or> circuitWindowMsgs c = 0 then Fail ConfigInvalidValue
     else if strategySleepUs c \<le> 0 then Fail ConfigInvalidValue
     else if trade_fraction s \<le> 0 \<or> 1 < trade_fraction s then Fail ConfigInvalidValue
     else if entry_imbalance s < 0 \<or> 1 < entry_imbalance s then Fail ConfigInvalidValue
     else if take_profit_bps s \<le> 0 \<or> stop_loss_bps s \<le> 0 then Fail ConfigInvalidValue
     else if ws_host (c_ws c) = [] \<or> ws_port (c_ws c) = [] then Fail ConfigInvalidValue
     else Value c)"

definition loadConfig :: "'j json_api \<Rightarrow> (string \<Rightarrow> string option) \<Rightarrow> string \<Rightarrow> RuntimeConfig Result option" where
  "loadConfig api files path =
     (case files path of None \<Rightarrow> Some (Fail ConfigFileNotFound)
      | Some doc \<Rightarrow>
        (case j_parse api doc of None \<Rightarrow> Some (Fail ParseMalformedJson)
         | Some j \<Rightarrow>
           do { pid \<leftarrow> value_string api j ''product_id'' ''BTC-USD'';
                sid \<leftarrow> value_int api j ''symbol_id'' 0;
                tick \<leftarrow> value_double api j ''tick_size'' (dbl (1 / 100));
                mp \<leftarrow> value_double api j ''max_position'' (dbl 5);
                cash \<leftarrow> value_double api j ''initial_cash'' (dbl 10000);
                c1 \<leftarrow> read_threading api j (default_config\<lparr>c_product_id := pid, c_symbolId := of_int sid, c_tick_size := tick,
                        c_max_position := mp, c_initial_cash := cash\<rparr>);
                c2 \<leftarrow> read_strategy api j c1;
                c3 \<leftarrow> read_risk api j c2;
                c4 \<leftarrow> read_venue api j c3;
                Some (config_checks sid c4) }))"


section \<open>The start of the program\<close>

text \<open>
  \<^verbatim>\<open>main\<close> up to the start of the runtime: the path is the first argument or the default; a failure
  prints its name and exits with 1; an exception that leaves \<^verbatim>\<open>loadConfig\<close> terminates the program.
\<close>

datatype program = Terminated | Exit int string | Started runtime

definition config_path :: "string list \<Rightarrow> string" where
  "config_path argv = (if 2 \<le> length argv then argv ! 1 else ''config.json'')"

definition main_start :: "nat \<Rightarrow> nat \<Rightarrow> 'j json_api \<Rightarrow> (string \<Rightarrow> string option) \<Rightarrow> string list \<Rightarrow> program" where
  "main_start cap qcap api files argv =
     (case loadConfig api files (config_path argv) of
        None \<Rightarrow> Terminated
      | Some (Fail e) \<Rightarrow> Exit 1 (''Failed to load config ('' @ config_path argv @ ''): '' @ toString e)
      | Some (Value c) \<Rightarrow> Started (start_flags (new_runtime cap qcap c)))"

section \<open>Accepted configurations\<close>

text \<open>What the library guarantees of numbers: JSON has no NaN, so a value is a NaN only if the default is.\<close>

definition no_nan :: "'j json_api \<Rightarrow> bool" where
  "no_nan api \<longleftrightarrow> (\<forall>j k d v. value_double api j k d = Some v \<and> is_nan v \<longrightarrow> is_nan d)"

definition config_doubles :: "RuntimeConfig \<Rightarrow> double list" where
  "config_doubles c = [c_tick_size c, c_max_position c, c_initial_cash c, trade_fraction (c_strategy c), entry_imbalance (c_strategy c),
     take_profit_bps (c_strategy c), stop_loss_bps (c_strategy c)]"

definition valid_config :: "RuntimeConfig \<Rightarrow> bool" where
  "valid_config c \<longleftrightarrow> (let s = c_strategy c in
     0 < c_tick_size c \<and> 0 < c_max_position c \<and> 0 \<le> c_initial_cash c \<and> sym (c_symbolId c) < MAX_SYMBOLS \<and>
     1 \<le> depth_levels s \<and> depth_levels s \<le> MAX_DEPTH \<and> 1 \<le> smoothing_window s \<and> smoothing_window s \<le> MAX_ROLLING \<and>
     circuitErrorThreshold c \<noteq> 0 \<and> circuitWindowMsgs c \<noteq> 0 \<and> 0 < strategySleepUs c \<and>
     0 < trade_fraction s \<and> trade_fraction s \<le> 1 \<and> 0 \<le> entry_imbalance s \<and> entry_imbalance s \<le> 1 \<and>
     0 < take_profit_bps s \<and> 0 < stop_loss_bps s \<and> ws_host (c_ws c) \<noteq> [] \<and> ws_port (c_ws c) \<noteq> [])"

lemma dbl_not_nan [simp]: "\<not> is_nan (dbl q)"
  by (simp add: is_nan.rep_eq dbl.rep_eq fp_round_def Let_def)

lemma checks_valid:
  assumes "config_checks sid c = Value c'" "list_all (\<lambda>x. \<not> is_nan x) (config_doubles c)" "c_symbolId c = of_int sid"
  shows "c' = c" "valid_config c" "int (sym (c_symbolId c)) = sid"
proof -
  show "c' = c" using assms(1) by (simp add: config_checks_def Let_def split: if_splits)
  have s: "0 \<le> sid" "nat sid < MAX_SYMBOLS" using assms(1) by (auto simp: config_checks_def Let_def split: if_splits)
  then have "unat (of_int sid :: SymbolId) = nat sid"
    by (simp add: MAX_SYMBOLS_def unsigned_of_int take_bit_int_eq_self)
  then show i: "int (sym (c_symbolId c)) = sid" using s by (simp add: sym_def assms(3))
  have n: "\<not> is_nan (0 :: double)" "\<not> is_nan (1 :: double)" using dbl_not_nan[of 0] dbl_not_nan[of 1] by simp_all
  have "0 < x" if "\<not> x \<le> 0" "\<not> is_nan x" for x :: double using that n d_not_less[of 0 x] by auto
  moreover have "x \<le> y" if "\<not> y < x" "\<not> is_nan x" "\<not> is_nan y" for x y :: double using that d_not_less[of y x] by simp
  ultimately show "valid_config c"
    using assms(1,2) s i n by (auto simp: config_checks_def valid_config_def config_doubles_def Let_def split: if_splits)
qed

lemma reads_keep:
  "read_threading api j c = Some c' \<Longrightarrow> c_symbolId c' = c_symbolId c \<and> config_doubles c' = config_doubles c"
  "read_risk api j c = Some c' \<Longrightarrow> c_symbolId c' = c_symbolId c \<and> config_doubles c' = config_doubles c"
  "read_venue api j c = Some c' \<Longrightarrow> c_symbolId c' = c_symbolId c \<and> config_doubles c' = config_doubles c"
  by (auto simp: read_threading_def read_risk_def read_venue_def config_doubles_def Let_def split: if_splits bind_splits)

lemma read_strategy_keep:
  assumes "no_nan api" "read_strategy api j c = Some c'" "list_all (\<lambda>x. \<not> is_nan x) (config_doubles c)"
  shows "c_symbolId c' = c_symbolId c \<and> list_all (\<lambda>x. \<not> is_nan x) (config_doubles c')"
proof -
  have n: "\<not> is_nan v" if "value_double api t k (dbl q) = Some v" for t k q v
    using assms(1) that dbl_not_nan[of q] unfolding no_nan_def by blast
  show ?thesis using assms(2,3)
    by (auto simp: read_strategy_def config_doubles_def Let_def split: if_splits bind_splits dest!: n)
qed


lemma loaded_config:
  assumes "no_nan api" "loadConfig api files path = Some (Value c)"
  shows "valid_config c"
proof -
  have n: "\<not> is_nan v" if "value_double api t k (dbl q) = Some v" for t k q v
    using assms(1) that dbl_not_nan[of q] unfolding no_nan_def by blast
  obtain doc j pid sid tick mp ch c1 c2 c3 c4 where f: "files path = Some doc" "j_parse api doc = Some j"
    and v: "value_double api j ''tick_size'' (dbl (1 / 100)) = Some tick" "value_double api j ''max_position'' (dbl 5) = Some mp"
      "value_double api j ''initial_cash'' (dbl 10000) = Some ch"
    and r: "read_threading api j (default_config\<lparr>c_product_id := pid, c_symbolId := of_int sid, c_tick_size := tick,
        c_max_position := mp, c_initial_cash := ch\<rparr>) = Some c1" "read_strategy api j c1 = Some c2" "read_risk api j c2 = Some c3"
      "read_venue api j c3 = Some c4" "config_checks sid c4 = Value c"
    using assms(2) unfolding loadConfig_def by (auto split: option.splits bind_splits)
  let ?c0 = "default_config\<lparr>c_product_id := pid, c_symbolId := of_int sid, c_tick_size := tick, c_max_position := mp, c_initial_cash := ch\<rparr>"
  have "list_all (\<lambda>x. \<not> is_nan x) (config_doubles ?c0)"
    using n[OF v(1)] n[OF v(2)] n[OF v(3)] by (simp add: config_doubles_def default_config_def default_params_def)
  then have "list_all (\<lambda>x. \<not> is_nan x) (config_doubles c1)" "c_symbolId c1 = of_int sid" using reads_keep(1)[OF r(1)] by simp_all
  then have "list_all (\<lambda>x. \<not> is_nan x) (config_doubles c4)" "c_symbolId c4 = of_int sid"
    using read_strategy_keep[OF assms(1) r(2)] reads_keep(2)[OF r(3)] reads_keep(3)[OF r(4)] by simp_all
  then show ?thesis using checks_valid[OF r(5)] by simp
qed

section \<open>The schema\<close>

text \<open>
  The configuration file as a table, apart from the order in which the code reads it: a field
  has a section (the empty string is the top level), a key and a default. The value of
  a field is the default when its section is missing, and otherwise what the library reads.
\<close>

type_synonym 'a field = "string \<times> string \<times> 'a"

fun setting :: "'j json_api \<Rightarrow> ('j \<Rightarrow> string \<Rightarrow> 'a \<Rightarrow> 'a option) \<Rightarrow> 'j \<Rightarrow> 'a field \<Rightarrow> 'a option" where
  "setting api rd j (sec, key, d) =
     (if sec = [] then rd j key d else if j_contains api j sec then rd (j_at api j sec) key d else Some d)"

definition string_fields :: "string field list" where
  "string_fields = [([], ''product_id'', ''BTC-USD''), (''venue'', ''host'', ''ws-feed.exchange.coinbase.com''),
     (''venue'', ''port'', ''443''), (''venue'', ''channel'', ''level2_batch'')]"

definition int_fields :: "int field list" where
  "int_fields = [([], ''symbol_id'', 0), (''threading'', ''network_core'', - 1), (''threading'', ''strategy_core'', - 1),
     (''threading'', ''strategy_sleep_us'', 50)]"

definition size_fields :: "nat field list" where
  "size_fields = [(''strategy'', ''depth_levels'', 5), (''strategy'', ''smoothing_window'', 5)]"

definition u64_fields :: "u64 field list" where
  "u64_fields = [(''risk'', ''circuit_error_threshold'', 20), (''risk'', ''circuit_window_msgs'', 500)]"

definition double_fields :: "double field list" where
  "double_fields = [([], ''tick_size'', dbl (1 / 100)), ([], ''max_position'', dbl 5), ([], ''initial_cash'', dbl 10000),
     (''strategy'', ''entry_imbalance'', dbl (30 / 100)), (''strategy'', ''take_profit_bps'', dbl 8), (''strategy'', ''stop_loss_bps'', dbl 8),
     (''strategy'', ''max_spread_bps'', dbl 5), (''strategy'', ''trade_fraction'', dbl (10 / 100)), (''strategy'', ''cooldown_s'', dbl 2)]"

definition bool_fields :: "bool field list" where
  "bool_fields = [(''threading'', ''strategy_busy_spin'', False), (''strategy'', ''allow_short'', True)]"

text \<open>No field of the file has a value of the wrong type.\<close>

definition well_typed :: "'j json_api \<Rightarrow> 'j \<Rightarrow> bool" where
  "well_typed api j \<longleftrightarrow>
     list_all (\<lambda>f. setting api (value_string api) j f \<noteq> None) string_fields \<and>
     list_all (\<lambda>f. setting api (value_int api) j f \<noteq> None) int_fields \<and>
     list_all (\<lambda>f. setting api (value_size api) j f \<noteq> None) size_fields \<and>
     list_all (\<lambda>f. setting api (value_u64 api) j f \<noteq> None) u64_fields \<and>
     list_all (\<lambda>f. setting api (value_double api) j f \<noteq> None) double_fields \<and>
     list_all (\<lambda>f. setting api (value_bool api) j f \<noteq> None) bool_fields"

definition field_of :: "'a field list \<Rightarrow> string \<Rightarrow> 'a field" where
  "field_of fs key = hd (filter (\<lambda>(sec, k, d). k = key) fs)"

text \<open>The configuration that a well-typed file describes; the rest is that of \<open>default_config\<close>.\<close>

definition described_symbol :: "'j json_api \<Rightarrow> 'j \<Rightarrow> int" where
  "described_symbol api j = the (setting api (value_int api) j (field_of int_fields ''symbol_id''))"

definition described_strategy :: "'j json_api \<Rightarrow> 'j \<Rightarrow> StrategyParams" where
  "described_strategy api j =
     (let size = (\<lambda>k. the (setting api (value_size api) j (field_of size_fields k)));
          num = (\<lambda>k. the (setting api (value_double api) j (field_of double_fields k))) in
      \<lparr>depth_levels = size ''depth_levels'', smoothing_window = size ''smoothing_window'', entry_imbalance = num ''entry_imbalance'', take_profit_bps = num ''take_profit_bps'', stop_loss_bps = num ''stop_loss_bps'',
       max_spread_bps = num ''max_spread_bps'', trade_fraction = num ''trade_fraction'', cooldown_s = num ''cooldown_s'',
       allow_short = the (setting api (value_bool api) j (field_of bool_fields ''allow_short''))\<rparr>)"

definition described :: "'j json_api \<Rightarrow> 'j \<Rightarrow> RuntimeConfig" where
  "described api j =
     (let str = (\<lambda>k. the (setting api (value_string api) j (field_of string_fields k)));
          int = (\<lambda>k. the (setting api (value_int api) j (field_of int_fields k)));
          num = (\<lambda>k. the (setting api (value_double api) j (field_of double_fields k))) in
      \<lparr>c_product_id = str ''product_id'', c_symbolId = of_int (described_symbol api j), c_tick_size = num ''tick_size'', c_max_position = num ''max_position'',
       c_initial_cash = num ''initial_cash'', c_strategy = described_strategy api j,
       networkCoreId = int ''network_core'', strategyCoreId = int ''strategy_core'', strategyBusySpin = the (setting api (value_bool api) j (field_of bool_fields ''strategy_busy_spin'')),
       strategySleepUs = int ''strategy_sleep_us'', circuitErrorThreshold = the (setting api (value_u64 api) j (field_of u64_fields ''circuit_error_threshold'')),
       circuitWindowMsgs = the (setting api (value_u64 api) j (field_of u64_fields ''circuit_window_msgs'')),
       c_ws = default_ws\<lparr>ws_host := str ''host'', ws_port := str ''port'', ws_channel := str ''channel''\<rparr>\<rparr>)"

lemmas schema_defs = field_of_def string_fields_def int_fields_def size_fields_def u64_fields_def double_fields_def bool_fields_def

text \<open>The functions that read the sections against the table.\<close>

lemma read_threading_eq:
  assumes "networkCoreId c = - 1" "strategyCoreId c = - 1" "\<not> strategyBusySpin c" "strategySleepUs c = 50"
  shows "read_threading api j c =
    (let int = (\<lambda>k. setting api (value_int api) j (field_of int_fields k)); spin = setting api (value_bool api) j (field_of bool_fields ''strategy_busy_spin'') in
     if int ''network_core'' = None \<or> int ''strategy_core'' = None \<or> int ''strategy_sleep_us'' = None \<or> spin = None then None
     else Some (c\<lparr>networkCoreId := the (int ''network_core''), strategyCoreId := the (int ''strategy_core''), strategyBusySpin := the spin, strategySleepUs := the (int ''strategy_sleep_us'')\<rparr>))"
  using assms by (auto simp: read_threading_def schema_defs Let_def split: bind_splits)

lemma read_strategy_eq:
  assumes "c_strategy c = default_params"
  shows "read_strategy api j c =
    (if list_all (\<lambda>f. setting api (value_size api) j f \<noteq> None) size_fields \<and>
        list_all (\<lambda>f. setting api (value_double api) j f \<noteq> None) (drop 3 double_fields) \<and> setting api (value_bool api) j (field_of bool_fields ''allow_short'') \<noteq> None
     then Some (c\<lparr>c_strategy := described_strategy api j\<rparr>) else None)"
  using assms by (auto simp: read_strategy_def described_strategy_def schema_defs Let_def default_params_def split: bind_splits)

lemma read_risk_eq:
  assumes "circuitErrorThreshold c = 20" "circuitWindowMsgs c = 500"
  shows "read_risk api j c =
    (let v = (\<lambda>k. setting api (value_u64 api) j (field_of u64_fields k)) in
     if v ''circuit_error_threshold'' = None \<or> v ''circuit_window_msgs'' = None then None else Some (c\<lparr>circuitErrorThreshold := the (v ''circuit_error_threshold''), circuitWindowMsgs := the (v ''circuit_window_msgs'')\<rparr>))"
  using assms by (auto simp: read_risk_def schema_defs Let_def split: bind_splits)

lemma read_venue_eq:
  assumes "c_ws c = default_ws"
  shows "read_venue api j c =
    (let str = (\<lambda>k. setting api (value_string api) j (field_of string_fields k)) in
     if str ''host'' = None \<or> str ''port'' = None \<or> str ''channel'' = None then None
     else Some (c\<lparr>c_ws := default_ws\<lparr>ws_host := the (str ''host''), ws_port := the (str ''port''), ws_channel := the (str ''channel'')\<rparr>\<rparr>))"
  using assms by (auto simp: read_venue_def schema_defs Let_def default_ws_def split: bind_splits)

lemma load_schema:
  assumes "files path = Some doc" "j_parse api doc = Some j"
  shows "loadConfig api files path =
    (if well_typed api j then Some (config_checks (described_symbol api j) (described api j)) else None)"
proof -
  define top where "top = (\<lambda>pid sid tick mp ch. default_config\<lparr>c_product_id := pid, c_symbolId := of_int sid, c_tick_size := tick,
    c_max_position := mp, c_initial_cash := ch\<rparr>)"
  note d = default_config_def
  have "loadConfig api files path =
    do { pid \<leftarrow> setting api (value_string api) j (field_of string_fields ''product_id''); sid \<leftarrow> setting api (value_int api) j (field_of int_fields ''symbol_id'');
         tick \<leftarrow> setting api (value_double api) j (field_of double_fields ''tick_size''); mp \<leftarrow> setting api (value_double api) j (field_of double_fields ''max_position'');
         ch \<leftarrow> setting api (value_double api) j (field_of double_fields ''initial_cash'');
         c1 \<leftarrow> read_threading api j (top pid sid tick mp ch);
         c2 \<leftarrow> read_strategy api j c1; c3 \<leftarrow> read_risk api j c2; c4 \<leftarrow> read_venue api j c3; Some (config_checks sid c4) }"
    using assms by (simp add: loadConfig_def schema_defs top_def)
  also have "\<dots> = (if well_typed api j then Some (config_checks (described_symbol api j) (described api j)) else None)"
    by (auto simp: read_threading_eq read_strategy_eq read_risk_eq read_venue_eq top_def d well_typed_def described_def described_symbol_def
        Let_def schema_defs simp del: setting.simps split: bind_splits)
  finally show ?thesis .
qed

text \<open>The checks against the ranges of \<open>valid_config\<close>: without NaN they are each other's negation.\<close>

lemma checks_complete:
  assumes "list_all (\<lambda>x. \<not> is_nan x) (config_doubles c)" "c_symbolId c = of_int sid"
  shows "config_checks sid c = (if valid_config c \<and> 0 \<le> sid \<and> sid < int MAX_SYMBOLS then Value c else Fail ConfigInvalidValue)"
proof (cases "valid_config c \<and> 0 \<le> sid \<and> sid < int MAX_SYMBOLS")
  case True
  have n: "\<not> is_nan (0 :: double)" "\<not> is_nan (1 :: double)" using dbl_not_nan[of 0] dbl_not_nan[of 1] by simp_all
  have "\<not> x \<le> 0" if "0 < x" for x :: double using that n d_not_less[of 0 x] d_less_nan[of 0 x] by blast
  moreover have "\<not> y < x" if "x \<le> y" for x y :: double using that d_not_less[of y x] d_le_nan[of x y] by blast
  ultimately show ?thesis using True by (auto simp: config_checks_def valid_config_def Let_def)
next
  case False
  have "\<exists>e. config_checks sid c = Fail e"
  proof (cases "config_checks sid c")
    case (Value c')
    then have "valid_config c" "int (sym (c_symbolId c)) = sid" using checks_valid[OF Value assms] by simp_all
    then have "0 \<le> sid \<and> sid < int MAX_SYMBOLS" by (auto simp: valid_config_def Let_def)
    then show ?thesis using False \<open>valid_config c\<close> by blast
  qed blast
  moreover have "e = ConfigInvalidValue" if "config_checks sid c = Fail e" for e
    using that by (auto simp: config_checks_def Let_def split: if_splits)
  ultimately show ?thesis using False by auto
qed

lemma setting_no_nan:
  assumes "no_nan api" "\<not> is_nan d" "setting api (value_double api) j (sec, k, d) \<noteq> None"
  shows "\<not> is_nan (the (setting api (value_double api) j (sec, k, d)))"
proof -
  have "\<not> is_nan v" if "value_double api i k d = Some v" for i v using assms(1,2) that unfolding no_nan_def by blast
  then show ?thesis using assms(2,3) by (auto split: if_splits)
qed

lemma described_no_nan:
  assumes "no_nan api" "well_typed api j" shows "list_all (\<lambda>x. \<not> is_nan x) (config_doubles (described api j))"
  using assms setting_no_nan[OF assms(1)]
  by (simp add: config_doubles_def described_def described_strategy_def well_typed_def schema_defs Let_def del: setting.simps)

text \<open>What makes a file acceptable.\<close>

definition acceptable :: "'j json_api \<Rightarrow> 'j \<Rightarrow> bool" where
  "acceptable api j \<longleftrightarrow> valid_config (described api j) \<and> 0 \<le> described_symbol api j \<and> described_symbol api j < int MAX_SYMBOLS"

lemma load_outcome:
  assumes "no_nan api"
  shows "loadConfig api files path =
    (case files path of None \<Rightarrow> Some (Fail ConfigFileNotFound)
     | Some doc \<Rightarrow> (case j_parse api doc of None \<Rightarrow> Some (Fail ParseMalformedJson)
       | Some j \<Rightarrow> if \<not> well_typed api j then None
                 else if acceptable api j then Some (Value (described api j)) else Some (Fail ConfigInvalidValue)))"
proof (cases "\<exists>doc j. files path = Some doc \<and> j_parse api doc = Some j")
  case True
  then obtain doc j where f: "files path = Some doc" "j_parse api doc = Some j" by blast
  have "c_symbolId (described api j) = of_int (described_symbol api j)" by (simp add: described_def Let_def)
  then show ?thesis using load_schema[where files = files and path = path, OF f] described_no_nan[OF assms, of j] f
    by (simp add: checks_complete acceptable_def)
qed (auto simp: loadConfig_def split: option.splits)

section \<open>Properties of the configuration\<close>

text \<open>
  C18. A program that starts runs with a valid configuration in a sound state. When \<^verbatim>\<open>main\<close> gets past
  the loading, the configuration it loaded is valid and the runtime it starts has all the
  invariants that the other properties rest on: that of the runtime (strategy, risk manager, book,
  published figures, agreement of cash), the orders counted, a well-formed empty book and
  an empty queue. The strategy clamps none of the configured parameters, the risk manager has the
  configured limit and checks cash, both hold a position of zero and the initial cash, and the
  breaker is closed.
\<close>

theorem loaded_config_runs:
  assumes "no_nan api" "book_cap cap" "queue_cap qcap" "main_start cap qcap api files argv = Started r"
  shows "\<exists>c. loadConfig api files (config_path argv) = Some (Value c) \<and> valid_config c \<and>
    runtime_inv cap r \<and> counted r 0 \<and> book_ok cap (rt_book r) \<and> (\<forall>s. levels cap s (rt_book r) = Map.empty) \<and>
    spsc_inv qcap (queue r) \<and> spsc_contents qcap (queue r) = [] \<and> started r \<and> running r \<and> \<not> bookReady r \<and>
    params (strat r) = c_strategy c \<and> strat_state (strat r) = opening_account c \<and>
    cashEnabled (risk_mgr r) \<and> limit (c_symbolId c) (risk_mgr r) = c_max_position c \<and>
    position (c_symbolId c) (risk_mgr r) = 0 \<and> cash (c_symbolId c) (risk_mgr r) = c_initial_cash c \<and> \<not> isTripped (brk r)"
proof -
  obtain c where c: "loadConfig api files (config_path argv) = Some (Value c)" "r = start_flags (new_runtime cap qcap c)"
    using assms(4) by (auto simp: main_start_def split: option.splits Result.splits)
  note v = loaded_config[OF assms(1) c(1)]
  have r: "r = (new_runtime cap qcap c)\<lparr>started := True, running := True\<rparr>"
    by (simp add: c(2) start_flags_def new_runtime_def)
  have s: "sym (c_symbolId c) < MAX_SYMBOLS" "0 \<le> c_initial_cash c" using v by (simp_all add: valid_config_def Let_def)
  have k: "clamp_params (c_strategy c) = c_strategy c" using v by (simp add: valid_config_def clamp_params_def Let_def)
  note i = sys_inv_start[OF assms(2,3), of c] and l = ledger_new[OF s, of cap qcap]
  have "runtime_inv cap r" "counted r 0" "spsc_inv qcap (queue r)" "spsc_contents qcap (queue r) = []"
    using i by (simp_all add: sys_inv_def sys_start_def r frame_simps)
  moreover have "rt_book r = new_book cap" "\<not> bookReady r" by (simp_all add: r new_runtime_def)
  moreover have "params (strat r) = c_strategy c"
    by (simp add: r new_runtime_def) (simp add: setInitialCash_def setSymbol_def new_strategy_def k)
  moreover have "strat_state (strat r) = opening_account c" "position (c_symbolId c) (risk_mgr r) = 0"
    using l by (simp_all add: ledger_def r book_fills_def)
  moreover have "cashEnabled (risk_mgr r) \<and> limit (c_symbolId c) (risk_mgr r) = c_max_position c \<and> cash (c_symbolId c) (risk_mgr r) = c_initial_cash c"
    using s by (simp add: r new_runtime_def) (simp add: configure_def limit_def cash_def new_risk_def Let_def)
  moreover have "\<not> isTripped (brk r)" by (simp add: r new_runtime_def) (simp add: new_breaker_def isTripped_def)
  ultimately show ?thesis using c(1) v book_ok_new[OF assms(2)] levels_empty(1) by (intro exI[of _ c]) (simp add: r)
qed

text \<open>
  C36. The outcome of loading, in full. A missing file and malformed JSON have their own errors. Of a
  file that parses, the outcome depends on the table of its fields: if any field that is present
  has the wrong type, the exception of the library leaves \<^verbatim>\<open>loadConfig\<close> and terminates the program,
  whatever the other values are; otherwise the configuration it describes is accepted exactly
  if every value is in the range of \<open>valid_config\<close> and the symbol, before its cast to 16 bits, has a slot;
  otherwise the error is \<open>ConfigInvalidValue\<close>. \<^verbatim>\<open>main\<close> exits with 1 and the name of the error for
  every error, and starts the runtime of the described configuration for no other file.
\<close>

theorem config_failures:
  assumes "no_nan api"
  shows "loadConfig api files path =
      (case files path of None \<Rightarrow> Some (Fail ConfigFileNotFound)
       | Some doc \<Rightarrow> (case j_parse api doc of None \<Rightarrow> Some (Fail ParseMalformedJson)
         | Some j \<Rightarrow> if \<not> well_typed api j then None
                   else if acceptable api j then Some (Value (described api j)) else Some (Fail ConfigInvalidValue))) \<and>
    (main_start cap qcap api files argv = Terminated \<longleftrightarrow>
       (\<exists>doc j. files (config_path argv) = Some doc \<and> j_parse api doc = Some j \<and> \<not> well_typed api j)) \<and>
    (main_start cap qcap api files argv = Started r \<longleftrightarrow>
       (\<exists>doc j. files (config_path argv) = Some doc \<and> j_parse api doc = Some j \<and> well_typed api j \<and> acceptable api j \<and>
          r = start_flags (new_runtime cap qcap (described api j)))) \<and>
    (main_start cap qcap api files argv = Exit n m \<longleftrightarrow>
       n = 1 \<and> (\<exists>e. loadConfig api files (config_path argv) = Some (Fail e) \<and>
          m = ''Failed to load config ('' @ config_path argv @ ''): '' @ toString e))"
  using load_outcome[OF assms, of files path] load_outcome[OF assms, of files "config_path argv"]
  by (auto simp: main_start_def split: option.splits Result.splits if_splits)

definition empty_json :: "unit json_api" where
  "empty_json = \<lparr>j_parse = \<lambda>_. Some (), j_contains = \<lambda>_ _. False, j_at = \<lambda>j _. j, value_string = \<lambda>_ _ d. Some d, value_int = \<lambda>_ _ d. Some d,
     value_size = \<lambda>_ _ d. Some d, value_u64 = \<lambda>_ _ d. Some d, value_double = \<lambda>_ _ d. Some d, value_bool = \<lambda>_ _ d. Some d\<rparr>"

lemma empty_json_no_nan: "no_nan empty_json"
  by (simp add: no_nan_def empty_json_def)

lemma default_checks: "config_checks 0 default_config = Value default_config"
  by code_simp

lemma empty_json_loads: "loadConfig empty_json (\<lambda>_. Some []) path = Some (Value default_config)"
proof -
  have "default_config\<lparr>c_product_id := ''BTC-USD'', c_symbolId := 0, c_tick_size := dbl (1 / 100), c_max_position := dbl 5,
      c_initial_cash := dbl 10000\<rparr> = default_config" by (simp add: default_config_def)
  then show ?thesis
    using default_checks by (simp add: loadConfig_def empty_json_def read_threading_def read_strategy_def read_risk_def read_venue_def)
qed

theorem loaded_config_runs_witness:
  "\<exists>r. main_start 64 4 empty_json (\<lambda>_. Some []) [] = Started r \<and> runtime_inv 64 r \<and> spsc_inv 4 (queue r) \<and> running r"
proof -
  obtain r where r: "main_start 64 4 empty_json (\<lambda>_. Some []) [] = Started r"
    using empty_json_loads[of "config_path []"] by (simp add: main_start_def)
  from loaded_config_runs[OF empty_json_no_nan book_cap_64 queue_cap_4 r] r show ?thesis by blast
qed

text \<open>A file whose cooldown is no number, and one with an allowance of no error.\<close>

definition bad_type_json :: "unit json_api" where
  "bad_type_json = empty_json\<lparr>j_contains := \<lambda>_ k. k = ''strategy'', value_double := \<lambda>_ k d. if k = ''cooldown_s'' then None else Some d\<rparr>"

definition bad_value_json :: "unit json_api" where
  "bad_value_json = empty_json\<lparr>j_contains := \<lambda>_ k. k = ''risk'', value_u64 := \<lambda>_ k d. if k = ''circuit_error_threshold'' then Some 0 else Some d\<rparr>"

theorem config_failures_witness:
  "loadConfig empty_json (\<lambda>_. None) ''config.json'' = Some (Fail ConfigFileNotFound) \<and>
   main_start 64 4 bad_type_json (\<lambda>_. Some []) [] = Terminated \<and>
   loadConfig bad_value_json (\<lambda>_. Some []) ''config.json'' = Some (Fail ConfigInvalidValue)"
proof -
  have n: "no_nan bad_type_json" "no_nan bad_value_json"
    using empty_json_no_nan by (auto simp: no_nan_def bad_type_json_def bad_value_json_def empty_json_def)
  have t: "\<not> well_typed bad_type_json ()" "j_parse bad_type_json [] = Some ()"
    by (simp_all add: well_typed_def schema_defs bad_type_json_def empty_json_def)
  have v: "well_typed bad_value_json ()" "\<not> acceptable bad_value_json ()" "j_parse bad_value_json [] = Some ()"
    by (auto simp: well_typed_def acceptable_def valid_config_def described_def schema_defs bad_value_json_def empty_json_def Let_def)
  show ?thesis
    using config_failures[OF empty_json_no_nan, of "\<lambda>_. None" "''config.json''"]
      config_failures[OF n(1), of "\<lambda>_. Some []" "''config.json''" 64 4 "[]"] config_failures[OF n(2), of "\<lambda>_. Some []" "''config.json''"] t v
    by simp
qed

end
