(* ===== verification/Reports.thy ===== *)
theory Reports
  imports Config
begin

text \<open>
  What the program prints (\<^verbatim>\<open>HdrHistogram::dump\<close>, \<^verbatim>\<open>src/core/metrics.cpp\<close> and the loop of \<^verbatim>\<open>src/main.cpp\<close>). A
  line is the list of the items that are sent to the stream; their formatting is the library's.
  The sections below also show what the printed percentiles mean.
\<close>

section \<open>Output\<close>

datatype out = OStr string | OU64 u64 | OI64 int | ODbl double

text \<open>\<^verbatim>\<open>static_cast<int64_t>\<close> of a double truncates; outside of the range it is the argument \<open>oor\<close>.\<close>

definition i64_of_double :: "(double \<Rightarrow> int) \<Rightarrow> double \<Rightarrow> int" where
  "i64_of_double oor d =
     (let k = (if 0 \<le> dval d then \<lfloor>dval d\<rfloor> else \<lceil>dval d\<rceil>) in if is_fin d \<and> in_i64 k then k else oor d)"

definition hist_dump :: "(double \<Rightarrow> u64) \<Rightarrow> (double \<Rightarrow> int) \<Rightarrow> string \<Rightarrow> string \<Rightarrow> hist \<Rightarrow> out list" where
  "hist_dump oor oor' name unit h =
     [OStr name, OStr '' n='', OU64 (h_count h), OStr '' mean='', OI64 (i64_of_double oor' (mean h)), OStr unit,
      OStr '' p50='', OI64 (percentileNs oor (dbl 50) h), OStr unit, OStr '' p95='', OI64 (percentileNs oor (dbl 95) h), OStr unit,
      OStr '' p99='', OI64 (percentileNs oor (dbl 99) h), OStr unit, OStr '' p99.9='', OI64 (percentileNs oor (dbl (999 / 10)) h), OStr unit,
      OStr '' max='', OI64 (maxNs h), OStr unit]"

definition newline :: string where
  "newline = [CHR 0x0A]"

definition metrics_dump :: "(double \<Rightarrow> u64) \<Rightarrow> (double \<Rightarrow> int) \<Rightarrow> Metrics \<Rightarrow> out list" where
  "metrics_dump oor oor' m =
     [OStr (''=== Latency histograms ==='' @ newline)]
     @ hist_dump oor oor' ''  wire->parse    '' ''ns'' (wireToParse m) @ [OStr newline]
     @ hist_dump oor oor' ''  parse->book    '' ''ns'' (parseToBook m) @ [OStr newline]
     @ hist_dump oor oor' ''  book->signal   '' ''ns'' (bookToSignal m) @ [OStr newline]
     @ hist_dump oor oor' ''  signal->order  '' ''ns'' (signalToOrder m) @ [OStr newline]
     @ hist_dump oor oor' ''  order->fill    '' ''ns'' (orderToFill m) @ [OStr newline]
     @ hist_dump oor oor' ''  wire->signal   '' ''ns'' (tickToSignal m) @ [OStr newline]
     @ hist_dump oor oor' ''  queue depth    '' [] (queueDepth m) @ [OStr newline]
     @ [OStr (''=== Counters ==='' @ newline),
        OStr ''  msgsReceived='', OU64 (msgsReceived m), OStr '' parseErrors='', OU64 (parseErrors m),
        OStr '' reconnects='', OU64 (reconnects m), OStr '' heartbeatsRecv='', OU64 (heartbeatsRecv m), OStr newline,
        OStr ''  signalsGenerated='', OU64 (signalsGenerated m), OStr '' ordersSent='', OU64 (ordersSent m),
        OStr '' ordersApproved='', OU64 (ordersApproved m), OStr '' ordersRejected='', OU64 (ordersRejected m),
        OStr '' fills='', OU64 (fillCount m), OStr '' partialFills='', OU64 (partialFills m),
        OStr '' circuitBlocked='', OU64 (circuitBlocked m), OStr newline,
        OStr ''  queueFullDrops='', OU64 (queueFullDrops m), OStr '' preSnapshotDrops='', OU64 (preSnapshotDrops m), OStr newline]"

section \<open>The reporting loop of the main thread\<close>

text \<open>
  One pass after its sleep: \<open>now\<close> is the reading of the steady clock in nanoseconds and \<open>r\<close> the
  runtime as the main thread sees it. The loop runs over the readings that it makes while
  \<^verbatim>\<open>g_running\<close> is set; the signal handler clears it.
\<close>

record reporter =
  lastReport :: int
  lastHeartbeat :: int

definition heartbeat_line :: "runtime \<Rightarrow> out list" where
  "heartbeat_line r =
     (let m = metrics r; pos = pnlPosition r in
      [OStr ''[heartbeat] msgs='', OU64 (msgsReceived m), OStr '' signals='', OU64 (signalsGenerated m), OStr '' fills='', OU64 (fillCount m),
       OStr '' rej='', OU64 (ordersRejected m), OStr '' cash='', ODbl (pnlCash r), OStr '' pos='', ODbl pos,
       OStr '' realized='', ODbl (pnlRealized r)]
      @ (if \<not> feq pos 0 then [OStr '' unrealized='', ODbl (pnlUnrealized r)] else [])
      @ [OStr newline])"

definition report_pass :: "(double \<Rightarrow> u64) \<Rightarrow> (double \<Rightarrow> int) \<Rightarrow> int \<Rightarrow> runtime \<Rightarrow> reporter \<Rightarrow> out list list \<times> reporter" where
  "report_pass oor oor' now r st =
     (let (o1, st1) = (if 2 * 10 ^ 9 \<le> now - lastHeartbeat st then ([heartbeat_line r], st\<lparr>lastHeartbeat := now\<rparr>) else ([], st));
          (o2, st2) = (if 30 * 10 ^ 9 \<le> now - lastReport st1
                       then ([OStr (''--- periodic metrics ---'' @ newline) # metrics_dump oor oor' (metrics r)], st1\<lparr>lastReport := now\<rparr>)
                       else ([], st1))
      in (o1 @ o2, st2))"

fun report_loop :: "(double \<Rightarrow> u64) \<Rightarrow> (double \<Rightarrow> int) \<Rightarrow> (int \<times> runtime) list \<Rightarrow> reporter \<Rightarrow> out list list" where
  "report_loop oor oor' [] st = []"
| "report_loop oor oor' ((now, r) # rest) st =
     (case report_pass oor oor' now r st of (os, st') \<Rightarrow> os @ report_loop oor oor' rest st')"

definition final_report :: "(double \<Rightarrow> u64) \<Rightarrow> (double \<Rightarrow> int) \<Rightarrow> runtime \<Rightarrow> out list list" where
  "final_report oor oor' r =
     [OStr (''=== final metrics ==='' @ newline) # metrics_dump oor oor' (metrics r),
      [OStr ''pnl: cash='', ODbl (pnlCash r), OStr '' position='', ODbl (pnlPosition r), OStr '' realized='', ODbl (pnlRealized r)]
      @ (if \<not> feq (pnlPosition r) 0 then [OStr '' unrealized='', ODbl (pnlUnrealized r)] else [])
      @ [OStr newline]]"

text \<open>
  The whole of \<^verbatim>\<open>main\<close>: the exit code and what is printed, or \<open>None\<close> if the program is terminated. The
  passes of the loop and the runtime after it has been stopped are what the threads have made of it.
\<close>

definition main_run :: "(double \<Rightarrow> u64) \<Rightarrow> (double \<Rightarrow> int) \<Rightarrow> nat \<Rightarrow> nat \<Rightarrow> 'j json_api \<Rightarrow> (string \<Rightarrow> string option) \<Rightarrow> string list \<Rightarrow>
    int \<Rightarrow> (int \<times> runtime) list \<Rightarrow> runtime \<Rightarrow> (int \<times> out list list) option" where
  "main_run oor oor' cap qcap api files argv t0 passes final =
     (case main_start cap qcap api files argv of
        Terminated \<Rightarrow> None
      | Exit code message \<Rightarrow> Some (code, [[OStr message, OStr newline]])
      | Started r \<Rightarrow> Some (0, report_loop oor oor' passes \<lparr>lastReport = t0, lastHeartbeat = t0\<rparr> @ final_report oor oor' final))"

section \<open>Printed percentiles\<close>

lemma valueAt_cell:
  assumes "n < 2 ^ 63"
  obtains k s where "32 \<le> n" "cell n = 32 * (k + 1) + s" "s < 32" "k \<le> 57" "(32 + s) * 2 ^ k \<le> n" "n < (32 + s + 1) * 2 ^ k"
      "valueAt (cell n) = int ((32 + s) * 2 ^ k + 2 ^ k div 2)"
  | "n < 32" "cell n = n" "valueAt (cell n) = int n"
proof (cases "n < 32")
  case True
  then show thesis using that(2) by (simp add: cell_def indexFor_small unat_u64_of_nat valueAt_def cell_consts)
next
  case False
  have u: "unat (of_nat n :: u64) = n" using assms by (intro unat_u64_of_nat) simp
  then have "32 \<le> unat (of_nat n :: u64)" using False by simp
  from indexFor_octave[OF this] obtain k s where k: "cell n = 32 * (k + 1) + s" "s < 32" "k \<le> 58" "(32 + s) * 2 ^ k \<le> n" "n < (32 + s + 1) * 2 ^ k"
    unfolding u cell_def .
  have "k \<noteq> 58"
  proof
    assume "k = 58"
    then have "32 * 2 ^ 58 \<le> n" using k(4) by simp
    with assms show False by simp
  qed
  then have "k \<le> 57" using k(3) by simp
  then show thesis using that(1)[of k s] k False valueAt_octave[OF k(2), of k] by simp
qed

lemma valueAt_mono:
  assumes "m \<le> n" "n < 2 ^ 63" shows "valueAt (cell m) \<le> valueAt (cell n)"
proof -
  have m: "m < 2 ^ 63" using assms by simp
  show ?thesis
  proof (rule valueAt_cell[OF assms(2)])
    fix k s assume n: "32 \<le> n" "cell n = 32 * (k + 1) + s" "s < 32" "(32 + s) * 2 ^ k \<le> n" "valueAt (cell n) = int ((32 + s) * 2 ^ k + 2 ^ k div 2)"
    have low: "32 * 2 ^ k \<le> (32 + s) * 2 ^ k" by simp
    show ?thesis
    proof (rule valueAt_cell[OF m])
      fix j t assume i: "cell m = 32 * (j + 1) + t" "t < 32" "valueAt (cell m) = int ((32 + t) * 2 ^ j + 2 ^ j div 2)"
      have c: "32 * (j + 1) + t \<le> 32 * (k + 1) + s" using cell_mono[OF assms(1)] assms(2) n(2) i(1) by simp
      have "(32 + t) * 2 ^ j + 2 ^ j div 2 \<le> (32 + s) * 2 ^ k + 2 ^ k div (2 :: nat)"
      proof (cases "j = k")
        case True
        then have "t \<le> s" using c by simp
        then show ?thesis using True by simp
      next
        case False
        then have "j < k" using c i(2) n(3) by presburger
        have "(32 + t) * 2 ^ j + 2 ^ j div 2 \<le> (32 + t + 1) * (2 :: nat) ^ j" by (simp add: add_mult_distrib)
        also have "\<dots> \<le> 64 * 2 ^ j" using i(2) by (intro mult_right_mono) simp_all
        also have "\<dots> = 32 * 2 ^ Suc j" by simp
        also have "\<dots> \<le> 32 * 2 ^ k" using \<open>j < k\<close> by (intro mult_left_mono power_increasing) simp_all
        finally show ?thesis using low by linarith
      qed
      then show ?thesis unfolding n(5) i(3) of_nat_le_iff .
    next
      assume i: "m < 32" "valueAt (cell m) = int m"
      have "32 \<le> (32 :: nat) * 2 ^ k" by simp
      then have "m \<le> (32 + s) * 2 ^ k + 2 ^ k div 2" using i(1) low by linarith
      then show ?thesis unfolding n(5) i(2) of_nat_le_iff .
    qed
  next
    assume n: "n < 32" "valueAt (cell n) = int n"
    then have "valueAt (cell m) = int m" using assms(1) by (simp add: cell_def indexFor_small unat_u64_of_nat valueAt_def cell_consts)
    then show ?thesis using n assms(1) by simp
  qed
qed

lemma rank_mono:
  assumes "is_fin p" "is_fin q" "0 \<le> dval p" "dval p \<le> dval q" "dval q \<le> 100" "n < 2 ^ 53" shows "Hdr_Histogram.rank p n \<le> Hdr_Histogram.rank q n"
proof -
  have form: "dval (a / dbl 100 * dbl (of_nat n)) = rnd (rnd (dval a / 100) * of_nat n)" if f: "is_fin a" and p: "0 \<le> dval a" "dval a \<le> 100" for a
  proof -
    have r: "rep (of_nat n)" using rep_of_int[of "int n"] assms(6) by simp
    define b where "b = a / dbl 100"
    have "\<bar>dval a / dval (dbl 100)\<bar> \<le> 1" using p by simp
    then have b: "is_fin b" "dval b = rnd (dval a / 100)" "\<bar>dval b\<bar> \<le> 1"
      using divide_bound[OF f, of "dbl 100" 1] by (simp_all add: b_def)
    have "\<bar>dval b * dval (dbl (of_nat n))\<bar> \<le> of_nat n" using b(3) r by (simp add: abs_mult mult_left_le_one_le)
    then show ?thesis using mult_bound[OF b(1) is_fin_rep[OF r] r] r b(2) by (simp add: b_def)
  qed
  have "rnd (dval p / 100) * of_nat n \<le> rnd (dval q / 100) * of_nat n" using assms(4) by (intro mult_right_mono rnd_mono divide_right_mono) simp_all
  then have "dval (p / dbl 100 * dbl (of_nat n)) \<le> dval (q / dbl 100 * dbl (of_nat n))"
    using form[of p] form[of q] assms(1-5) by (simp add: rnd_mono)
  then show ?thesis unfolding rank_def by (intro max.mono nat_mono floor_mono) simp_all
qed

lemma percentile_mono:
  assumes "hist_rep h ns" "ns \<noteq> []" "length ns < 2 ^ 53"
    and "is_fin p" "is_fin q" "0 \<le> dval p" "dval p \<le> dval q" "dval q \<le> 100"
  shows "percentileNs oor p h \<le> percentileNs oor q h" "percentileNs oor q h \<le> maxNs h"
proof -
  have n: "0 < length ns" using assms(2) by simp
  have r100: "rep 100" by simp
  have d: "0 \<le> p" "p \<le> dbl 100" "0 \<le> q" "q \<le> dbl 100" using assms(4-8) r100 by (simp_all add: less_eq_fin)
  note rp = rank_props(1,2)[OF d(1,2) n assms(3)] and rq = rank_props(1,2)[OF d(3,4) n assms(3)]
  let ?i = "Hdr_Histogram.rank p (length ns) - 1" and ?j = "Hdr_Histogram.rank q (length ns) - 1"
  have "sort ns ! ?i \<le> sort ns ! ?j"
    using rank_mono[OF assms(4-8,3)] rp rq by (intro sorted_nth_mono) simp_all
  moreover have "sort ns ! ?j < 2 ^ 63"
    using assms(1) sort_nth_mem[OF _ rq(2)] rq(1) by (simp add: hist_rep_def)
  ultimately have v: "valueAt (cell (sort ns ! ?i)) \<le> valueAt (cell (sort ns ! ?j))" by (rule valueAt_mono)
  note pp = percentileNs_rep[OF assms(1-3) d(1,2), of oor] and pq = percentileNs_rep[OF assms(1-3) d(3,4), of oor]
  show "percentileNs oor p h \<le> percentileNs oor q h" using v unfolding pp pq by (rule min.mono) simp
  have "maxNs h = int (foldr max ns 0)"
    using assms(1) foldr_max_bound[of ns "2 ^ 63"] by (simp add: hist_rep_def maxNs_def sint_u64_of_nat)
  then show "percentileNs oor q h \<le> maxNs h" unfolding pq by simp
qed

lemma pct_999: "is_fin (dbl (999 / 10))" "99 \<le> dval (dbl (999 / 10))" "dval (dbl (999 / 10)) \<le> 100"
proof -
  have "rnd 99 \<le> rnd (999 / 10)" "rnd (999 / 10) \<le> rnd 100" by (rule rnd_mono, simp)+
  moreover have r: "rep 99" "rep 100" by simp_all
  then have "rnd 99 = 99" "rnd 100 = 100" using dval_rep[of 99] dval_rep[of 100] dval_dbl[of 99] dval_dbl[of 100] is_fin_dbl[of 99] is_fin_dbl[of 100]
    by simp_all
  ultimately have b: "99 \<le> rnd (999 / 10)" "rnd (999 / 10) \<le> 100" by simp_all
  have "\<bar>rnd 100\<bar> < dbl_limit" using r is_fin_dbl[of 100] by simp
  then have l: "\<bar>rnd (999 / 10)\<bar> < dbl_limit" using b \<open>rnd 100 = 100\<close> by simp
  show "is_fin (dbl (999 / 10))" "99 \<le> dval (dbl (999 / 10))" "dval (dbl (999 / 10)) \<le> 100"
    using l b dval_dbl[OF l] by (simp_all add: is_fin_dbl)
qed

text \<open>The numbers of a line, in the order in which they are printed.\<close>

fun numbers :: "out list \<Rightarrow> int list" where
  "numbers [] = []"
| "numbers (OU64 w # os) = int (unat w) # numbers os"
| "numbers (OI64 k # os) = k # numbers os"
| "numbers (_ # os) = numbers os"

section \<open>Cadence\<close>

definition is_heartbeat :: "out list \<Rightarrow> bool" where
  "is_heartbeat l \<longleftrightarrow> l \<noteq> [] \<and> hd l = OStr ''[heartbeat] msgs=''"

definition beats :: "out list list \<Rightarrow> int" where
  "beats os = int (length (filter is_heartbeat os))"

definition dumps :: "out list list \<Rightarrow> int" where
  "dumps os = int (length (filter (\<lambda>l. \<not> is_heartbeat l) os))"

lemma report_pass_cadence:
  assumes "report_pass oor oor' now r st = (os, st')"
  shows "2 * 10 ^ 9 * beats os + lastHeartbeat st \<le> lastHeartbeat st'" "30 * 10 ^ 9 * dumps os + lastReport st \<le> lastReport st'"
    "lastHeartbeat st' = lastHeartbeat st \<or> lastHeartbeat st' = now" "lastReport st' = lastReport st \<or> lastReport st' = now"
    "now - lastHeartbeat st' < 2 * 10 ^ 9" "now - lastReport st' < 30 * 10 ^ 9"
proof -
  have h: "is_heartbeat (heartbeat_line r)" "\<not> is_heartbeat (OStr (''--- periodic metrics ---'' @ newline) # metrics_dump oor oor' (metrics r))"
    by (simp_all add: is_heartbeat_def heartbeat_line_def Let_def newline_def)
  show "2 * 10 ^ 9 * beats os + lastHeartbeat st \<le> lastHeartbeat st'" "30 * 10 ^ 9 * dumps os + lastReport st \<le> lastReport st'"
    "lastHeartbeat st' = lastHeartbeat st \<or> lastHeartbeat st' = now" "lastReport st' = lastReport st \<or> lastReport st' = now"
    "now - lastHeartbeat st' < 2 * 10 ^ 9" "now - lastReport st' < 30 * 10 ^ 9"
    using assms h by (auto simp: report_pass_def Let_def beats_def dumps_def split: if_splits)
qed

section \<open>Properties of the reports\<close>

text \<open>
  C25. The line printed for a histogram of recorded values \<open>ns\<close> shows how many there are, the mean,
  the percentiles for 50, 95, 99 and 99.9 and the exact maximum, in this order. Each percentile is
  within one part in 64 of the order statistic of \<open>ns\<close> for its percentage, and the four of them
  and the maximum are in ascending order.
\<close>

theorem dump_line_ordered:
  assumes "hist_rep h ns" "ns \<noteq> []" "length ns < 2 ^ 53"
  defines "pcts \<equiv> [dbl 50, dbl 95, dbl 99, dbl (999 / 10)]"
  shows "numbers (hist_dump oor oor' name unit h) =
      int (length ns) # i64_of_double oor' (mean h) # map (\<lambda>pct. percentileNs oor pct h) pcts @ [int (Max (set ns))] \<and>
    (\<forall>pct \<in> set pcts. 64 * \<bar>percentileNs oor pct h - int (sort ns ! (rank pct (length ns) - 1))\<bar> \<le> int (sort ns ! (rank pct (length ns) - 1))) \<and>
    sorted (map (\<lambda>pct. percentileNs oor pct h) pcts @ [int (Max (set ns))])"
proof -
  note m = percentile_mono[OF assms(1-3)]
  have mx: "maxNs h = int (Max (set ns))"
    using assms(1) foldr_max_bound[of ns "2 ^ 63"] foldr_max_Max[OF assms(2)] by (simp add: hist_rep_def maxNs_def sint_u64_of_nat)
  have c: "int (unat (h_count h)) = int (length ns)" using assms(1,3) by (simp add: hist_rep_def unat_u64_of_nat del: of_nat_unat)
  have p: "0 \<le> pct \<and> pct \<le> dbl 100" if "pct \<in> set pcts" for pct
    using that pct_999 by (auto simp: pcts_def dbl_eval less_eq_fin)
  have "percentileNs oor (dbl 50) h \<le> percentileNs oor (dbl 95) h" "percentileNs oor (dbl 95) h \<le> percentileNs oor (dbl 99) h"
    by (rule m(1); simp)+
  moreover have "percentileNs oor (dbl 99) h \<le> percentileNs oor (dbl (999 / 10)) h" "percentileNs oor (dbl (999 / 10)) h \<le> maxNs h"
    using m[of "dbl 99" "dbl (999 / 10)"] pct_999 by simp_all
  moreover have "\<forall>pct \<in> set pcts. 64 * \<bar>percentileNs oor pct h - int (sort ns ! (rank pct (length ns) - 1))\<bar> \<le> int (sort ns ! (rank pct (length ns) - 1))"
    using p percentile_near[OF assms(1-3)] by blast
  moreover have "numbers (hist_dump oor oor' name unit h) =
      int (length ns) # i64_of_double oor' (mean h) # map (\<lambda>pct. percentileNs oor pct h) pcts @ [int (Max (set ns))]"
    by (simp add: hist_dump_def c mx pcts_def del: of_nat_unat)
  ultimately show ?thesis using mx by (simp add: pcts_def)
qed

text \<open>
  Reports are not more frequent than their periods: over any run of the loop whose clock does not go
  back, there is at most one heartbeat line for two seconds and one dump for thirty.
\<close>

lemma report_cadence:
  assumes "lastHeartbeat st \<le> t" "lastReport st \<le> t" "sorted (t # map fst passes)"
  shows "2 * 10 ^ 9 * beats (report_loop oor oor' passes st) \<le> last (t # map fst passes) - lastHeartbeat st \<and>
    30 * 10 ^ 9 * dumps (report_loop oor oor' passes st) \<le> last (t # map fst passes) - lastReport st"
  using assms
proof (induction passes arbitrary: st t)
  case Nil
  then show ?case by (simp add: beats_def dumps_def)
next
  case (Cons p passes)
  obtain now r where p: "p = (now, r)" by fastforce
  obtain os st' where s: "report_pass oor oor' now r st = (os, st')" by fastforce
  note c = report_pass_cadence[OF s]
  have "lastHeartbeat st' \<le> now" "lastReport st' \<le> now" "sorted (now # map fst passes)" using c(3,4) Cons.prems p by auto
  note i = Cons.IH[OF this]
  have "beats (os @ xs) = beats os + beats xs" "dumps (os @ xs) = dumps os + dumps xs" for xs by (simp_all add: beats_def dumps_def)
  then show ?case using i c(1,2) p s by (simp add: algebra_simps)
qed

lemma main_exit_code:
  "main_run oor oor' cap qcap api files argv t0 passes final = Some (0, os) \<longleftrightarrow>
     (\<exists>c. loadConfig api files (config_path argv) = Some (Value c)) \<and>
     os = report_loop oor oor' passes \<lparr>lastReport = t0, lastHeartbeat = t0\<rparr> @ final_report oor oor' final"
  by (auto simp: main_run_def main_start_def split: option.splits Result.splits)

theorem dump_line_ordered_witness:
  "numbers (hist_dump (\<lambda>_. 0) (\<lambda>_. 0) ''x'' ''ns'' sample_hist) =
     4 # i64_of_double (\<lambda>_. 0) (mean sample_hist) # map (\<lambda>pct. percentileNs (\<lambda>_. 0) pct sample_hist) [dbl 50, dbl 95, dbl 99, dbl (999 / 10)] @ [40] \<and>
   64 * \<bar>percentileNs (\<lambda>_. 0) (dbl 50) sample_hist - 20\<bar> \<le> 20"
proof -
  have r: "hist_rep sample_hist [40, 30, 20, 10]"
    using hist_rep_fold[OF _ hist_rep_new, of "[10, 20, 30, 40]"] by (simp add: sample_hist_def in_i64_def)
  have "rank (dbl 50) 4 = 2" by code_simp
  then have k: "rank (dbl 50) (Suc (Suc (Suc (Suc 0)))) = 2" by (simp add: numeral_eq_Suc)
  from dump_line_ordered[OF r, of "\<lambda>_. 0" "\<lambda>_. 0" "''x''" "''ns''"] show ?thesis by (simp add: k)
qed

end
