(* ===== verification/Fair_Runs.thy ===== *)
theory Fair_Runs
  imports Transition_Systems
begin

text \<open>
  Infinite runs of several actors. A run is a sequence of states with the actor of each step; it is
  fair if no actor that can go on is passed over forever. The locale \<open>fair_progress\<close> is the rule by
  which the program is shown to end: in every state one actor is able to help, its step lowers a
  well-founded measure, and the others do not undo what has been reached.
\<close>

section \<open>Fair runs\<close>

definition labelled_run :: "('l \<Rightarrow> 's \<Rightarrow> 's \<Rightarrow> bool) \<Rightarrow> (nat \<Rightarrow> 'l) \<Rightarrow> (nat \<Rightarrow> 's) \<Rightarrow> bool" where
  "labelled_run lstep l f \<longleftrightarrow> (\<forall>i. lstep (l i) (f i) (f (Suc i)))"

definition able :: "('l \<Rightarrow> 's \<Rightarrow> 's \<Rightarrow> bool) \<Rightarrow> 'l \<Rightarrow> 's \<Rightarrow> bool" where
  "able lstep t s \<longleftrightarrow> (\<exists>s'. lstep t s s')"

definition fair :: "('l \<Rightarrow> 's \<Rightarrow> 's \<Rightarrow> bool) \<Rightarrow> (nat \<Rightarrow> 'l) \<Rightarrow> (nat \<Rightarrow> 's) \<Rightarrow> bool" where
  "fair lstep l f \<longleftrightarrow> (\<forall>t n. \<exists>j\<ge>n. l j = t \<or> \<not> able lstep t (f j))"

definition some_step :: "('l \<Rightarrow> 's \<Rightarrow> 's \<Rightarrow> bool) \<Rightarrow> 's \<Rightarrow> 's \<Rightarrow> bool" where
  "some_step lstep s s' \<longleftrightarrow> (\<exists>t. lstep t s s')"

lemma run_reaches:
  assumes "labelled_run lstep l f" "m \<le> n" shows "(some_step lstep)\<^sup>*\<^sup>* (f m) (f n)"
  using assms(2)
proof (induction n)
  case (Suc n)
  have "some_step lstep (f n) (f (Suc n))" using assms(1) by (auto simp: labelled_run_def some_step_def)
  then show ?case using Suc by (cases "m = Suc n") auto
qed simp

text \<open>
  A finite run to a state in which a single actor idles is the beginning of a fair run, so that the
  notion is not empty.
\<close>

lemma fair_idle:
  assumes "lstep t s s" "\<And>u. u \<noteq> t \<Longrightarrow> \<not> able lstep u s"
  shows "labelled_run lstep (\<lambda>_. t) (\<lambda>_. s)" "fair lstep (\<lambda>_. t) (\<lambda>_. s)"
proof -
  show "labelled_run lstep (\<lambda>_. t) (\<lambda>_. s)" using assms(1) by (simp add: labelled_run_def)
  show "fair lstep (\<lambda>_. t) (\<lambda>_. s)" using assms(2) unfolding fair_def by (metis order_refl)
qed

lemma fair_prepend:
  assumes "labelled_run lstep l f" "fair lstep l f" "lstep t s (f 0)"
  shows "labelled_run lstep (case_nat t l) (case_nat s f)" "fair lstep (case_nat t l) (case_nat s f)"
proof -
  show "labelled_run lstep (case_nat t l) (case_nat s f)" using assms(1,3) by (auto simp: labelled_run_def split: nat.split)
  have "\<exists>j\<ge>n. case_nat t l j = u \<or> \<not> able lstep u (case_nat s f j)" for u n
  proof -
    obtain j where "n \<le> j" "l j = u \<or> \<not> able lstep u (f j)" using assms(2) unfolding fair_def by blast
    then show ?thesis by (intro exI[of _ "Suc j"]) simp
  qed
  then show "fair lstep (case_nat t l) (case_nat s f)" unfolding fair_def by blast
qed

lemma fair_extension:
  assumes "(some_step lstep)\<^sup>*\<^sup>* s0 s" "lstep t s s" "\<And>u. u \<noteq> t \<Longrightarrow> \<not> able lstep u s"
  shows "\<exists>l f. labelled_run lstep l f \<and> fair lstep l f \<and> f 0 = s0 \<and> (\<exists>n. f n = s)"
  using assms(1)
proof (induction rule: converse_rtranclp_induct)
  case base
  then show ?case using fair_idle[of lstep t s] assms(2,3) by blast
next
  case (step y z)
  then obtain l f n u where f: "labelled_run lstep l f" "fair lstep l f" "f 0 = z" "f n = s" "lstep u y z"
    by (auto simp: some_step_def)
  have "case_nat y f (Suc n) = s" "case_nat y f 0 = y" using f(4) by simp_all
  then show ?case using fair_prepend[OF f(1,2), of u y] f(3,5) by blast
qed

section \<open>Progress under fairness\<close>

locale fair_progress =
  fixes lstep :: "'l \<Rightarrow> 's \<Rightarrow> 's \<Rightarrow> bool" and inv goal :: "'s \<Rightarrow> bool" and helpful :: "'s \<Rightarrow> 'l" and left :: "'s \<Rightarrow> 'm" and order :: "('m \<times> 'm) set"
  assumes order_wf: "wf order"
    and inv_step: "lstep t s s' \<Longrightarrow> inv s \<Longrightarrow> inv s'"
    and helpful_able: "inv s \<Longrightarrow> \<not> goal s \<Longrightarrow> able lstep (helpful s) s"
    and helpful_step: "inv s \<Longrightarrow> \<not> goal s \<Longrightarrow> lstep (helpful s) s s' \<Longrightarrow> goal s' \<or> (left s', left s) \<in> order"
    and other_step: "inv s \<Longrightarrow> \<not> goal s \<Longrightarrow> lstep t s s' \<Longrightarrow>
      goal s' \<or> (left s', left s) \<in> order \<or> left s' = left s \<and> helpful s' = helpful s"

sublocale fair_progress \<subseteq> any: step_invariant "some_step lstep" inv
  by unfold_locales (auto simp: some_step_def intro: inv_step)

context fair_progress
begin

lemma run_inv_at: "labelled_run lstep l f \<Longrightarrow> inv (f n) \<Longrightarrow> n \<le> k \<Longrightarrow> inv (f k)"
  using any.run_inv run_reaches by metis

text \<open>Until the goal is reached or the measure has dropped, nothing changes and the same actor can help.\<close>

lemma waits:
  assumes "labelled_run lstep l f" "inv (f n)" "n \<le> k"
  shows "(\<exists>m\<ge>n. goal (f m) \<or> (left (f m), left (f n)) \<in> order) \<or> left (f k) = left (f n) \<and> helpful (f k) = helpful (f n)"
  using assms(3)
proof (induction k)
  case (Suc k)
  show ?case
  proof (cases "n = Suc k")
    case False
    then have k: "n \<le> k" using Suc.prems by simp
    have step: "lstep (l k) (f k) (f (Suc k))" using assms(1) by (simp add: labelled_run_def)
    show ?thesis
    proof (cases "\<exists>m\<ge>n. goal (f m) \<or> (left (f m), left (f n)) \<in> order")
      case False
      then have same: "left (f k) = left (f n)" "helpful (f k) = helpful (f n)" "\<not> goal (f k)" using Suc.IH[OF k] k by auto
      show ?thesis using other_step[OF run_inv_at[OF assms(1,2) k] same(3) step] same Suc.prems by metis
    qed simp
  qed simp
qed simp

lemma drops:
  assumes "labelled_run lstep l f" "fair lstep l f" "inv (f n)"
  shows "\<exists>m\<ge>n. goal (f m) \<or> (left (f m), left (f n)) \<in> order"
proof (rule ccontr)
  assume none: "\<not> ?thesis"
  obtain j where j: "n \<le> j" "l j = helpful (f n) \<or> \<not> able lstep (helpful (f n)) (f j)" using assms(2) unfolding fair_def by blast
  have same: "left (f j) = left (f n)" "helpful (f j) = helpful (f n)" using waits[OF assms(1,3) j(1)] none by auto
  have g: "inv (f j)" "\<not> goal (f j)" using run_inv_at[OF assms(1,3) j(1)] none j(1) by auto
  then have "l j = helpful (f j)" using j(2) helpful_able[OF g] same(2) by simp
  then have "lstep (helpful (f j)) (f j) (f (Suc j))" using assms(1) by (metis labelled_run_def)
  from helpful_step[OF g this] show False using none j(1) same(1) by (metis le_SucI)
qed

lemma reaches_goal:
  assumes "labelled_run lstep l f" "fair lstep l f" "inv (f n)"
  shows "\<exists>m\<ge>n. goal (f m)"
  using assms(3)
proof (induction "left (f n)" arbitrary: n rule: wf_induct_rule[OF order_wf])
  case (1 n)
  from drops[OF assms(1,2) 1(2)] obtain m where m: "n \<le> m" "goal (f m) \<or> (left (f m), left (f n)) \<in> order" by blast
  then show ?case using 1(1)[OF _ run_inv_at[OF assms(1) 1(2) m(1)]] by (meson order_trans)
qed

text \<open>The goal also can be reached from every state: the actors that help lead to it.\<close>

lemma goal_reachable:
  assumes "inv s" shows "\<exists>s'. (some_step lstep)\<^sup>*\<^sup>* s s' \<and> inv s' \<and> goal s'"
  using assms
proof (induction "left s" arbitrary: s rule: wf_induct_rule[OF order_wf])
  case (1 s)
  show ?case
  proof (cases "goal s")
    case False
    then obtain s' where s: "lstep (helpful s) s s'" using helpful_able[OF 1(2)] by (auto simp: able_def)
    then have i: "inv s'" "some_step lstep s s'" using inv_step[OF s 1(2)] by (auto simp: some_step_def)
    then have "\<exists>s''. (some_step lstep)\<^sup>*\<^sup>* s' s'' \<and> inv s'' \<and> goal s''" using helpful_step[OF 1(2) False s] 1(1)[OF _ i(1)] by blast
    then show ?thesis using i(2) by (meson converse_rtranclp_into_rtranclp)
  qed (use 1(2) in blast)
qed

end

end
