(* ===== verification/Program.thy ===== *)
theory Program
  imports Engine Reports Fair_Runs
begin

text \<open>
  The program from the loaded configuration to its exit (\<^verbatim>\<open>main\<close> of \<^verbatim>\<open>src/main.cpp\<close>): the main thread, which
  starts the runtime, reports, and stops it after a signal, beside the threads of \<open>Engine\<close> and the
  handler of signals. Each access of the main thread to shared state is a step, and the steps
  carry the actor that makes them.
\<close>

section \<open>The main thread\<close>

text \<open>
  The points of \<^verbatim>\<open>main\<close> after the configuration is loaded: before the start; at the test of the loop; in
  the loop, asleep; before \<^verbatim>\<open>Runtime::stop\<close>; in it, waiting for the network thread, before clearing the
  flag of the loop, and waiting for the strategy thread; before the final report; before the stop
  of the logger; at the end.
\<close>

datatype main_pc = MStart | MTest | MPass | MStop | MJoinNet | MStopLoop | MJoinLoop | MFinal | MLogger | MExit int

datatype main_act = MPrint "out list" | MLog LogLevel string | LoggerStop

record prog =
  g_running :: bool
  p_engine :: engine
  p_main :: main_pc
  p_rep :: reporter
  p_clock :: int
  p_acts :: "main_act list"

definition prog_start :: "nat \<Rightarrow> nat \<Rightarrow> RuntimeConfig \<Rightarrow> prog" where
  "prog_start cap qcap c = \<lparr>g_running = True, p_engine = engine_start cap qcap c, p_main = MStart,
     p_rep = \<lparr>lastReport = 0, lastHeartbeat = 0\<rparr>, p_clock = 0, p_acts = []\<rparr>"

definition handleSignal :: "prog \<Rightarrow> prog" where
  "handleSignal p = p\<lparr>g_running := False\<rparr>"

text \<open>The two halves of \<^verbatim>\<open>Runtime::start\<close>, and those of \<^verbatim>\<open>Runtime::stop\<close>, as they act on the engine.\<close>

definition runtime_start :: "engine \<Rightarrow> engine" where
  "runtime_start e = e\<lparr>e_sys := (e_sys e)\<lparr>rt := start_flags (rt (e_sys e)), pc := Checking, ws_on := True\<rparr>, e_ws := client_start (e_ws e)\<rparr>"

definition runtime_stop_network :: "engine \<Rightarrow> engine" where
  "runtime_stop_network e = (set_rt stop_started e)\<lparr>e_ws := client_stop (e_ws e)\<rparr>"

definition net_joined :: "engine \<Rightarrow> engine" where
  "net_joined e = e\<lparr>e_sys := (e_sys e)\<lparr>ws_on := False\<rparr>\<rparr>"

inductive main_step :: "(double \<Rightarrow> u64) \<Rightarrow> (double \<Rightarrow> int) \<Rightarrow> prog \<Rightarrow> prog \<Rightarrow> bool" for oor :: "double \<Rightarrow> u64" and oor' :: "double \<Rightarrow> int" where
  begin_run: "p_main p = MStart \<Longrightarrow> p_clock p \<le> t0 \<Longrightarrow>
    main_step oor oor' p (p\<lparr>p_engine := runtime_start (p_engine p), p_main := MTest, p_rep := \<lparr>lastReport = t0, lastHeartbeat = t0\<rparr>,
      p_clock := t0, p_acts := p_acts p @ [MLog LInfo ''trading-engine starting'']\<rparr>)"
| loop_on: "p_main p = MTest \<Longrightarrow> g_running p \<Longrightarrow> main_step oor oor' p (p\<lparr>p_main := MPass\<rparr>)"
| loop_pass: "p_main p = MPass \<Longrightarrow> p_clock p \<le> now \<Longrightarrow> report_pass oor oor' now (rt (e_sys (p_engine p))) (p_rep p) = (os, st) \<Longrightarrow>
    main_step oor oor' p (p\<lparr>p_main := MTest, p_rep := st, p_clock := now, p_acts := p_acts p @ map MPrint os\<rparr>)"
| loop_off: "p_main p = MTest \<Longrightarrow> \<not> g_running p \<Longrightarrow>
    main_step oor oor' p (p\<lparr>p_main := MStop, p_acts := p_acts p @ [MLog LInfo ''shutdown requested; stopping runtime'']\<rparr>)"
| stop_network: "p_main p = MStop \<Longrightarrow> started (rt (e_sys (p_engine p))) \<Longrightarrow>
    main_step oor oor' p (p\<lparr>p_engine := runtime_stop_network (p_engine p), p_main := MJoinNet\<rparr>)"
| stop_stopped: "p_main p = MStop \<Longrightarrow> \<not> started (rt (e_sys (p_engine p))) \<Longrightarrow> main_step oor oor' p (p\<lparr>p_main := MFinal\<rparr>)"
| join_network: "p_main p = MJoinNet \<Longrightarrow> e_net (p_engine p) = InClient \<Longrightarrow> w_pc (e_ws (p_engine p)) = WsDone \<Longrightarrow>
    main_step oor oor' p (p\<lparr>p_engine := net_joined (p_engine p), p_main := MStopLoop\<rparr>)"
| stop_loop: "p_main p = MStopLoop \<Longrightarrow> main_step oor oor' p (p\<lparr>p_engine := set_rt stop_running (p_engine p), p_main := MJoinLoop\<rparr>)"
| join_loop: "p_main p = MJoinLoop \<Longrightarrow> pc (e_sys (p_engine p)) = Finished \<Longrightarrow> main_step oor oor' p (p\<lparr>p_main := MFinal\<rparr>)"
| report_final: "p_main p = MFinal \<Longrightarrow>
    main_step oor oor' p (p\<lparr>p_main := MLogger, p_acts := p_acts p @ map MPrint (final_report oor oor' (rt (e_sys (p_engine p))))\<rparr>)"
| exit_program: "p_main p = MLogger \<Longrightarrow> main_step oor oor' p (p\<lparr>p_main := MExit 0, p_acts := p_acts p @ [LoggerStop]\<rparr>)"

text \<open>All actors. A signal may arrive at any time; the process ends with the engine when that aborts.\<close>

datatype actor = Main | Net | Strategy | Signal

record 'v outside =
  o_world :: "'v world"
  o_u64 :: "double \<Rightarrow> u64"
  o_i64 :: "double \<Rightarrow> int"

fun prog_step :: "'v outside \<Rightarrow> nat \<Rightarrow> nat \<Rightarrow> actor \<Rightarrow> prog \<Rightarrow> prog \<Rightarrow> bool" where
  "prog_step x cap qcap Main p p' \<longleftrightarrow> alive (p_engine p) \<and> main_step (o_u64 x) (o_i64 x) p p'"
| "prog_step x cap qcap Net p p' \<longleftrightarrow> alive (p_engine p) \<and> (\<exists>e. net_step (o_world x) qcap (p_engine p) e \<and> p' = p\<lparr>p_engine := e\<rparr>)"
| "prog_step x cap qcap Strategy p p' \<longleftrightarrow> alive (p_engine p) \<and>
     (\<exists>s. loop_step (x_oor (o_world x)) cap qcap (e_sys (p_engine p)) s \<and> p' = p\<lparr>p_engine := (p_engine p)\<lparr>e_sys := s\<rparr>\<rparr>)"
| "prog_step x cap qcap Signal p p' \<longleftrightarrow> p' = handleSignal p"

section \<open>The program runs the engine\<close>

text \<open>What the points of the main thread say about the engine.\<close>

definition idle_engine :: "engine \<Rightarrow> bool" where
  "idle_engine e \<longleftrightarrow> e_net e = InClient \<and> w_pc (e_ws e) = WsDone \<and> \<not> w_running (e_ws e) \<and> \<not> ws_on (e_sys e) \<and> \<not> started (rt (e_sys e))"

fun main_flags :: "main_pc \<Rightarrow> engine \<Rightarrow> bool" where
  "main_flags MStart e \<longleftrightarrow> idle_engine e \<and> \<not> running (rt (e_sys e)) \<and> pc (e_sys e) = NotStarted"
| "main_flags MJoinNet e \<longleftrightarrow> \<not> started (rt (e_sys e)) \<and> running (rt (e_sys e)) \<and> \<not> w_running (e_ws e) \<and> pc (e_sys e) \<noteq> NotStarted"
| "main_flags MStopLoop e \<longleftrightarrow> idle_engine e \<and> running (rt (e_sys e)) \<and> pc (e_sys e) \<noteq> NotStarted"
| "main_flags MJoinLoop e \<longleftrightarrow> idle_engine e \<and> \<not> running (rt (e_sys e)) \<and> pc (e_sys e) \<noteq> NotStarted"
| "main_flags MFinal e \<longleftrightarrow> idle_engine e \<and> pc (e_sys e) = Finished"
| "main_flags MLogger e \<longleftrightarrow> idle_engine e \<and> pc (e_sys e) = Finished"
| "main_flags (MExit n) e \<longleftrightarrow> n = 0 \<and> idle_engine e \<and> pc (e_sys e) = Finished"
| "main_flags _ e \<longleftrightarrow> started (rt (e_sys e)) \<and> running (rt (e_sys e)) \<and> pc (e_sys e) \<noteq> NotStarted"

fun shutting :: "main_pc \<Rightarrow> bool" where
  "shutting MStart \<longleftrightarrow> False"
| "shutting MTest \<longleftrightarrow> False"
| "shutting MPass \<longleftrightarrow> False"
| "shutting _ \<longleftrightarrow> True"

lemma started_process [simp]: "started (processEvent oor cap clk ev r) = started r"
proof -
  have "started (snd (signalled oor cap clk ts r)) = started r" for ts r by (simp add: signalled_def Let_def split: prod.split)
  then show ?thesis by (simp add: processEvent_def Let_def after_book_eq dispatch_fields split: EventBody.split)
qed

lemma loop_step_flags:
  assumes "loop_step oor cap qcap s s'"
  shows "started (rt s') = started (rt s)" "running (rt s') = running (rt s)" "ws_on s' = ws_on s" "pc s \<noteq> NotStarted" "pc s' \<noteq> NotStarted" "pc s \<noteq> Finished"
  using assms by (cases rule: loop_step.cases; auto simp: reset_on_reconnect_def)+

lemma call_effect_flags:
  "started (rt (e_sys (call_effect x pd c e))) = started (rt (e_sys e))" "running (rt (e_sys (call_effect x pd c e))) = running (rt (e_sys e))"
  "ws_on (e_sys (call_effect x pd c e)) = ws_on (e_sys e)" "pc (e_sys (call_effect x pd c e)) = pc (e_sys e)"
  by (cases c; simp add: set_rt_def reconnectCallback_def parseErrorCallback_def split: prod.split)+

lemma calls_flags:
  "started (rt (e_sys (fold (call_effect x pd) cs e))) = started (rt (e_sys e))"
  "running (rt (e_sys (fold (call_effect x pd) cs e))) = running (rt (e_sys e))"
  "ws_on (e_sys (fold (call_effect x pd) cs e)) = ws_on (e_sys e)" "pc (e_sys (fold (call_effect x pd) cs e)) = pc (e_sys e)"
  by (induction cs arbitrary: e) (simp_all add: call_effect_flags)

lemma ws_step_running: "ws_step api uninit sub w w' \<Longrightarrow> w_running w' = w_running w"
  by (elim ws_step.cases) (simp_all add: connected_def received_def sleep_slice_def split: prod.split)

lemma net_step_flags:
  assumes "net_step x qcap e e'"
  shows "started (rt (e_sys e')) = started (rt (e_sys e))" "running (rt (e_sys e')) = running (rt (e_sys e))" "ws_on (e_sys e') = ws_on (e_sys e)"
    "pc (e_sys e') = pc (e_sys e)" "w_running (e_ws e') = w_running (e_ws e)" "\<not> (e_net e = InClient \<and> w_pc (e_ws e) = WsDone)"
proof -
  have c: "started (rt (e_sys (callback_access qcap e))) = started (rt (e_sys e)) \<and> running (rt (e_sys (callback_access qcap e))) = running (rt (e_sys e)) \<and>
      ws_on (e_sys (callback_access qcap e)) = ws_on (e_sys e) \<and> pc (e_sys (callback_access qcap e)) = pc (e_sys e) \<and> e_ws (callback_access qcap e) = e_ws e"
    by (simp add: callback_access_def split: prod.split)
  show "started (rt (e_sys e')) = started (rt (e_sys e))" "running (rt (e_sys e')) = running (rt (e_sys e))" "ws_on (e_sys e') = ws_on (e_sys e)"
    "pc (e_sys e') = pc (e_sys e)" "w_running (e_ws e') = w_running (e_ws e)" "\<not> (e_net e = InClient \<and> w_pc (e_ws e) = WsDone)"
    using assms c by (auto simp: net_step_def calls_flags ws_step_running dest: active_step split: if_splits)
qed

lemma net_step_engine: "alive e \<Longrightarrow> net_step x qcap e e' \<Longrightarrow> engine_step x cap qcap e e'"
  by (auto simp: net_step_def intro: engine_step.client engine_step.callback split: if_splits)

text \<open>
  The invariant of the program: the engine is in a state that it reaches, as the main thread has left
  it, and the main thread only stops after a signal.
\<close>

definition prog_inv :: "'v outside \<Rightarrow> nat \<Rightarrow> nat \<Rightarrow> RuntimeConfig \<Rightarrow> prog \<Rightarrow> bool" where
  "prog_inv x cap qcap c p \<longleftrightarrow> (engine_step (o_world x) cap qcap)\<^sup>*\<^sup>* (engine_start cap qcap c) (p_engine p) \<and>
     main_flags (p_main p) (p_engine p) \<and> (shutting (p_main p) \<longrightarrow> \<not> g_running p)"

lemma prog_inv_start: "prog_inv x cap qcap c (prog_start cap qcap c)"
  by (simp add: prog_inv_def prog_start_def idle_engine_def engine_start_def sys_start_def new_runtime_def publishPnl_def Let_def)

lemma flags_net:
  assumes "net_step x qcap e e'" "main_flags m e" shows "main_flags m e'"
  using assms(2) net_step_flags[OF assms(1)] by (cases m) (auto simp: idle_engine_def)

lemma flags_loop:
  assumes "loop_step oor cap qcap (e_sys e) s" "main_flags m e" shows "main_flags m (e\<lparr>e_sys := s\<rparr>)"
  using assms(2) loop_step_flags[OF assms(1)] by (cases m) (auto simp: idle_engine_def)

text \<open>A step of the main thread is a step of the engine or does not touch it.\<close>

lemma main_step_engine:
  assumes "main_step oor oor' p p'" "alive (p_engine p)" "main_flags (p_main p) (p_engine p)"
  shows "(engine_step x cap qcap)\<^sup>=\<^sup>= (p_engine p) (p_engine p')"
  using assms(1)
proof (cases rule: main_step.cases)
  case (begin_run t0)
  then have "engine_step x cap qcap (p_engine p) (runtime_start (p_engine p))"
    unfolding runtime_start_def using assms(2,3) by (intro engine_step.start) (simp_all add: idle_engine_def)
  then show ?thesis using begin_run by simp
next
  case stop_network
  then show ?thesis using engine_step.stop_network[OF assms(2), where x = x and cap = cap and qcap = qcap] by (simp add: runtime_stop_network_def)
next
  case join_network
  then show ?thesis using engine_step.joined[OF assms(2), where x = x and cap = cap and qcap = qcap] assms(3) by (simp add: net_joined_def)
next
  case stop_loop
  then show ?thesis using engine_step.stop_loop[OF assms(2), where x = x and cap = cap and qcap = qcap] assms(3) by (simp add: idle_engine_def)
qed simp_all

lemma main_step_flags:
  assumes "main_step oor oor' p p'" "main_flags (p_main p) (p_engine p)" "shutting (p_main p) \<longrightarrow> \<not> g_running p"
  shows "main_flags (p_main p') (p_engine p') \<and> (shutting (p_main p') \<longrightarrow> \<not> g_running p')"
  using assms
  by (cases rule: main_step.cases)
    (auto simp: idle_engine_def runtime_start_def runtime_stop_network_def net_joined_def set_rt_def start_flags_def stop_started_def stop_running_def)

lemma prog_inv_step:
  assumes "prog_step x cap qcap t p p'" "prog_inv x cap qcap c p" shows "prog_inv x cap qcap c p'"
proof (cases t)
  case Main
  then have m: "main_step (o_u64 x) (o_i64 x) p p'" "alive (p_engine p)" using assms(1) by simp_all
  then show ?thesis using assms(2) main_step_engine[OF m, of "o_world x" cap qcap] main_step_flags[OF m(1)]
    by (auto simp: prog_inv_def intro: rtranclp.rtrancl_into_rtrancl)
next
  case Net
  then obtain e where e: "alive (p_engine p)" "net_step (o_world x) qcap (p_engine p) e" "p' = p\<lparr>p_engine := e\<rparr>" using assms(1) by auto
  then show ?thesis using assms(2) net_step_engine[OF e(1,2), of cap] flags_net[OF e(2)]
    by (auto simp: prog_inv_def intro: rtranclp.rtrancl_into_rtrancl)
next
  case Strategy
  then obtain s where s: "alive (p_engine p)" "loop_step (x_oor (o_world x)) cap qcap (e_sys (p_engine p)) s" "p' = p\<lparr>p_engine := (p_engine p)\<lparr>e_sys := s\<rparr>\<rparr>"
    using assms(1) by auto
  then show ?thesis using assms(2) engine_step.strategy[OF s(1,2)] flags_loop[OF s(2)]
    by (auto simp: prog_inv_def intro: rtranclp.rtrancl_into_rtrancl)
next
  case Signal
  then show ?thesis using assms by (simp add: prog_inv_def handleSignal_def)
qed

interpretation pg: step_invariant "some_step (prog_step x cap qcap)" "prog_inv x cap qcap c" for x cap qcap c
  by unfold_locales (auto simp: some_step_def intro: prog_inv_step)

lemma prog_reachable:
  "(some_step (prog_step x cap qcap))\<^sup>*\<^sup>* (prog_start cap qcap c) p \<Longrightarrow> prog_inv x cap qcap c p"
  using pg.run_inv[of x cap qcap _ p c] prog_inv_start by blast

section \<open>The program ends\<close>

text \<open>
  After a signal every step of the main thread leads on, and where it waits, the thread that it waits
  for comes closer to its end. The measure is the point of the main thread, and then what is left of
  the thread that is waited for.
\<close>

fun main_rank :: "main_pc \<Rightarrow> nat" where
  "main_rank MStart = 9"
| "main_rank MPass = 9"
| "main_rank MTest = 8"
| "main_rank MStop = 7"
| "main_rank MJoinNet = 6"
| "main_rank MStopLoop = 5"
| "main_rank MJoinLoop = 4"
| "main_rank MFinal = 3"
| "main_rank MLogger = 2"
| "main_rank (MExit n) = 0"

fun waited_for :: "nat \<Rightarrow> main_pc \<Rightarrow> engine \<Rightarrow> nat \<times> nat" where
  "waited_for qcap MJoinNet e = (Ws_Client.rank (w_pc (e_ws e)), cb_steps (e_net e))"
| "waited_for qcap MJoinLoop e = (length (spsc_contents qcap (queue (rt (e_sys e)))) + loop_rank (pc (e_sys e)), 0)"
| "waited_for qcap _ e = (0, 0)"

definition prog_left :: "nat \<Rightarrow> prog \<Rightarrow> nat \<times> nat \<times> nat" where
  "prog_left qcap p = (main_rank (p_main p), waited_for qcap (p_main p) (p_engine p))"

definition prog_order :: "((nat \<times> nat \<times> nat) \<times> (nat \<times> nat \<times> nat)) set" where
  "prog_order = less_than <*lex*> less_than <*lex*> less_than"

fun helper :: "main_pc \<Rightarrow> engine \<Rightarrow> actor" where
  "helper MJoinNet e = (if e_net e = InClient \<and> w_pc (e_ws e) = WsDone then Main else Net)"
| "helper MJoinLoop e = (if pc (e_sys e) = Finished then Main else Strategy)"
| "helper _ e = Main"

definition prog_over :: "prog \<Rightarrow> bool" where
  "prog_over p \<longleftrightarrow> p_main p = MExit 0 \<or> \<not> alive (p_engine p)"

definition signalled_inv :: "'v outside \<Rightarrow> nat \<Rightarrow> nat \<Rightarrow> RuntimeConfig \<Rightarrow> prog \<Rightarrow> bool" where
  "signalled_inv x cap qcap c p \<longleftrightarrow> book_cap cap \<and> queue_cap qcap \<and> prog_inv x cap qcap c p \<and> \<not> g_running p"

lemma main_step_down:
  assumes "main_step oor oor' p p'" "\<not> g_running p" shows "main_rank (p_main p') < main_rank (p_main p) \<and> \<not> g_running p'"
  using assms by (cases rule: main_step.cases) auto

lemma net_able:
  assumes "alive e" "\<not> (e_net e = InClient \<and> w_pc (e_ws e) = WsDone)" shows "\<exists>e'. net_step x qcap e e'"
proof (cases "e_net e = InClient")
  case True
  then obtain w where w: "ws_step (x_api x) (x_uninit x) (subscription x (w_cfg (e_ws e))) (e_ws e) w"
    using step_exists[of "e_ws e" "x_api x" "x_uninit x" "subscription x (w_cfg (e_ws e))"] assms by (auto simp: alive_def)
  then show ?thesis using ws_step_calls[OF w] True unfolding net_step_def by auto
qed (simp add: net_step_def)

lemma main_able:
  assumes "\<not> g_running p" "main_flags (p_main p) (p_engine p)" "p_main p \<noteq> MExit 0" "helper (p_main p) (p_engine p) = Main"
  shows "\<exists>p'. main_step oor oor' p p'"
proof (cases "p_main p")
  case MPass
  obtain os st where "report_pass oor oor' (p_clock p) (rt (e_sys (p_engine p))) (p_rep p) = (os, st)" by fastforce
  from main_step.loop_pass[OF MPass order_refl this] show ?thesis by blast
qed (use assms in \<open>auto intro: main_step.intros split: if_splits\<close>)

lemma prog_able:
  assumes "signalled_inv x cap qcap c p" "\<not> prog_over p" shows "able (prog_step x cap qcap) (helper (p_main p) (p_engine p)) p"
proof -
  have a: "alive (p_engine p)" "p_main p \<noteq> MExit 0" "\<not> g_running p" "main_flags (p_main p) (p_engine p)"
    using assms by (simp_all add: prog_over_def signalled_inv_def prog_inv_def)
  show ?thesis
  proof (cases "helper (p_main p) (p_engine p)")
    case Main
    then show ?thesis using main_able[OF a(3,4,2)] a(1) by (auto simp: able_def)
  next
    case Net
    then have "\<not> (e_net (p_engine p) = InClient \<and> w_pc (e_ws (p_engine p)) = WsDone)" by (cases "p_main p") (auto split: if_splits)
    from net_able[OF a(1) this] show ?thesis using a(1) Net by (auto simp: able_def)
  next
    case Strategy
    then have "p_main p = MJoinLoop" "pc (e_sys (p_engine p)) \<noteq> Finished" by (cases "p_main p"; auto split: if_splits)+
    then have "\<exists>s. loop_step (x_oor (o_world x)) cap qcap (e_sys (p_engine p)) s" using a(4) by (simp add: loop_enabled)
    then show ?thesis using a(1) Strategy by (auto simp: able_def)
  next
    case Signal
    then show ?thesis by (auto simp: able_def)
  qed
qed

lemma net_down:
  assumes "net_step x qcap e e'" "main_flags m e"
  shows "(waited_for qcap m e', waited_for qcap m e) \<in> less_than <*lex*> less_than \<or> waited_for qcap m e' = waited_for qcap m e \<and> helper m e' = helper m e"
    "m = MJoinNet \<Longrightarrow> (waited_for qcap m e', waited_for qcap m e) \<in> less_than <*lex*> less_than"
proof -
  show d: "m = MJoinNet \<Longrightarrow> (waited_for qcap m e', waited_for qcap m e) \<in> less_than <*lex*> less_than"
    using net_step_decreases[OF assms(1)] assms(2) by simp
  show "(waited_for qcap m e', waited_for qcap m e) \<in> less_than <*lex*> less_than \<or> waited_for qcap m e' = waited_for qcap m e \<and> helper m e' = helper m e"
    using d assms(2) net_step_flags(6)[OF assms(1)] by (cases m) (simp_all add: idle_engine_def)
qed

lemma loop_down:
  assumes "loop_step oor cap qcap (e_sys e) s" "main_flags m e" "spsc_inv qcap (queue (rt (e_sys e)))"
  defines "e' \<equiv> e\<lparr>e_sys := s\<rparr>"
  shows "(waited_for qcap m e', waited_for qcap m e) \<in> less_than <*lex*> less_than \<or> waited_for qcap m e' = waited_for qcap m e \<and> helper m e' = helper m e"
    "m = MJoinLoop \<Longrightarrow> (waited_for qcap m e', waited_for qcap m e) \<in> less_than <*lex*> less_than"
proof -
  show d: "m = MJoinLoop \<Longrightarrow> (waited_for qcap m e', waited_for qcap m e) \<in> less_than <*lex*> less_than"
    using loop_decreases[OF assms(1) _ assms(3)] assms(2) by (simp add: e'_def)
  show "(waited_for qcap m e', waited_for qcap m e) \<in> less_than <*lex*> less_than \<or> waited_for qcap m e' = waited_for qcap m e \<and> helper m e' = helper m e"
    using d by (cases m) (simp_all add: e'_def)
qed

lemma prog_step_down:
  assumes "signalled_inv x cap qcap c p" "\<not> prog_over p" "prog_step x cap qcap t p p'"
  shows "(prog_left qcap p', prog_left qcap p) \<in> prog_order \<or>
      prog_left qcap p' = prog_left qcap p \<and> helper (p_main p') (p_engine p') = helper (p_main p) (p_engine p)"
    "t = helper (p_main p) (p_engine p) \<Longrightarrow> (prog_left qcap p', prog_left qcap p) \<in> prog_order"
proof -
  let ?less = "(prog_left qcap p', prog_left qcap p) \<in> prog_order"
  have i: "prog_inv x cap qcap c p" "\<not> g_running p" "book_cap cap" "queue_cap qcap" "main_flags (p_main p) (p_engine p)" "p_main p \<noteq> MExit 0"
    using assms(1,2) by (simp_all add: signalled_inv_def prog_inv_def prog_over_def)
  have "(?less \<or> prog_left qcap p' = prog_left qcap p \<and> helper (p_main p') (p_engine p') = helper (p_main p) (p_engine p)) \<and>
    (t = helper (p_main p) (p_engine p) \<longrightarrow> ?less)"
  proof (cases t)
    case Main
    then show ?thesis using main_step_down[of _ _ p p'] i(2) assms(3) by (auto simp: prog_left_def prog_order_def)
  next
    case Net
    then obtain e where e: "net_step (o_world x) qcap (p_engine p) e" "p' = p\<lparr>p_engine := e\<rparr>" using assms(3) by auto
    then show ?thesis using net_down[OF e(1) i(5)] Net by (cases "p_main p") (auto simp: prog_left_def prog_order_def split: if_splits)
  next
    case Strategy
    then obtain s where s: "loop_step (x_oor (o_world x)) cap qcap (e_sys (p_engine p)) s" "p' = p\<lparr>p_engine := (p_engine p)\<lparr>e_sys := s\<rparr>\<rparr>"
      using assms(3) by auto
    have "sys_inv cap qcap (e_sys (p_engine p))" using i(1) sys_inv_reachable[OF i(3,4)] engine_sim by (metis prog_inv_def)
    then have "spsc_inv qcap (queue (rt (e_sys (p_engine p))))" by (simp add: sys_inv_def)
    then show ?thesis using loop_down[OF s(1) i(5)] s(2) Strategy by (cases "p_main p") (auto simp: prog_left_def prog_order_def split: if_splits)
  next
    case Signal
    then have "p' = p" using assms(3) i(2) by (simp add: handleSignal_def)
    moreover have "helper (p_main p) (p_engine p) \<noteq> Signal" by (cases "p_main p") simp_all
    ultimately show ?thesis using Signal by simp
  qed
  then show "?less \<or> prog_left qcap p' = prog_left qcap p \<and> helper (p_main p') (p_engine p') = helper (p_main p) (p_engine p)"
    "t = helper (p_main p) (p_engine p) \<Longrightarrow> ?less" by blast+
qed

lemma signalled_step: "prog_step x cap qcap t p p' \<Longrightarrow> signalled_inv x cap qcap c p \<Longrightarrow> signalled_inv x cap qcap c p'"
  using prog_inv_step[of x cap qcap t p p' c] main_step_down[of "o_u64 x" "o_i64 x" p p']
  by (cases t) (auto simp: signalled_inv_def handleSignal_def)

interpretation shut: fair_progress "prog_step x cap qcap" "signalled_inv x cap qcap c" prog_over "\<lambda>p. helper (p_main p) (p_engine p)" "prog_left qcap" prog_order
  for x cap qcap c
proof (unfold_locales, goal_cases)
  case 1
  show ?case by (simp add: prog_order_def wf_lex_prod)
next
  case (2 t p p')
  then show ?case by (rule signalled_step)
next
  case (3 p)
  then show ?case by (rule prog_able)
next
  case (4 p p')
  then show ?case using prog_step_down(2)[OF 4 refl] by simp
next
  case (5 p t p')
  then show ?case using prog_step_down(1)[OF 5] by simp
qed

section \<open>What is printed\<close>

fun prints :: "main_act list \<Rightarrow> out list list" where
  "prints [] = []"
| "prints (MPrint l # as) = l # prints as"
| "prints (_ # as) = prints as"

lemma prints_append [simp]: "prints (as @ bs) = prints as @ prints bs"
  by (induction as rule: prints.induct) simp_all

lemma prints_map [simp]: "prints (map MPrint ls) = ls"
  by (induction ls) simp_all

fun report_end :: "(double \<Rightarrow> u64) \<Rightarrow> (double \<Rightarrow> int) \<Rightarrow> (int \<times> runtime) list \<Rightarrow> reporter \<Rightarrow> reporter" where
  "report_end oor oor' [] st = st"
| "report_end oor oor' ((now, r) # rest) st = report_end oor oor' rest (snd (report_pass oor oor' now r st))"

lemma report_snoc:
  "report_loop oor oor' (ps @ [(now, r)]) st = report_loop oor oor' ps st @ fst (report_pass oor oor' now r (report_end oor oor' ps st))"
  "report_end oor oor' (ps @ [(now, r)]) st = snd (report_pass oor oor' now r (report_end oor oor' ps st))"
proof -
  show "report_end oor oor' (ps @ [(now, r)]) st = snd (report_pass oor oor' now r (report_end oor oor' ps st))"
    by (induction ps arbitrary: st) auto
  show "report_loop oor oor' (ps @ [(now, r)]) st = report_loop oor oor' ps st @ fst (report_pass oor oor' now r (report_end oor oor' ps st))"
    by (induction ps arbitrary: st) (auto split: prod.split)
qed

text \<open>
  The output so far is that of a run of the reporting loop from a first reading of the clock, with the
  final report after it once that is printed.
\<close>

fun reported :: "main_pc \<Rightarrow> bool" where
  "reported MLogger \<longleftrightarrow> True"
| "reported (MExit n) \<longleftrightarrow> True"
| "reported _ \<longleftrightarrow> False"

definition passes_ok :: "'v outside \<Rightarrow> prog \<Rightarrow> int \<Rightarrow> (int \<times> runtime) list \<Rightarrow> bool" where
  "passes_ok x p t0 ps \<longleftrightarrow> (let st = \<lparr>lastReport = t0, lastHeartbeat = t0\<rparr> in
     sorted (t0 # map fst ps) \<and> last (t0 # map fst ps) \<le> p_clock p \<and> p_rep p = report_end (o_u64 x) (o_i64 x) ps st \<and>
     prints (p_acts p) = report_loop (o_u64 x) (o_i64 x) ps st @
       (if reported (p_main p) then final_report (o_u64 x) (o_i64 x) (rt (e_sys (p_engine p))) else []))"

definition output_inv :: "'v outside \<Rightarrow> prog \<Rightarrow> bool" where
  "output_inv x p \<longleftrightarrow> (if p_main p = MStart then p_acts p = [] else \<exists>t0 ps. passes_ok x p t0 ps)"

lemma sorted_last_snoc: "sorted (t # ts) \<Longrightarrow> last (t # ts) \<le> now \<Longrightarrow> sorted (t # ts @ [now :: int])"
proof -
  assume a: "sorted (t # ts)" "last (t # ts) \<le> now"
  have "\<forall>x \<in> set (t # ts). x \<le> last (t # ts)" using a(1) by (induction ts arbitrary: t) auto
  then show ?thesis using a by (auto simp: sorted_append split: if_splits)
qed

lemma output_main:
  assumes "main_step (o_u64 x) (o_i64 x) p p'" "output_inv x p" shows "output_inv x p'"
proof (cases "p_main p = MStart")
  case True
  obtain t0 where "p_main p' = MTest" "passes_ok x p' t0 []"
    using assms(1) True assms(2) by (cases rule: main_step.cases) (auto simp: output_inv_def passes_ok_def Let_def)
  then show ?thesis by (auto simp: output_inv_def)
next
  case False
  then obtain t0 ps where ps: "passes_ok x p t0 ps" using assms(2) by (auto simp: output_inv_def)
  have "p_main p' \<noteq> MStart \<and> (\<exists>ps'. passes_ok x p' t0 ps')"
    using assms(1)
  proof (cases rule: main_step.cases)
    case (loop_pass now os st)
    then have "passes_ok x p' t0 (ps @ [(now, rt (e_sys (p_engine p)))])"
      using ps sorted_last_snoc[of t0 "map fst ps" now] by (auto simp: passes_ok_def report_snoc Let_def)
    then show ?thesis using loop_pass(1) by auto
  qed (use ps False in \<open>auto simp: passes_ok_def Let_def intro!: exI[of _ ps]\<close>)
  then show ?thesis by (auto simp: output_inv_def)
qed

text \<open>Once the report is printed no thread moves any more.\<close>

lemma still:
  assumes "main_flags m e" "reported m" shows "\<not> net_step x qcap e e'" "\<not> loop_step oor cap qcap (e_sys e) s"
proof -
  have f: "idle_engine e" "pc (e_sys e) = Finished" using assms by (cases m; simp)+
  then show "\<not> net_step x qcap e e'" "\<not> loop_step oor cap qcap (e_sys e) s" using net_step_flags(6) loop_step_flags(6) by (force simp: idle_engine_def)+
qed

lemma output_step:
  assumes "prog_step x cap qcap t p p'" "prog_inv x cap qcap c p" "output_inv x p" shows "output_inv x p'"
proof -
  have "passes_ok x (p\<lparr>p_engine := e\<rparr>) t0 ps = passes_ok x p t0 ps" if "\<not> reported (p_main p)" for e t0 ps using that by (simp add: passes_ok_def Let_def)
  then have keep: "output_inv x (p\<lparr>p_engine := e\<rparr>)" if "\<not> reported (p_main p)" for e using that assms(3) by (simp add: output_inv_def)
  have "passes_ok x (handleSignal p) t0 ps = passes_ok x p t0 ps" for t0 ps by (simp add: passes_ok_def handleSignal_def)
  then have signal: "output_inv x (handleSignal p)" using assms(3) by (simp add: output_inv_def) (simp add: handleSignal_def)
  have f: "main_flags (p_main p) (p_engine p)" using assms(2) by (simp add: prog_inv_def)
  show ?thesis
  proof (cases t)
    case Main
    then show ?thesis using assms(1) output_main[OF _ assms(3)] by simp
  next
    case Net
    then show ?thesis using assms(1) keep still(1)[OF f] by auto
  next
    case Strategy
    then obtain s where s: "loop_step (x_oor (o_world x)) cap qcap (e_sys (p_engine p)) s" "p' = p\<lparr>p_engine := (p_engine p)\<lparr>e_sys := s\<rparr>\<rparr>"
      using assms(1) by auto
    show ?thesis unfolding s(2) by (rule keep) (use s(1) still(2)[OF f] in blast)
  next
    case Signal
    then show ?thesis using assms(1) signal by simp
  qed
qed

interpretation pout: step_invariant "some_step (prog_step x cap qcap)" "\<lambda>p. prog_inv x cap qcap c p \<and> output_inv x p" for x cap qcap c
  by unfold_locales (auto simp: some_step_def intro: prog_inv_step output_step)

lemma output_reachable:
  "(some_step (prog_step x cap qcap))\<^sup>*\<^sup>* (prog_start cap qcap c) p \<Longrightarrow> output_inv x p"
  using pout.run_inv[of x cap qcap "prog_start cap qcap c" p c] prog_inv_start[of x cap qcap c] by (simp add: output_inv_def prog_start_def)

text \<open>
  A run of the program to its exit is a run of \<^verbatim>\<open>main\<close> as one function: the exit code and the output
  are those of \<open>main_run\<close> for readings of the clock that do not go back, with the runtime as the
  threads have left it.
\<close>

lemma program_refines_main_run:
  assumes "loadConfig api files (config_path argv) = Some (Value c)"
    and "(some_step (prog_step x cap qcap))\<^sup>*\<^sup>* (prog_start cap qcap c) p" "p_main p = MExit n"
  shows "\<exists>t0 ps. sorted (t0 # map fst ps) \<and>
    main_run (o_u64 x) (o_i64 x) cap qcap api files argv t0 ps (rt (e_sys (p_engine p))) = Some (n, prints (p_acts p))"
proof -
  obtain t0 ps where ps: "passes_ok x p t0 ps" using output_reachable[OF assms(2)] assms(3) by (auto simp: output_inv_def)
  have "n = 0" using prog_reachable[OF assms(2)] assms(3) by (simp add: prog_inv_def)
  then show ?thesis using ps assms(1,3) by (intro exI[of _ t0] exI[of _ ps]) (simp add: main_run_def main_start_def passes_ok_def Let_def)
qed

section \<open>Properties of the program\<close>

text \<open>
  C5. The final report is complete. When the program exits, it does so with code 0 and after a signal, and
  no thread moves any more; the last lines printed are the report on the runtime as it is then.
  Every event that was enqueued has been processed, the events that were not enqueued are exactly those
  reported as dropped, the reported number of messages is that of the messages delivered, and every
  order is reported as blocked, rejected or approved.
\<close>

theorem program_final_report:
  assumes "book_cap cap" "queue_cap qcap" "(some_step (prog_step x cap qcap))\<^sup>*\<^sup>* (prog_start cap qcap c) p" "p_main p = MExit n"
  defines "s \<equiv> e_sys (p_engine p)" and "feed \<equiv> feed_events (x_oor (o_world x)) (c_tick_size c) (w_calls (e_ws (p_engine p)))"
  shows "n = 0 \<and> \<not> g_running p \<and> (\<forall>t p'. prog_step x cap qcap t p p' \<longrightarrow> p' = p) \<and>
    (\<exists>os. prints (p_acts p) = os @ final_report (o_u64 x) (o_i64 x) (rt s)) \<and>
    seen s = sent s \<and> subseq (sent s) feed \<and>
    queueFullDrops (metrics (rt s)) = of_nat (length feed - length (sent s)) \<and>
    msgsReceived (metrics (rt s)) = of_nat (length (delivered (w_calls (e_ws (p_engine p))))) \<and>
    ordersSent (metrics (rt s)) = circuitBlocked (metrics (rt s)) + ordersRejected (metrics (rt s)) + ordersApproved (metrics (rt s))"
proof -
  have i: "(engine_step (o_world x) cap qcap)\<^sup>*\<^sup>* (engine_start cap qcap c) (p_engine p)" "main_flags (MExit n) (p_engine p)" "\<not> g_running p"
    using prog_reachable[OF assms(3)] assms(4) by (simp_all add: prog_inv_def)
  have fl: "n = 0" "e_net (p_engine p) = InClient" "pc s = Finished" using i(2) by (simp_all add: idle_engine_def s_def)
  have "p' = p" if "prog_step x cap qcap t p p'" for t p'
    using that assms(4) i(3) still[OF i(2)] by (cases t) (auto simp: handleSignal_def elim: main_step.cases)
  moreover have "\<exists>os. prints (p_acts p) = os @ final_report (o_u64 x) (o_i64 x) (rt s)"
    using output_reachable[OF assms(3)] assms(4) by (auto simp: output_inv_def passes_ok_def s_def Let_def)
  moreover have "sys_inv cap qcap s" unfolding s_def using sys_inv_reachable[OF assms(1,2)] engine_sim(1)[OF i(1)] by blast
  then have "seen s = sent s" "counted (rt s) 0" using fl(3) by (auto simp: sys_inv_def)
  moreover have "accounts (x_oor (o_world x)) (cfg (new_runtime cap qcap c)) (p_engine p)" by (rule accounts_reachable[OF i(1)])
  then have "handed_over feed (sent s) (queueFullDrops (metrics (rt s)))"
    "msgsReceived (metrics (rt s)) = of_nat (length (delivered (w_calls (e_ws (p_engine p)))))"
    using fl(2) by (auto simp: accounts_def feed_def s_def new_runtime_fields Let_def)
  then have "subseq (sent s) feed" "queueFullDrops (metrics (rt s)) = of_nat (length feed - length (sent s))"
    "msgsReceived (metrics (rt s)) = of_nat (length (delivered (w_calls (e_ws (p_engine p)))))" by (auto simp: handed_over_def)
  ultimately show ?thesis using fl(1) i(3) by (auto simp: counted_def Let_def)
qed

text \<open>
  C6. A signal ends the program. In every fair run, however the threads are interleaved and whatever the
  calls of the network return, once a signal has arrived the main thread gets through the shutdown and exits with
  code 0, unless the process has been aborted by an exception that leaves the network thread. Fairness
  counts a thread inside a call to connect, to the handshake or to read as able to go on: it
  assumes that these blocking calls return at some time.
\<close>

theorem program_exits:
  assumes "book_cap cap" "queue_cap qcap" "labelled_run (prog_step x cap qcap) l f" "fair (prog_step x cap qcap) l f"
    and "f 0 = prog_start cap qcap c" "l n = Signal"
  shows "\<exists>m > n. p_main (f m) = MExit 0 \<or> \<not> alive (p_engine (f m))"
proof -
  have "prog_inv x cap qcap c (f (Suc n))" using prog_reachable run_reaches[OF assms(3), of 0 "Suc n"] assms(5) by auto
  moreover have "prog_step x cap qcap Signal (f n) (f (Suc n))" using assms(3,6) by (metis labelled_run_def)
  then have "\<not> g_running (f (Suc n))" by (simp add: handleSignal_def)
  ultimately have "signalled_inv x cap qcap c (f (Suc n))" using assms(1,2) by (simp add: signalled_inv_def)
  from shut.reaches_goal[OF assms(3,4) this] obtain m where "Suc n \<le> m" "prog_over (f m)" by blast
  then show ?thesis by (intro exI[of _ m]) (auto simp: prog_over_def)
qed

section \<open>A run of the program\<close>

text \<open>The process is not aborted where a subscription can be built at any time, such as without credentials.\<close>

lemma no_abort:
  assumes "(ws_run api uninit sub)\<^sup>*\<^sup>* (hooked_client c) w" "\<And>ts. sub ts \<noteq> None" shows "w_pc w \<noteq> WsAborted"
  using assms(1)
proof (induction rule: rtranclp_induct)
  case (step w w')
  have "sub ts = None \<Longrightarrow> False" for ts using assms(2) by blast
  with step show ?case
    by (auto elim!: ws_run.cases ws_step.cases simp: connected_def received_def sleep_slice_def client_start_def split: prod.splits if_splits)
qed simp

definition sample_outside :: "sample_value outside" where
  "sample_outside = \<lparr>o_world = sample_world, o_u64 = \<lambda>_. 0, o_i64 = \<lambda>_. 0\<rparr>"

lemma sample_alive:
  assumes "prog_inv sample_outside cap qcap c p" shows "alive (p_engine p)"
  using no_abort[OF engine_sim(2)[of "o_world sample_outside" cap qcap c "p_engine p"]] assms sample_subscription
  by (simp add: prog_inv_def alive_def sample_outside_def)

text \<open>A signal arrives before the engine starts; the program still starts it, stops it and exits.\<close>

lemma sample_exit:
  "\<exists>p. prog_step sample_outside 64 4 Signal (prog_start 64 4 default_config) (handleSignal (prog_start 64 4 default_config)) \<and>
    (some_step (prog_step sample_outside 64 4))\<^sup>*\<^sup>* (handleSignal (prog_start 64 4 default_config)) p \<and> p_main p = MExit 0 \<and> \<not> g_running p"
proof -
  let ?p = "handleSignal (prog_start 64 4 default_config)"
  have s: "prog_step sample_outside 64 4 Signal (prog_start 64 4 default_config) ?p" by simp
  then have "signalled_inv sample_outside 64 4 default_config ?p"
    using prog_inv_step[OF s prog_inv_start] book_cap_64 queue_cap_4 by (simp add: signalled_inv_def handleSignal_def)
  from shut.goal_reachable[OF this] obtain p where p: "(some_step (prog_step sample_outside 64 4))\<^sup>*\<^sup>* ?p p"
    "signalled_inv sample_outside 64 4 default_config p" "prog_over p" by blast
  then show ?thesis using s sample_alive[of 64 4 default_config p] by (auto simp: prog_over_def signalled_inv_def)
qed

theorem program_final_report_witness:
  "\<exists>(p :: prog) os. p_main p = MExit 0 \<and> seen (e_sys (p_engine p)) = sent (e_sys (p_engine p)) \<and>
     prints (p_acts p) = os @ final_report (\<lambda>_. 0) (\<lambda>_. 0) (rt (e_sys (p_engine p)))"
proof -
  obtain p where p: "(some_step (prog_step sample_outside 64 4))\<^sup>*\<^sup>* (prog_start 64 4 default_config) p" "p_main p = MExit 0"
    using sample_exit by (metis some_step_def converse_rtranclp_into_rtranclp)
  from program_final_report[OF book_cap_64 queue_cap_4 p] show ?thesis using p(2) by (auto simp: sample_outside_def intro!: exI[of _ p])
qed

theorem program_exits_witness:
  "\<exists>l f. labelled_run (prog_step sample_outside 64 4) l f \<and> fair (prog_step sample_outside 64 4) l f \<and> l 0 = Signal \<and>
     f 0 = prog_start 64 4 default_config \<and> (\<exists>m > 0. p_main (f m) = MExit 0 \<or> \<not> alive (p_engine (f m)))"
proof -
  let ?s = "prog_step sample_outside 64 4" and ?p = "handleSignal (prog_start 64 4 default_config)"
  obtain p where p: "?s Signal (prog_start 64 4 default_config) ?p" "(some_step ?s)\<^sup>*\<^sup>* ?p p" "p_main p = MExit 0" "\<not> g_running p"
    using sample_exit by blast
  have "(some_step ?s)\<^sup>*\<^sup>* (prog_start 64 4 default_config) p" using p(1,2) by (metis some_step_def converse_rtranclp_into_rtranclp)
  then have "main_flags (p_main p) (p_engine p)" using prog_reachable by (metis prog_inv_def)
  then have "\<not> able ?s u p" if "u \<noteq> Signal" for u
    using that p(3) still[of "p_main p" "p_engine p"] by (cases u) (auto simp: able_def elim: main_step.cases)
  moreover have "?s Signal p p" using p(4) by (simp add: handleSignal_def)
  ultimately obtain l f where f: "labelled_run ?s l f" "fair ?s l f" "f 0 = ?p" using fair_extension[OF p(2), of Signal] by blast
  let ?l = "case_nat Signal l" and ?f = "case_nat (prog_start 64 4 default_config) f"
  have r: "labelled_run ?s ?l ?f" "fair ?s ?l ?f" using fair_prepend[OF f(1,2), of Signal] p(1) f(3) by simp_all
  have "\<exists>m > 0. p_main (?f m) = MExit 0 \<or> \<not> alive (p_engine (?f m))" by (rule program_exits[OF book_cap_64 queue_cap_4 r]) simp_all
  then show ?thesis using r by (intro exI[of _ ?l] exI[of _ ?f]) simp
qed

end
