(* ===== verification/Logger_Shutdown.thy ===== *)
theory Logger_Shutdown
  imports Logger
begin

text \<open>
  The end of the logger (\<^verbatim>\<open>Logger::stop\<close> and the drainer of \<^verbatim>\<open>src/core/logger.cpp\<close>): once the flag is cleared and
  no thread is inside \<^verbatim>\<open>log\<close>, the drainer prints what is left and ends. The one exception is shown by a
  run: a drainer that has loaded the head of an empty ring and not yet tested the flag ends without
  the lines logged in between.
\<close>

section \<open>Every claimed record is stamped or held\<close>

definition stamped :: "nat \<Rightarrow> logsys \<Rightarrow> bool" where
  "stamped n s \<longleftrightarrow> (\<forall>i. length (printed s) \<le> i \<and> i < length (claims s) \<longrightarrow>
     ready (slot_at n s (of_nat i)) = of_nat i + 1 \<or> (\<exists>p. held (procs s p) = Some (of_nat i)))"

lemma stamped_move:
  assumes "stamped n s" "held (procs s p) = None" shows "stamped n (set_pc p c s)"
  using assms unfolding stamped_def set_pc_fields by (metis fun_upd_other option.distinct(1))

lemma stamped_claim:
  assumes "log_inv n s" "stamped n s" "procs s p = LChecked lv line h" "l_head s = h"
  shows "stamped n (set_pc p (LClaimed r h) (s\<lparr>l_head := h + 1, claims := claims s @ [r]\<rparr>))"
proof -
  have sl: "slot_at n (s\<lparr>l_head := h + 1, claims := claims s @ [r]\<rparr>) = slot_at n s" by (simp add: slot_at_def fun_eq_iff)
  have "unat h = length (claims s)" using assms(1,4) by (simp add: log_inv_def)
  then have hh: "of_nat (length (claims s)) = h" by (simp flip: \<open>unat h = length (claims s)\<close>)
  have "ready (slot_at n s (of_nat i)) = of_nat i + 1 \<or> (\<exists>q. held (((procs s)(p := LClaimed r h)) q) = Some (of_nat i))"
    if i: "length (printed s) \<le> i" "i < Suc (length (claims s))" for i
  proof (cases "i = length (claims s)")
    case True
    then show ?thesis using hh by (intro disjI2 exI[of _ p]) simp
  next
    case False
    then have "ready (slot_at n s (of_nat i)) = of_nat i + 1 \<or> (\<exists>q. held (procs s q) = Some (of_nat i))"
      using assms(2) i unfolding stamped_def by simp
    moreover have "held (procs s p) = None" using assms(3) by simp
    ultimately show ?thesis by (metis fun_upd_other option.distinct(1))
  qed
  then show ?thesis unfolding stamped_def set_pc_fields sl by simp
qed

lemma stamped_put:
  assumes "log_inv n s" "stamped n s" "held (procs s p) = Some h" "held c = Some h \<and> ready x = ready (slot_at n s h) \<or> ready x = h + 1"
  shows "stamped n (set_pc p c (put_slot n h x s))"
proof -
  have h: "length (printed s) \<le> unat h" "unat h < length (claims s)"
    using producer_inv[OF assms(1) refl, of p] assms(3) by (cases "procs s p"; simp)+
  have lt: "length (claims s) + n < 2 ^ 64" using assms(1) by (simp add: log_inv_def)
  have "ready (slot_at n (put_slot n h x s) (of_nat i)) = of_nat i + 1 \<or> (\<exists>q. held (((procs s)(p := c)) q) = Some (of_nat i))"
    if i: "length (printed s) \<le> i" "i < length (claims s)" for i
  proof (cases "of_nat i = h")
    case True
    then show ?thesis using assms(4) by (auto simp: slot_at_put[OF assms(1)] intro: exI[of _ p])
  next
    case False
    have u: "unat (of_nat i :: u64) = i" using i lt by (intro unat_u64_of_nat) simp
    then have "slot_of n (of_nat i) \<noteq> slot_of n h" using slots_differ[OF assms(1), of "of_nat i" h] h i False by simp
    moreover have "ready (slot_at n s (of_nat i)) = of_nat i + 1 \<or> (\<exists>q. held (procs s q) = Some (of_nat i))"
      using assms(2) i unfolding stamped_def by simp
    moreover have "held (procs s p) \<noteq> Some (of_nat i)" using False assms(3) by simp
    ultimately show ?thesis by (metis slot_at_put[OF assms(1)] fun_upd_other)
  qed
  then show ?thesis unfolding stamped_def set_pc_fields put_slot_fields by simp
qed

lemma stamped_frame:
  assumes "stamped n s" "ring s' = ring s" "procs s' = procs s" "claims s' = claims s" "length (printed s) \<le> length (printed s')"
  shows "stamped n s'"
  using assms by (auto simp: stamped_def slot_at_def)

lemma stamped_step:
  assumes "log_step n s s'" "log_inv n s" "stamped n s" shows "stamped n s'"
  using assms(1)
proof (cases rule: log_step.cases)
  case (claim p lv line h ns)
  then show ?thesis using stamped_claim[OF assms(2,3)] by simp
next
  case (store_record p r h)
  then show ?thesis using stamped_put[OF assms(2,3), of p h] by simp
next
  case (publish p h)
  then show ?thesis using stamped_put[OF assms(2,3), of p h] by simp
next
  case (full p lv line h)
  have "stamped n (s\<lparr>l_dropped := l_dropped s + 1\<rparr>)" by (rule stamped_frame[OF assms(3)]) simp_all
  then show ?thesis using full by (simp add: stamped_move)
qed (use assms(3) in \<open>auto intro: stamped_move stamped_frame[OF assms(3)]\<close>)

interpretation lp: step_invariant "log_step n" "\<lambda>s. log_inv n s \<and> stamped n s" for n
  by unfold_locales (auto intro: log_inv_step stamped_step)

lemma stamped_reachable:
  assumes "queue_cap n" "(log_step n)\<^sup>*\<^sup>* (log_start n r) s" shows "stamped n s"
proof -
  have "stamped n (log_start n r)" by (simp add: stamped_def log_start_def)
  then show ?thesis using lp.run_inv[OF assms(2)] log_inv_start[OF assms(1)] by blast
qed

section \<open>The drainer alone\<close>

text \<open>The steps of the drainer are those that move it.\<close>

definition drain_step :: "nat \<Rightarrow> logsys \<Rightarrow> logsys \<Rightarrow> bool" where
  "drain_step n s s' \<longleftrightarrow> log_step n s s' \<and> dpc s' \<noteq> dpc s"

text \<open>Stopped, with no thread inside \<^verbatim>\<open>log\<close>, and the drainer not about to end on an old reading of the head.\<close>

definition stopping :: "nat \<Rightarrow> logsys \<Rightarrow> bool" where
  "stopping n s \<longleftrightarrow> log_inv n s \<and> stamped n s \<and> (\<forall>p. held (procs s p) = None) \<and> \<not> l_running s \<and>
     (\<forall>h. dpc s = DHead h \<longrightarrow> h = l_head s \<or> h \<noteq> l_tail s) \<and> (dpc s = DDone \<longrightarrow> printed s = claims s)"

fun drain_rank :: "drain_pc \<Rightarrow> nat" where
  "drain_rank (DLoop t h) = (if t < h then 1 else 4)"
| "drain_rank DIdle = 3"
| "drain_rank (DHead h) = 2"
| "drain_rank _ = 0"

definition drain_left :: "logsys \<Rightarrow> nat" where
  "drain_left s = 6 * (length (claims s) - length (printed s)) + drain_rank (dpc s)"

lemma drain_cases:
  assumes "drain_step n s s'"
  obtains "dpc s = DIdle" "s' = s\<lparr>dpc := DHead (l_head s)\<rparr>"
  | h where "dpc s = DHead h" "l_tail s = h" "s' = s\<lparr>dpc := (if l_running s then DIdle else DDone)\<rparr>"
  | h where "dpc s = DHead h" "l_tail s \<noteq> h" "s' = s\<lparr>dpc := DLoop (l_tail s) h\<rparr>"
  | t h where "dpc s = DLoop t h" "t < h" "ready (slot_at n s t) = t + 1" "s' = s\<lparr>dpc := DPrint t h\<rparr>"
  | t h where "dpc s = DPrint t h" "s' = s\<lparr>dpc := DLoop (t + 1) h, printed := printed s @ [entry (slot_at n s t)]\<rparr>"
  | t h where "dpc s = DLoop t h" "\<not> (t < h \<and> ready (slot_at n s t) = t + 1)" "s' = s\<lparr>dpc := DIdle, l_tail := t\<rparr>"
proof -
  have a: "log_step n s s'" "dpc s' \<noteq> dpc s" using assms by (simp_all add: drain_step_def)
  from a(1) show thesis
  proof (cases rule: log_step.cases)
    case drain_load
    then show thesis using that(1) by simp
  next
    case (drain_empty h)
    then show thesis using that(2) by simp
  next
    case (drain_enter h)
    then show thesis using that(3) by simp
  next
    case (drain_ready t h)
    then show thesis using that(4) by simp
  next
    case (drain_print t h)
    then show thesis using that(5) by simp
  next
    case (drain_store t h)
    then show thesis using that(6) by blast
  qed (use a(2) in simp_all)
qed

lemma loop_ready:
  assumes "stopping n s" "dpc s = DLoop t h" "t < h" shows "ready (slot_at n s t) = t + 1"
proof -
  have d: "unat t = length (printed s)" "unat h \<le> length (claims s)" "unat t < unat h"
    using drain_inv[of n s "DLoop t h"] assms by (simp_all add: stopping_def word_less_nat_alt)
  have "t = of_nat (unat t)" by simp
  then have "of_nat (length (printed s)) = t" using d(1) by simp
  then show ?thesis using assms(1) d unfolding stopping_def stamped_def by (metis dual_order.strict_trans1 option.distinct(1) order_refl)
qed

lemma drain_step_down:
  assumes "drain_step n s s'" "stopping n s" shows "drain_left s' < drain_left s"
  using assms(1)
proof (cases rule: drain_cases)
  case (5 t h)
  then have "length (printed s) < length (claims s)" using drain_inv[of n s "DPrint t h"] assms(2) by (simp add: stopping_def)
  then show ?thesis using 5 by (auto simp: drain_left_def)
next
  case (3 h)
  have "unat (l_tail s) \<le> unat h" using drain_inv[of n s "DHead h"] assms(2) 3(1) by (simp add: stopping_def)
  then have "l_tail s < h" using 3(2) by (simp add: order.not_eq_order_implies_strict word_le_nat_alt)
  then show ?thesis using 3 by (simp add: drain_left_def)
next
  case (6 t h)
  then show ?thesis using loop_ready[OF assms(2) 6(1)] by (auto simp: drain_left_def)
qed (use assms(2) in \<open>simp_all add: drain_left_def stopping_def\<close>)

lemma stopping_step:
  assumes "drain_step n s s'" "stopping n s" shows "stopping n s' \<and> claims s' = claims s"
proof -
  have i: "log_inv n s'" "stamped n s'" "log_step n s s'"
    using assms log_inv_step stamped_step by (auto simp: drain_step_def stopping_def)
  show ?thesis using assms(1)
  proof (cases rule: drain_cases)
    case (2 h)
    have d: "unat (l_tail s) = length (printed s)" using drain_inv[of n s "DHead h"] assms(2) 2(1) by (simp add: stopping_def)
    have "l_tail s = l_head s" using 2(1,2) assms(2) by (auto simp: stopping_def)
    then have e: "length (printed s) = length (claims s)" using d assms(2) by (simp add: stopping_def log_inv_def)
    have "printed s = take (length (printed s)) (claims s)" using assms(2) unfolding stopping_def log_inv_def by blast
    then have "printed s = claims s" unfolding e by simp
    then show ?thesis using 2 i assms(2) by (simp add: stopping_def)
  qed (use i assms(2) in \<open>simp_all add: stopping_def\<close>)
qed

interpretation dn: step_bound "drain_step n" "\<lambda>s. stopping n s \<and> claims s = cs" drain_left for n cs
  by unfold_locales (use stopping_step drain_step_down in blast)+

lemma drain_able:
  assumes "dpc s \<noteq> DDone" shows "\<exists>s'. drain_step n s s'"
proof (cases "dpc s")
  case DIdle
  then show ?thesis using log_step.drain_load[OF DIdle, of n] unfolding drain_step_def by (intro exI[of _ "s\<lparr>dpc := DHead (l_head s)\<rparr>"]) simp
next
  case (DHead h)
  show ?thesis
  proof (cases "l_tail s = h")
    case True
    have "(if l_running s then DIdle else DDone) \<noteq> DHead h" by simp
    then show ?thesis using log_step.drain_empty[OF DHead True, of n] DHead unfolding drain_step_def
      by (intro exI[of _ "s\<lparr>dpc := (if l_running s then DIdle else DDone)\<rparr>"]) simp
  next
    case False
    then show ?thesis using log_step.drain_enter[OF DHead False, of n] DHead unfolding drain_step_def
      by (intro exI[of _ "s\<lparr>dpc := DLoop (l_tail s) h\<rparr>"]) simp
  qed
next
  case (DLoop t h)
  show ?thesis
  proof (cases "t < h \<and> ready (slot_at n s t) = t + 1")
    case True
    then show ?thesis using log_step.drain_ready[OF DLoop, of n] DLoop unfolding drain_step_def by (intro exI[of _ "s\<lparr>dpc := DPrint t h\<rparr>"]) simp
  next
    case False
    then show ?thesis using log_step.drain_store[OF DLoop False] DLoop unfolding drain_step_def by (intro exI[of _ "s\<lparr>dpc := DIdle, l_tail := t\<rparr>"]) simp
  qed
next
  case (DPrint t h)
  then show ?thesis using log_step.drain_print[OF DPrint, of n] unfolding drain_step_def
    by (intro exI[of _ "s\<lparr>dpc := DLoop (t + 1) h, printed := printed s @ [entry (slot_at n s t)]\<rparr>"]) simp
qed (use assms in simp)

section \<open>Properties of the end of the logger\<close>

text \<open>
  C14. Stopping the logger prints what was logged. In every reachable state in which the flag is cleared
  and no thread is between claiming and publishing a record, unless the drainer is between loading
  the head of a ring that was empty then and testing the flag: the drainer makes at most six steps
  for each record that is left, and four; while it has not ended it can go on; and when it has ended,
  every record that was claimed has been printed, in order.
\<close>

theorem logger_stop_drains:
  assumes "queue_cap n" "(log_step n)\<^sup>*\<^sup>* (log_start n r) s" "\<not> l_running s" "\<forall>p. held (procs s p) = None" "dpc s \<noteq> DDone"
    and "\<forall>h. dpc s = DHead h \<longrightarrow> h = l_head s \<or> h \<noteq> l_tail s" "(drain_step n ^^ k) s s'"
  shows "k \<le> 6 * (length (claims s) - length (printed s)) + 4 \<and> (dpc s' \<noteq> DDone \<longrightarrow> (\<exists>s''. drain_step n s' s'')) \<and>
    (dpc s' = DDone \<longrightarrow> printed s' = claims s)"
proof -
  have "stopping n s" using log_inv_reachable[OF assms(1,2)] stamped_reachable[OF assms(1,2)] assms(3-6) by (simp add: stopping_def)
  then have b: "stopping n s' \<and> claims s' = claims s" "k + drain_left s' \<le> drain_left s" using dn.run_bound[OF assms(7), of "claims s"] by blast+
  have "drain_rank (dpc s) \<le> 4" by (cases "dpc s") simp_all
  then have "k \<le> 6 * (length (claims s) - length (printed s)) + 4" using b(2) by (simp add: drain_left_def)
  then show ?thesis using b(1) drain_able[of s' n] by (simp add: stopping_def)
qed

section \<open>Runs\<close>

text \<open>
  Thread 0 logs a line from its call to the stamp; the drainer may have loaded the head before that.
\<close>

definition one_line :: "nat \<Rightarrow> log_record \<Rightarrow> drain_pc \<Rightarrow> logsys" where
  "one_line n r d = (log_start n r)\<lparr>ring := (replicate n \<lparr>ready = 0, entry = r\<rparr>)[0 := \<lparr>ready = 1, entry = stale_line\<rparr>], l_head := 1,
     dpc := d, claims := [stale_line]\<rparr>"

lemma one_line_run:
  assumes "queue_cap n" "s0 = (log_start n r)\<lparr>dpc := d\<rparr>" shows "(log_step n)\<^sup>*\<^sup>* s0 (one_line n r d)"
proof -
  have n: "2 \<le> n" "n \<le> 2 ^ 63" using queue_cap_bounds[OF assms(1)] by simp_all
  have zero: "\<not> of_nat n \<le> (0 :: u64)" using n by (simp add: word_le_nat_alt unat_u64_of_nat)
  let ?s1 = "set_pc 0 (LLoaded LInfo ''up'' 0) s0"
  let ?s2 = "set_pc 0 (LChecked LInfo ''up'' 0) ?s1"
  let ?s3 = "set_pc 0 (LClaimed stale_line 0) (?s2\<lparr>l_head := 0 + 1, claims := claims ?s2 @ [stale_line]\<rparr>)"
  let ?s4 = "set_pc 0 (LWritten 0) (put_slot n 0 ((slot_at n ?s3 0)\<lparr>entry := stale_line\<rparr>) ?s3)"
  let ?s5 = "set_pc 0 LIdle (put_slot n 0 ((slot_at n ?s4 0)\<lparr>ready := 0 + 1\<rparr>) ?s4)"
  have f: "procs s0 = (\<lambda>_. LIdle)" "l_head s0 = 0" "l_tail s0 = 0" "ring s0 = replicate n \<lparr>ready = 0, entry = r\<rparr>" by (simp_all add: assms(2) log_start_def)
  have a1: "log_step n s0 ?s1" using log_step.load[of s0 0 n LInfo "''up''"] by (simp add: f)
  have a2: "log_step n ?s1 ?s2" by (rule log_step.room) (use zero in \<open>simp_all add: f\<close>)
  have a3: "log_step n ?s2 ?s3" unfolding stale_line_def by (rule log_step.claim) (use n in \<open>simp_all add: f\<close>)
  have a4: "log_step n ?s3 ?s4" by (rule log_step.store_record) simp
  have a5: "log_step n ?s4 ?s5" by (rule log_step.publish) simp
  have "?s5 = one_line n r d" using n by (simp add: one_line_def assms(2) log_start_def set_pc_def put_slot_def slot_at_def fun_eq_iff)
  then show ?thesis
    using log_run_Cons[OF a1 log_run_Cons[OF a2 log_run_Cons[OF a3 log_run_Cons[OF a4 log_run_Cons[OF a5 log_run_refl]]]]] by simp
qed

theorem logger_stop_drains_witness:
  "\<exists>s'. (drain_step RING_SIZE ^^ 7) ((one_line RING_SIZE stale_line DIdle)\<lparr>l_running := False\<rparr>) s' \<and> dpc s' = DDone \<and> printed s' = [stale_line]"
proof -
  let ?n = RING_SIZE and ?r = stale_line
  let ?s = "(one_line ?n ?r DIdle)\<lparr>l_running := False\<rparr>"
  let ?s1 = "?s\<lparr>dpc := DHead (l_head ?s)\<rparr>" and ?s2 = "?s\<lparr>dpc := DLoop 0 1\<rparr>" and ?s3 = "?s\<lparr>dpc := DPrint 0 1\<rparr>"
  let ?s4 = "?s3\<lparr>dpc := DLoop (0 + 1) 1, printed := printed ?s3 @ [entry (slot_at ?n ?s3 0)]\<rparr>"
  let ?s5 = "?s4\<lparr>dpc := DIdle, l_tail := 1\<rparr>"
  let ?s6 = "?s5\<lparr>dpc := DHead (l_head ?s5)\<rparr>"
  let ?s7 = "?s6\<lparr>dpc := (if l_running ?s6 then DIdle else DDone)\<rparr>"
  have f: "l_head ?s = 1" "l_tail ?s = 0" "dpc ?s = DIdle" "procs ?s = (\<lambda>_. LIdle)" "claims ?s = [stale_line]" "printed ?s = []" by (simp_all add: one_line_def log_start_def)
  have f0: "l_tail (log_start ?n ?r) = 0" by (simp add: log_start_def)
  have "log_start ?n ?r = (log_start ?n ?r)\<lparr>dpc := DIdle\<rparr>" by (simp add: log_start_def)
  then have "(log_step ?n)\<^sup>*\<^sup>* (log_start ?n ?r) (one_line ?n ?r DIdle)" by (rule one_line_run[OF queue_cap_ring])
  then have reach: "(log_step ?n)\<^sup>*\<^sup>* (log_start ?n ?r) ?s" using log_step.stop[of ?n "one_line ?n ?r DIdle"] by (rule rtranclp.rtrancl_into_rtrancl)
  have 1: "drain_step ?n ?s ?s1" using log_step.drain_load[OF f(3), of ?n] by (simp add: drain_step_def one_line_def)
  have 2: "drain_step ?n ?s1 ?s2" using log_step.drain_enter[of ?s1 1 ?n] by (simp add: drain_step_def one_line_def f0)
  have "ready (slot_at ?n ?s2 0) = 0 + 1" by (simp add: slot_at_def one_line_def RING_SIZE_def)
  then have 3: "drain_step ?n ?s2 ?s3" using log_step.drain_ready[of ?s2 0 1 ?n] by (simp add: drain_step_def)
  have 4: "drain_step ?n ?s3 ?s4" using log_step.drain_print[of ?s3 0 1 ?n] by (simp add: drain_step_def)
  have 5: "drain_step ?n ?s4 ?s5" using log_step.drain_store[of ?s4 1 1 ?n] by (simp add: drain_step_def)
  have 6: "drain_step ?n ?s5 ?s6" using log_step.drain_load[of ?s5 ?n] by (simp add: drain_step_def)
  have 7: "drain_step ?n ?s6 ?s7" using log_step.drain_empty[of ?s6 1 ?n] by (simp add: drain_step_def f one_line_def)
  have n7: "7 = Suc (Suc (Suc (Suc (Suc (Suc (Suc 0))))))" by simp
  have c: "(drain_step ?n ^^ Suc k) x z" if "drain_step ?n x y" "(drain_step ?n ^^ k) y z" for x y z k using that by (rule relpowp_Suc_I2)
  have z: "(drain_step ?n ^^ 0) ?s7 ?s7" by simp
  have run: "(drain_step ?n ^^ 7) ?s ?s7"
    unfolding n7 by (rule c[OF 1 c[OF 2 c[OF 3 c[OF 4 c[OF 5 c[OF 6 c[OF 7 z]]]]]]])
  have d: "dpc ?s7 = DDone" by simp
  from logger_stop_drains[OF queue_cap_ring reach _ _ _ _ run] have "printed ?s7 = [stale_line]" using d by (simp add: f)
  with run d show ?thesis by blast
qed

text \<open>
  The exception is real: there is a run in which a line is logged and stamped, the logger is stopped
  after that, and the drainer ends without printing it. It had loaded the head of the empty ring
  before the line was claimed and tests the flag after it is cleared.
\<close>

lemma logger_stop_loses_line:
  "\<exists>s. (log_step RING_SIZE)\<^sup>*\<^sup>* (log_start RING_SIZE r) s \<and> dpc s = DDone \<and> claims s = [stale_line] \<and> printed s = [] \<and> (\<forall>p. procs s p = LIdle)"
proof -
  let ?n = RING_SIZE
  let ?s0 = "(log_start ?n r)\<lparr>dpc := DHead 0\<rparr>" and ?s1 = "one_line ?n r (DHead 0)"
  let ?s2 = "?s1\<lparr>l_running := False\<rparr>"
  have "log_step ?n (log_start ?n r) ?s0" using log_step.drain_load[of "log_start ?n r" ?n] by (simp add: log_start_def)
  moreover have "(log_step ?n)\<^sup>*\<^sup>* ?s0 ?s1" by (rule one_line_run[OF queue_cap_ring]) simp_all
  moreover have "log_step ?n ?s1 ?s2" by (rule log_step.stop)
  moreover have "log_step ?n ?s2 (?s2\<lparr>dpc := DDone\<rparr>)" using log_step.drain_empty[of ?s2 0 ?n] by (simp add: one_line_def log_start_def)
  ultimately have "(log_step ?n)\<^sup>*\<^sup>* (log_start ?n r) (?s2\<lparr>dpc := DDone\<rparr>)" by (meson log_run_Cons rtranclp.rtrancl_into_rtrancl)
  then show ?thesis by (intro exI[of _ "?s2\<lparr>dpc := DDone\<rparr>"]) (simp add: one_line_def log_start_def)
qed

end
