(* ===== verification/Platform.thy ===== *)
theory Platform
  imports Prelude "HOL-Library.Signed_Division"
begin

text \<open>
  The calls of the platform (\<^verbatim>\<open>include/trading/core/clock.hpp\<close>, \<^verbatim>\<open>include/trading/core/affinity.hpp\<close>). A clock
  of \<^verbatim>\<open>std::chrono\<close> counts ticks of a period, which the implementation chooses; the program converts its
  readings to nanoseconds. Time that does not go back before the conversion does not go back after
  it, which is what the models of the threads assume of their readings. Pinning a thread passes a
  set of processors to the operating system; the type of these sets and its two macros are
  parameters.
\<close>

section \<open>Clocks\<close>

text \<open>
  \<^verbatim>\<open>duration_cast<nanoseconds>\<close> from a duration whose period is \<open>num / den\<close> seconds: the quotient of the
  two periods is reduced, the count is multiplied by its numerator and divided by its denominator,
  towards zero. The standard leaves out a factor of one, which changes nothing.
\<close>

type_synonym period = "nat \<times> nat"

definition NANO :: period where "NANO = (1, 10 ^ 9)"

definition cast_factor :: "period \<Rightarrow> int \<times> int" where
  "cast_factor p = (let n = fst p * snd NANO; d = snd p * fst NANO; g = gcd n d in (int (n div g), int (d div g)))"

definition duration_cast :: "period \<Rightarrow> int \<Rightarrow> int" where
  "duration_cast p count = (case cast_factor p of (n, d) \<Rightarrow> wrap64 (count * n) sdiv d)"

text \<open>The two clocks: \<open>reading\<close> is the time since the epoch in ticks of the period.\<close>

definition Clock_now :: "period \<Rightarrow> int \<Rightarrow> int" where
  "Clock_now steady reading = duration_cast steady reading"

definition Clock_wallNs :: "period \<Rightarrow> int \<Rightarrow> int" where
  "Clock_wallNs system reading = duration_cast system reading"

definition period_ok :: "period \<Rightarrow> bool" where
  "period_ok p \<longleftrightarrow> 0 < fst p \<and> 0 < snd p"

lemma cast_factor_pos:
  assumes "period_ok p" "cast_factor p = (n, d)" shows "0 < n" "0 < d" "n * int (snd p) = d * int (fst p) * 10 ^ 9"
proof -
  define a b where "a = fst p * snd NANO" and "b = snd p * fst NANO"
  have pos: "0 < a" "0 < b" using assms(1) by (simp_all add: a_def b_def period_ok_def NANO_def)
  have nd: "n = int (a div gcd a b)" "d = int (b div gcd a b)" using assms(2) by (simp_all add: cast_factor_def Let_def a_def b_def)
  have "0 < gcd a b" "gcd a b \<le> a" "gcd a b \<le> b" using pos by simp_all
  then show "0 < n" "0 < d" unfolding nd by (simp_all add: div_greater_zero_iff)
  have "a div gcd a b * b = b div gcd a b * a" by (simp add: div_mult_swap mult.commute)
  then show "n * int (snd p) = d * int (fst p) * 10 ^ 9"
    unfolding nd by (simp add: a_def b_def NANO_def algebra_simps flip: of_nat_mult of_nat_power)
qed

lemma sdiv_mono:
  fixes a b d :: int assumes "a \<le> b" "0 < d" shows "a sdiv d \<le> b sdiv d"
proof -
  have pos: "x sdiv d = x div d" if "0 \<le> x" for x :: int using that assms(2) by (cases "x = 0") (simp_all add: signed_divide_int_def)
  have neg: "x sdiv d = - (- x div d)" if "x < 0" for x :: int using that assms(2) by (simp add: signed_divide_int_def)
  consider "0 \<le> a" | "a < 0" "0 \<le> b" | "b < 0" by linarith
  then show ?thesis
  proof cases
    case 1
    then show ?thesis using pos[of a] pos[of b] assms zdiv_mono1[of a b d] by simp
  next
    case 2
    then have "0 \<le> - a div d" "0 \<le> b div d" using assms(2) by (simp_all add: pos_imp_zdiv_nonneg_iff)
    then show ?thesis using 2 pos[of b] neg[of a] by simp
  next
    case 3
    then show ?thesis using neg[of a] neg[of b] assms zdiv_mono1[of "- b" "- a" d] by simp
  qed
qed

text \<open>Readings that do not go back give times that do not go back, as long as the count fits.\<close>

lemma clock_monotone:
  assumes "period_ok p" "r \<le> r'" "in_i64 (r * fst (cast_factor p))" "in_i64 (r' * fst (cast_factor p))"
  shows "Clock_now p r \<le> Clock_now p r'"
proof -
  obtain n d where f: "cast_factor p = (n, d)" by fastforce
  note pos = cast_factor_pos[OF assms(1) f]
  have "r * n \<le> r' * n" using assms(2) pos(1) by (simp add: mult_right_mono)
  then show ?thesis using sdiv_mono[of "r * n" "r' * n" d] pos(2) assms(3,4) by (simp add: Clock_now_def duration_cast_def f)
qed

text \<open>A clock that counts nanoseconds is read exactly, and one that counts seconds is multiplied.\<close>

lemma duration_cast_nano: "in_i64 r \<Longrightarrow> duration_cast NANO r = r"
  by (simp add: duration_cast_def cast_factor_def NANO_def)

lemma duration_cast_exact:
  assumes "period_ok p" "snd (cast_factor p) = 1" "in_i64 (r * fst (cast_factor p))"
  shows "duration_cast p r * int (snd p) = r * int (fst p) * 10 ^ 9"
proof -
  obtain n where f: "cast_factor p = (n, 1)" using assms(2) by (metis prod.collapse)
  show ?thesis using cast_factor_pos(3)[OF assms(1) f] assms(3) by (simp add: duration_cast_def f mult.assoc)
qed

section \<open>Pinning a thread\<close>

text \<open>
  The operating systems that the preprocessor tells apart, and the call that is made for the calling
  thread; its result is ignored.
\<close>

datatype platform = Linux | Apple | OtherPlatform

datatype 'c os_call = SetAffinity 'c | SetPolicy int

record 'c cpu_sets =
  cpu_zero :: 'c
  cpu_set :: "int \<Rightarrow> 'c \<Rightarrow> 'c"

definition pinThreadToCore :: "platform \<Rightarrow> 'c cpu_sets \<Rightarrow> int \<Rightarrow> 'c os_call list" where
  "pinThreadToCore os cs core =
     (if core < 0 then []
      else case os of
        Linux \<Rightarrow> [SetAffinity (cpu_set cs core (cpu_zero cs))]
      | Apple \<Rightarrow> [SetPolicy core]
      | OtherPlatform \<Rightarrow> [])"

text \<open>
  The documented behaviour of the macros: \<^verbatim>\<open>CPU_ZERO\<close> gives the empty set and \<^verbatim>\<open>CPU_SET\<close> adds a processor
  with a number below \<open>k\<close>.
\<close>

definition cpu_sets_ok :: "('c \<Rightarrow> int set) \<Rightarrow> int \<Rightarrow> 'c cpu_sets \<Rightarrow> bool" where
  "cpu_sets_ok mem k cs \<longleftrightarrow> mem (cpu_zero cs) = {} \<and> (\<forall>i s. 0 \<le> i \<and> i < k \<longrightarrow> mem (cpu_set cs i s) = insert i (mem s))"

lemma pin_exactly:
  assumes "cpu_sets_ok mem k cs" "core < k"
  shows "pinThreadToCore Linux cs core = [] \<and> core < 0 \<or> (\<exists>s. pinThreadToCore Linux cs core = [SetAffinity s] \<and> mem s = {core})"
  using assms by (auto simp: pinThreadToCore_def cpu_sets_ok_def)

end
