(* ===== verification/Spec2Isabelle.thy ===== *)
theory Spec2Isabelle
  imports Book_Views Spsc_Queue Hdr_Histogram Circuit_Breaker Risk_Manager Execution_Engine Position_Safety Book_Freshness Program Logger_Shutdown Platform
begin

text \<open>
  A verification development of the trading engine, a C++ program that follows the order book
  of one product over a WebSocket feed, computes the imbalance of the book, and trades on it
  against a simulated exchange. Paths below are relative to \<^verbatim>\<open>src/\<close> (headers in \<^verbatim>\<open>include/trading/\<close>).

  \<^bold>\<open>The program.\<close> Three threads run beside \<^verbatim>\<open>main\<close>.
  \<^item> The network thread (\<^verbatim>\<open>md/coinbase_ws_client.cpp\<close>) connects, subscribes with a signed message
    (\<^verbatim>\<open>md/coinbase_auth.cpp\<close>), reads texts, parses them (\<^verbatim>\<open>md/coinbase_parser.cpp\<close>) and calls
    \<^verbatim>\<open>Runtime::onCoinbaseMessage\<close>, which cuts a message into events and pushes them to a
    single-producer single-consumer ring (\<^verbatim>\<open>util/spsc_queue.hpp\<close>). When a connection is lost it backs
    off and calls the reconnect handler, which sets an invalidation flag.
  \<^item> The strategy thread (\<^verbatim>\<open>Runtime::strategyLoop\<close> of \<^verbatim>\<open>core/runtime.cpp\<close>) checks the flag, pops an event,
    updates the book (\<^verbatim>\<open>md/bounded_book.hpp\<close>), asks the strategy for a signal
    (\<^verbatim>\<open>strategy/imbalance_strategy.cpp\<close>, which sizes orders with \<^verbatim>\<open>strategy/order_sizer.hpp\<close>), and sends an
    order through the circuit breaker, the risk manager and the fill simulator
    (\<^verbatim>\<open>exec/circuit_breaker.hpp\<close>, \<^verbatim>\<open>exec/risk_manager.hpp\<close>, \<^verbatim>\<open>exec/execution_engine.hpp\<close>); the report of
    an execution goes back to strategy, profit tracker (\<^verbatim>\<open>strategy/pnl_tracker.hpp\<close>) and risk manager.
  \<^item> The drainer of the logger (\<^verbatim>\<open>core/logger.cpp\<close>) prints the records that any thread has put into its
    ring.
  \<^verbatim>\<open>main\<close> loads the configuration, starts the runtime, prints a heartbeat and the latencies
  (\<^verbatim>\<open>core/metrics.cpp\<close>, \<^verbatim>\<open>util/hdr_histogram.hpp\<close>), and stops it.

  \<^bold>\<open>The representation of data.\<close> \<^verbatim>\<open>double\<close> is modelled bit for bit: \<open>Rounding\<close> defines the rounding
  to nearest even on rationals and \<open>Float64\<close> the type with infinities, NaN and signed zeros, all
  executable. \<^verbatim>\<open>int64_t\<close> is \<open>int\<close> with \<open>wrap64\<close> where the source can overflow: the standard
  leaves the overflow of signed integers undefined, and the model takes the wrap-around of two's
  complement. \<^verbatim>\<open>uint64_t\<close> is \<open>u64 = 64 word\<close>. What the language leaves open (\<^verbatim>\<open>std::llround\<close> of a value outside the range of the
  result) is the argument \<open>oor\<close>. Template parameters are arguments (\<open>cap\<close> of the book, \<open>qcap\<close> of the
  queue). Third-party code is a record of functions: \<open>simdjson\<close> (the feed parser), \<open>json_api\<close> (the
  configuration), \<open>evp\<close> (OpenSSL). Readings of clocks are arguments.

  \<^bold>\<open>The theories, from the bottom up.\<close>
  \<^item> \<open>Prelude\<close>, \<open>Rounding\<close>, \<open>Float64\<close>, \<open>Float_Error\<close>: machine types, rounding (locale
    \<open>monotone_rounding\<close>), IEEE 754 doubles, and a calculus of relative errors.
  \<^item> \<open>Transition_Systems\<close>: the contracts of step relations (locales \<open>step_invariant\<close>, \<open>step_bound\<close>,
    \<open>simulation\<close>), interpreted on every threaded component. \<open>Fair_Runs\<close>: infinite runs of several actors
    and the rule by which they reach a goal (locale \<open>fair_progress\<close>).
  \<^item> \<open>Platform\<close> (\<^verbatim>\<open>core/clock.hpp\<close>, \<^verbatim>\<open>core/affinity.hpp\<close>): readings of a clock in nanoseconds do not go back when
    its ticks do not (\<open>clock_monotone\<close>), and what pinning a thread asks of the operating system.
  \<^item> \<open>Core_Types\<close> (\<^verbatim>\<open>core/types.hpp\<close>, \<^verbatim>\<open>core/error.hpp\<close>, \<^verbatim>\<open>core/result.hpp\<close>): prices in ticks survive the
    conversion to a double and back (\<open>price_roundtrip\<close>).
  \<^item> \<open>Book_Index\<close>, \<open>Bounded_Book\<close>, \<open>Book_Views\<close> (\<^verbatim>\<open>md/bounded_book.hpp\<close>): the two-level bitmap is a set
    with maximum and minimum (locale \<open>level_index\<close>); the ladder with its moving window is a map
    from prices to quantities (\<open>book_refines_map\<close>), recentered without losing the touch (\<open>recenter_keeps_touch\<close>), read in price priority (\<open>book_views\<close>, locale
    \<open>quote_source\<close>).
  \<^item> \<open>Spsc_Queue\<close> (\<^verbatim>\<open>util/spsc_queue.hpp\<close>): the ring with wrapping counters is a bounded queue (locale
    \<open>bounded_fifo\<close>), and stays one when two threads interleave at every atomic access with
    stale loads (\<open>spsc_threads_fifo\<close>).
  \<^item> \<open>Hdr_Histogram\<close> (\<^verbatim>\<open>util/hdr_histogram.hpp\<close>): percentiles against exact order statistics.
  \<^item> \<open>Orders\<close> (\<^verbatim>\<open>exec/order_types.hpp\<close>, \<^verbatim>\<open>strategy/signal.hpp\<close>; locale \<open>fill_sink\<close>), \<open>Circuit_Breaker\<close>,
    \<open>Risk_Manager\<close>, \<open>Pnl_Tracker\<close>, \<open>Execution_Engine\<close>, \<open>Order_Sizer\<close>: limits that hold in double arithmetic
    (exactly for exact fills, up to one part in \<open>2 ^ 40\<close> for the rounded fills of the simulator), average-cost accounting, fills between the best level and the limit, and
    orders that fill against the book they were sized from.
  \<^item> \<open>Imbalance_Strategy\<close> (the definitions) and \<open>Strategy_Behaviour\<close> (its runs): the window of
    observations, the conditions, cooldown and silence of signals, the closing of positions.
  \<^item> \<open>Market_Events\<close> (\<^verbatim>\<open>md/coinbase_messages.hpp\<close>, \<^verbatim>\<open>core/metrics.hpp\<close>, the network half of \<^verbatim>\<open>core/runtime.cpp\<close>):
    every event is enqueued or counted.
  \<^item> \<open>Runtime\<close> (the definitions of the strategy half) and \<open>Runtime_Behaviour\<close> (its runs, as the step
    relations \<open>loop_step\<close> and \<open>sys_step\<close>): accounting of orders, the fills that strategy and risk
    manager have both booked, agreement of book and feed, the position limit, and a race on
    reconnection.
  \<^item> \<open>Coinbase_Parser\<close>, \<open>Coinbase_Auth\<close>, \<open>Ws_Client\<close>: the result of parsing on every path, the
    signature, and the life of connections as the step relation \<open>ws_run\<close>, whose trace holds the
    callbacks, the lines of the log, the subscriptions and the sleeps.
  \<^item> \<open>Engine\<close>: all threads together (\<open>engine_step\<close>), the message callback cut at its accesses to the
    queue. Every run of the engine is a run of the strategy side and a run of the client
    (\<open>engine_refines_parts\<close>), so that their properties hold of it.
  \<^item> \<open>Position_Safety\<close>: the position limit in every state that the engine reaches, through feed, book,
    strategy, sizer, risk check and simulator (\<open>engine_position_limit\<close>), and the conditions on the
    numbers of a message that it needs (\<open>sane_message_events\<close>).
  \<^item> \<open>Book_Freshness\<close>: the book of the engine against the feed in every reachable state
    (\<open>engine_book_never_stale\<close>).
  \<^item> \<open>Logger\<close>, \<open>Logger_Shutdown\<close> (\<^verbatim>\<open>core/logger.cpp\<close>): printing in claim order, and what is printed when the
    logger is stopped (\<open>logger_stop_drains\<close>, \<open>logger_stop_loses_line\<close>).
  \<^item> \<open>Config\<close>, \<open>Reports\<close> (\<^verbatim>\<open>main.cpp\<close>, \<^verbatim>\<open>core/metrics.cpp\<close>): loading of the configuration against the table
    of its fields, every way in which it fails, the invariants of the runtime that is started;
    printed figures and the exit code, \<^verbatim>\<open>main\<close> as one function.
  \<^item> \<open>Program\<close>: \<^verbatim>\<open>main\<close> as a thread beside those of the engine and the handler of signals (\<open>prog_step\<close>). A
    signal ends every fair run with exit code 0 (\<open>program_exits\<close>), what is printed then is complete
    (\<open>program_final_report\<close>), and the run is one of \<^verbatim>\<open>main\<close> as one function
    (\<open>program_refines_main_run\<close>).

  \<^bold>\<open>Bounds and fuel.\<close> All recursions terminate, with a measure where they are not structural; there
  is no fuel in the model of the code. Without interference the callback in pieces is driven by a step count, and
  \<open>callback_in_pieces\<close> holds for every count of at least the number of changes plus the retries (200,
  from the source) plus four, which \<open>cb_steps\<close> shows to be enough. The relation of the logger covers
  runs of fewer than \<open>2 ^ 64\<close> records, where a counter wraps. Bounds on doubles (such as
  \<open>normal\<close>) exclude overflow to infinity and subnormal results where a relative error is claimed;
  \<open>sane_event\<close> asks of a live level a price of 1 to \<open>2 ^ 40\<close> ticks and a size of \<open>2 ^ -400\<close> to \<open>2 ^ 390\<close>, so
  that 32 levels add up to less than \<open>2 ^ 400\<close>.

  \<^bold>\<open>Not modelled.\<close> Sockets, TLS and the WebSocket handshake: every outcome of an attempt to connect
  or read is possible at any time. A call that blocks is a step that may be late: that it returns at
  some time is part of the fairness that \<open>program_exits\<close> assumes. The result of \<^verbatim>\<open>std::strtod\<close> is taken to be
  correctly rounded. The clocks and the scheduler of the operating system: a reading is an
  argument, a sleep is a step. A printed line is the list of the items sent to the stream, without the
  formatting of numbers and of the time of day; the main thread reads the figures of a periodic line in one
  moment, which matters for none of the theorems (the final report is read when nothing moves any
  more). The lines that the threads give to the logger are traces of their models and calls of the
  model of the logger, which are not composed. Memory order is modelled for the queue (stale loads)
  and as interleaving elsewhere. Getters that return a member are the fields of the records, and the
  destructors, which only stop, are the stops. The test of the running flag by \<^verbatim>\<open>Logger::stop\<close> and the
  joins of \<^verbatim>\<open>std::thread\<close> are the guards of the steps after them.
\<close>

end
